(* ===== verification/Dt_Prelude.thy ===== *)
theory Dt_Prelude
  imports Main "HOL-Library.Word" "HOL-Library.AList"
begin

text \<open>
  Shared vocabulary of the development: the ways a C++ function of the repository can fail,
  the result type and its sequencing operator, unsigned 64-bit (\<^verbatim>\<open>size_t\<close>) and signed 32-bit
  (\<^verbatim>\<open>int\<close>) arithmetic with the wrap-around written out, the parts of \<^verbatim>\<open>std::string\<close>,
  \<^verbatim>\<open>std::to_string\<close>, \<^verbatim>\<open>std::stoi\<close> and \<^verbatim>\<open>std::unordered_map\<close> the sources use, and the lemmas about
  them that the components share. Strings and byte vectors are both lists of \<^typ>\<open>char\<close>,
  which is an 8-bit value.
\<close>

named_theorems sz_simps \<open>size_t arithmetic that does not wrap\<close>
named_theorems res_simps \<open>sequencing of fallible computations\<close>
named_theorems find_simps \<open>std::string::find on concatenations\<close>

section \<open>Failures and results\<close>

text \<open>
  \<open>Assert_Failed\<close> is a failed \<^verbatim>\<open>assert\<close>, \<open>Fatal_Log\<close> a \<^verbatim>\<open>LOG(FATAL)\<close> (both end the process);
  \<open>Out_Of_Range\<close>, \<open>Invalid_Argument\<close>, \<open>Length_Error\<close>, \<open>Bad_Any_Cast\<close> and \<open>Runtime_Error\<close> are the
  standard exceptions, \<open>Json_Exception\<close> those of the JSON library; \<open>Null_Deref\<close> and \<open>Undefined_Behaviour\<close> mark executions to which C++
  gives no meaning (null dereference, reads of uninitialised variables, accesses out of bounds);
  \<open>Terminate\<close> is \<^verbatim>\<open>std::terminate\<close> and \<open>Diverges\<close> a call that never returns; \<open>Unmodelled\<close> marks uses of the
  C library that the development gives no meaning to (conversions other than \<^verbatim>\<open>%i\<close>, \<^verbatim>\<open>%d\<close>, \<^verbatim>\<open>%%\<close>).
\<close>

datatype cxx_error =
    Assert_Failed
  | Fatal_Log
  | Out_Of_Range
  | Invalid_Argument
  | Length_Error
  | Bad_Any_Cast
  | Runtime_Error string
  | Json_Exception string
  | Null_Deref
  | Undefined_Behaviour
  | Terminate
  | Diverges
  | Unmodelled

type_synonym 'a res = "cxx_error + 'a"

definition bind_res :: "'a res \<Rightarrow> ('a \<Rightarrow> 'b res) \<Rightarrow> 'b res" where
  "bind_res r f = (case r of Inl e \<Rightarrow> Inl e | Inr x \<Rightarrow> f x)"

definition cxx_assert :: "bool \<Rightarrow> 'a res \<Rightarrow> 'a res" where
  "cxx_assert b k = (if b then k else Inl Assert_Failed)"

lemma bind_res_simps [simp, res_simps]:
  "bind_res (Inl e) f = Inl e"
  "bind_res (Inr x) f = f x"
  by (simp_all add: bind_res_def)

lemma bind_res_Inr_iff [res_simps]:
  "bind_res r f = Inr y \<longleftrightarrow> (\<exists>x. r = Inr x \<and> f x = Inr y)"
  by (cases r) auto

lemma bind_res_InrE [elim]:
  assumes "bind_res r f = Inr y"
  obtains x where "r = Inr x" and "f x = Inr y"
  using assms by (auto simp: bind_res_Inr_iff)

lemma bind_res_assoc: "bind_res (bind_res r f) g = bind_res r (\<lambda>x. bind_res (f x) g)"
  by (cases r) simp_all

lemma bind_res_cong [fundef_cong]:
  assumes "r = r'" and "\<And>x. r' = Inr x \<Longrightarrow> f x = g x"
  shows "bind_res r f = bind_res r' g"
  using assms by (cases r') simp_all

lemma cxx_assert_simps [simp, res_simps]:
  "cxx_assert True k = k"
  "cxx_assert False k = Inl Assert_Failed"
  by (simp_all add: cxx_assert_def)

lemma cxx_assert_Inr_iff [res_simps]: "cxx_assert b k = Inr y \<longleftrightarrow> b \<and> k = Inr y"
  by (simp add: cxx_assert_def)

text \<open>What \<^verbatim>\<open>catch (...)\<close> catches: the C++ exceptions, not the ends of the process.\<close>

fun catchable :: "cxx_error \<Rightarrow> bool" where
  "catchable Out_Of_Range = True"
| "catchable Invalid_Argument = True"
| "catchable Length_Error = True"
| "catchable Bad_Any_Cast = True"
| "catchable (Runtime_Error _) = True"
| "catchable (Json_Exception _) = True"
| "catchable _ = False"

text \<open>
  A loop \<^verbatim>\<open>do x = f(); while (x == NULL);\<close>: \<open>f k\<close> says whether the \<open>k\<close>-th try succeeds. It may run
  forever.
\<close>

partial_function (option) retry :: "(nat \<Rightarrow> bool) \<Rightarrow> nat \<Rightarrow> nat option" where
  "retry f k = (if f k then Some k else retry f (Suc k))"

lemma retry_returns: "f (k + d) \<Longrightarrow> \<exists>j. retry f k = Some j"
proof (induction d arbitrary: k)
  case 0
  then show ?case by (subst retry.simps) simp
next
  case (Suc d)
  then show ?case by (subst retry.simps) (use Suc.IH [of "Suc k"] in simp)
qed

lemma retry_obtain:
  assumes "\<exists>k. f k"
  obtains j where "retry f 0 = Some j"
  using assms retry_returns [of f 0] by auto

text \<open>\<^verbatim>\<open>c_str()\<close> read by a C function: up to the first zero byte. \<^verbatim>\<open>s[i]\<close> gives the terminator at the end.\<close>

definition c_str :: "string \<Rightarrow> string" where
  "c_str s = takeWhile (\<lambda>c. c \<noteq> CHR 0x00) s"

definition str_at :: "string \<Rightarrow> nat \<Rightarrow> char res" where
  "str_at s i =
     (if i < length s then Inr (s ! i) else if i = length s then Inr (CHR 0x00)
      else Inl Undefined_Behaviour)"

lemma c_str_id [simp]: "CHR 0x00 \<notin> set s \<Longrightarrow> c_str s = s"
  by (auto simp: c_str_def takeWhile_eq_all_conv)

section \<open>Integers at their width\<close>

abbreviation size_lim :: nat where
  "size_lim \<equiv> 18446744073709551616"

text \<open>\<^verbatim>\<open>size_t\<close> addition and subtraction are modulo \<open>2 ^ 64\<close>.\<close>

definition sz_add :: "nat \<Rightarrow> nat \<Rightarrow> nat" where
  "sz_add a b = (a + b) mod size_lim"

definition sz_sub :: "nat \<Rightarrow> nat \<Rightarrow> nat" where
  "sz_sub a b = (a + (size_lim - b mod size_lim)) mod size_lim"

lemma size_lim_eq: "size_lim = 2 ^ 64"
  by simp

lemma sz_add_eq [sz_simps]: "a + b < size_lim \<Longrightarrow> sz_add a b = a + b"
  by (simp add: sz_add_def)

lemma sz_sub_eq [sz_simps]:
  assumes "b \<le> a" and "a < size_lim"
  shows "sz_sub a b = a - b"
proof -
  have "a + (size_lim - b mod size_lim) = (a - b) + size_lim"
    using assms by simp
  then have "sz_sub a b = ((a - b) + size_lim) mod size_lim"
    unfolding sz_sub_def by (simp only:)
  also have "\<dots> = a - b"
    using assms by (simp only: mod_add_self2) simp
  finally show ?thesis .
qed

lemma sz_sub_wraps:
  assumes "a < b" and "b < size_lim"
  shows "sz_sub a b = size_lim - (b - a)"
  using assms by (simp add: sz_sub_def)

text \<open>The largest size of a \<^verbatim>\<open>std::vector<char>\<close> or \<^verbatim>\<open>std::string\<close> is \<^verbatim>\<open>PTRDIFF_MAX\<close>.\<close>

abbreviation max_size :: nat where
  "max_size \<equiv> 9223372036854775807"

text \<open>Conversion of a mathematical integer to a 32-bit \<^verbatim>\<open>int\<close> (two's complement).\<close>

definition to_int32 :: "int \<Rightarrow> int" where
  "to_int32 z = (z + 2147483648) mod 4294967296 - 2147483648"

definition is_int32 :: "int \<Rightarrow> bool" where
  "is_int32 z \<longleftrightarrow> -2147483648 \<le> z \<and> z \<le> 2147483647"

lemma to_int32_id [simp]: "is_int32 z \<Longrightarrow> to_int32 z = z"
  by (simp add: to_int32_def is_int32_def)

lemma is_int32_to_int32 [simp]: "is_int32 (to_int32 z)"
proof -
  have "0 \<le> (z + 2147483648) mod 4294967296" "(z + 2147483648) mod 4294967296 < 4294967296"
    by simp_all
  then show ?thesis unfolding to_int32_def is_int32_def by linarith
qed

text \<open>Conversion of an \<^verbatim>\<open>int\<close> to \<^verbatim>\<open>size_t\<close> (sign extension, then modulo \<open>2 ^ 64\<close>).\<close>

definition size_of_int :: "int \<Rightarrow> nat" where
  "size_of_int z = nat (z mod 18446744073709551616)"

lemma size_of_int_nonneg [simp]:
  "0 \<le> z \<Longrightarrow> z < 18446744073709551616 \<Longrightarrow> size_of_int z = nat z"
  by (simp add: size_of_int_def)

section \<open>Searching in strings\<close>

text \<open>
  \<^verbatim>\<open>std::string::find(p, pos)\<close>: the least index from \<open>pos\<close> on at which \<open>p\<close> occurs, with
  \<^verbatim>\<open>npos\<close> as \<^const>\<open>None\<close>.
\<close>

fun find_sub :: "string \<Rightarrow> string \<Rightarrow> nat \<Rightarrow> nat option" where
  "find_sub p [] i = (if p = [] then Some i else None)"
| "find_sub p (c # cs) i =
     (if take (length p) (c # cs) = p then Some i else find_sub p cs (Suc i))"

definition str_find :: "string \<Rightarrow> string \<Rightarrow> nat \<Rightarrow> nat option" where
  "str_find s p pos = (if pos \<le> length s then find_sub p (drop pos s) pos else None)"

text \<open>The result of \<^verbatim>\<open>find\<close> stored in an \<^verbatim>\<open>int\<close>: \<^verbatim>\<open>npos\<close> becomes \<open>-1\<close>.\<close>

definition int_of_pos :: "nat option \<Rightarrow> int" where
  "int_of_pos r = (case r of None \<Rightarrow> -1 | Some i \<Rightarrow> to_int32 (int i))"

text \<open>\<^verbatim>\<open>std::string::substr(pos)\<close> and \<^verbatim>\<open>substr(pos, n)\<close>: they throw when \<open>pos\<close> is past the end.\<close>

definition substr_from :: "string \<Rightarrow> nat \<Rightarrow> string res" where
  "substr_from s pos = (if pos \<le> length s then Inr (drop pos s) else Inl Out_Of_Range)"

lemma find_sub_bounds:
  "find_sub p s i = Some k \<Longrightarrow> i \<le> k \<and> k + length p \<le> i + length s"
proof (induction p s i rule: find_sub.induct)
  case (1 p i)
  then show ?case by (auto split: if_splits)
next
  case (2 p c cs i)
  show ?case
  proof (cases "take (length p) (c # cs) = p")
    case True
    then have "length p \<le> length (c # cs)"
      by (metis length_take min.cobounded1)
    with True 2 show ?thesis by auto
  qed (use 2 in auto)
qed

lemma find_sub_at:
  "find_sub p s i = Some k \<Longrightarrow> take (length p) (drop (k - i) s) = p"
proof (induction p s i rule: find_sub.induct)
  case (1 p i)
  then show ?case by (auto split: if_splits)
next
  case (2 p c cs i)
  show ?case
  proof (cases "take (length p) (c # cs) = p")
    case False
    with 2 have "find_sub p cs (Suc i) = Some k" by simp
    moreover from this have "Suc i \<le> k" by (blast dest: find_sub_bounds)
    ultimately show ?thesis using 2(1) False by (simp add: drop_Cons')
  qed (use 2 in auto)
qed

lemma str_find_bounds:
  "str_find s p pos = Some k \<Longrightarrow> pos \<le> k \<and> k + length p \<le> length s"
  by (auto simp: str_find_def split: if_splits dest: find_sub_bounds)

lemma str_find_at:
  assumes "str_find s p pos = Some k"
  shows "take (length p) (drop k s) = p"
proof -
  have f: "find_sub p (drop pos s) pos = Some k"
    using assms by (simp add: str_find_def split: if_splits)
  then have "pos \<le> k" by (blast dest: find_sub_bounds)
  with find_sub_at [OF f] show ?thesis by simp
qed

text \<open>
  The first occurrence in \<open>pre @ p @ post\<close> is the one after \<open>pre\<close> exactly when \<open>p\<close> does not occur
  in \<open>pre @ butlast p\<close>.
\<close>

lemma find_sub_first:
  assumes "p \<noteq> []" and "find_sub p (pre @ butlast p) i = None"
  shows "find_sub p (pre @ p @ post) i = Some (i + length pre)"
  using assms(2)
proof (induction pre arbitrary: i)
  case Nil
  show ?case using assms(1) by (cases p) auto
next
  case (Cons c pre)
  have "take (length p) (c # pre @ p @ post) \<noteq> p"
  proof
    assume occ: "take (length p) (c # pre @ p @ post) = p"
    have "length (c # pre @ butlast p) \<ge> length p"
      using assms(1) by (cases p) auto
    moreover have "c # pre @ p @ post = (c # pre @ butlast p) @ [last p] @ post"
      using assms(1) by simp
    ultimately have "take (length p) (c # pre @ butlast p) = p"
      using occ by (metis (no_types, lifting) append_Cons take_append diff_is_0_eq' take_0 append_Nil2)
    with Cons.prems show False by auto
  qed
  moreover have "find_sub p (pre @ butlast p) (Suc i) = None"
    using Cons.prems by (auto split: if_splits)
  ultimately show ?case using Cons.IH [of "Suc i"] by simp
qed

lemma str_find_first [find_simps]:
  assumes "p \<noteq> []" and "str_find (pre @ butlast p) p 0 = None"
  shows "str_find (pre @ p @ post) p 0 = Some (length pre)"
  using find_sub_first [OF assms(1), of pre 0 post] assms(2) by (simp add: str_find_def)

text \<open>A character that occurs in \<open>p\<close> but not in \<open>s\<close> rules out any occurrence.\<close>

lemma find_sub_None_char:
  "c \<in> set p \<Longrightarrow> c \<notin> set s \<Longrightarrow> find_sub p s i = None"
proof (induction s arbitrary: i)
  case (Cons d s)
  have "take (length p) (d # s) \<noteq> p"
    using Cons.prems by (metis in_set_takeD)
  with Cons show ?case by simp
qed auto

lemma str_find_None_char [find_simps]:
  "c \<in> set p \<Longrightarrow> c \<notin> set s \<Longrightarrow> str_find s p pos = None"
  unfolding str_find_def using find_sub_None_char [of c p "drop pos s" pos] in_set_dropD by fastforce

lemma str_find_char_first [find_simps]:
  "c \<notin> set pre \<Longrightarrow> str_find (pre @ c # post) [c] 0 = Some (length pre)"
  using str_find_first [of "[c]" pre post] str_find_None_char [of c "[c]" pre 0] by simp

section \<open>Decimal numbers in strings\<close>

definition digit_char :: "nat \<Rightarrow> char" where
  "digit_char d = char_of (48 + d)"

definition is_digit :: "char \<Rightarrow> bool" where
  "is_digit c \<longleftrightarrow> 48 \<le> (of_char c :: nat) \<and> (of_char c :: nat) \<le> 57"

definition digit_val :: "char \<Rightarrow> nat" where
  "digit_val c = of_char c - 48"

text \<open>White space as \<^verbatim>\<open>isspace\<close> in the C locale: space and the codes 9 to 13.\<close>

definition is_space :: "char \<Rightarrow> bool" where
  "is_space c \<longleftrightarrow> (of_char c :: nat) = 32 \<or> 9 \<le> (of_char c :: nat) \<and> (of_char c :: nat) \<le> 13"

fun nat_to_string :: "nat \<Rightarrow> string" where
  "nat_to_string n =
     (if n < 10 then [digit_char n]
      else nat_to_string (n div 10) @ [digit_char (n mod 10)])"

declare nat_to_string.simps [simp del]

definition to_string :: "int \<Rightarrow> string" where
  "to_string z = (if z < 0 then CHR ''-'' # nat_to_string (nat (- z)) else nat_to_string (nat z))"

definition digits_val :: "string \<Rightarrow> nat" where
  "digits_val ds = foldl (\<lambda>a c. 10 * a + digit_val c) 0 ds"

text \<open>
  \<^verbatim>\<open>std::stoi\<close>: leading white space, an optional sign, the longest run of digits; the rest is
  ignored. No digit throws \<^verbatim>\<open>invalid_argument\<close>, a value outside \<^verbatim>\<open>int\<close> throws \<^verbatim>\<open>out_of_range\<close>.
\<close>

definition parse_sign :: "string \<Rightarrow> bool \<times> string" where
  "parse_sign s =
     (case s of [] \<Rightarrow> (False, [])
      | c # cs \<Rightarrow> if c = CHR ''-'' then (True, cs)
                  else if c = CHR ''+'' then (False, cs) else (False, s))"

definition stoi :: "string \<Rightarrow> int res" where
  "stoi s =
     (let (neg, t) = parse_sign (dropWhile is_space s);
          ds = takeWhile is_digit t;
          v = int (digits_val ds);
          z = (if neg then - v else v)
      in if ds = [] then Inl Invalid_Argument
         else if is_int32 z then Inr z else Inl Out_Of_Range)"

lemma of_char_digit_char [simp]: "d < 10 \<Longrightarrow> of_char (digit_char d) = (48 + d :: nat)"
  by (simp add: digit_char_def)

lemma is_digit_digit_char [simp]: "d < 10 \<Longrightarrow> is_digit (digit_char d)"
  by (simp add: is_digit_def)

lemma digit_val_digit_char [simp]: "d < 10 \<Longrightarrow> digit_val (digit_char d) = d"
  by (simp add: digit_val_def)

lemma nat_to_string_not_Nil [simp]: "nat_to_string n \<noteq> []"
  by (subst nat_to_string.simps) simp

lemma nat_to_string_digits: "\<forall>c \<in> set (nat_to_string n). is_digit c"
proof (induction n rule: nat_to_string.induct)
  case (1 n)
  then show ?case by (subst nat_to_string.simps) auto
qed

lemma digits_val_snoc [simp]: "digits_val (ds @ [c]) = 10 * digits_val ds + digit_val c"
  by (simp add: digits_val_def)

lemma digits_val_nat_to_string [simp]: "digits_val (nat_to_string n) = n"
proof (induction n rule: nat_to_string.induct)
  case (1 n)
  show ?case
  proof (cases "n < 10")
    case True
    then show ?thesis by (subst nat_to_string.simps) (simp add: digits_val_def)
  next
    case False
    with 1 show ?thesis by (subst nat_to_string.simps) simp
  qed
qed

lemma digit_not_special:
  assumes "is_digit c"
  shows "\<not> is_space c" "c \<noteq> CHR ''-''" "c \<noteq> CHR ''+''" "c \<noteq> CHR ''.''" "c \<noteq> CHR ''%''"
    "c \<noteq> CHR ''\"''" "c \<noteq> CHR 0x5C"
  using assms by (auto simp: is_digit_def is_space_def)

lemma nat_to_string_nondigit: "\<not> is_digit c \<Longrightarrow> c \<notin> set (nat_to_string n)"
  using nat_to_string_digits [of n] by blast

lemma nat_to_string_chars [simp]:
  "CHR ''-'' \<notin> set (nat_to_string n)" "CHR ''.'' \<notin> set (nat_to_string n)"
  "CHR ''%'' \<notin> set (nat_to_string n)" "CHR ''\"'' \<notin> set (nat_to_string n)"
  "CHR 0x5C \<notin> set (nat_to_string n)"
  by (rule nat_to_string_nondigit, simp add: is_digit_def)+

lemma takeWhile_digits_append [simp]:
  assumes "rest = [] \<or> \<not> is_digit (hd rest)"
  shows "takeWhile is_digit (nat_to_string n @ rest) = nat_to_string n"
proof -
  have "takeWhile is_digit (nat_to_string n @ rest) = nat_to_string n @ takeWhile is_digit rest"
    using nat_to_string_digits [of n] by (intro takeWhile_append2) blast
  also have "takeWhile is_digit rest = []"
    using assms by (cases rest) simp_all
  finally show ?thesis by simp
qed

lemma nat_to_string_Cons:
  obtains c cs where "nat_to_string n = c # cs" and "is_digit c"
  using nat_to_string_digits [of n] by (cases "nat_to_string n") auto

text \<open>Reading back a printed number, whatever non-digit follows it.\<close>

lemma stoi_to_string [simp]:
  assumes "is_int32 z" and "rest = [] \<or> \<not> is_digit (hd rest)"
  shows "stoi (to_string z @ rest) = Inr z"
proof (cases "z < 0")
  case True
  have "\<not> is_space CHR ''-''" by (simp add: is_space_def)
  with True assms show ?thesis
    by (simp add: to_string_def stoi_def parse_sign_def)
next
  case False
  obtain c cs where c: "nat_to_string (nat z) = c # cs" "is_digit c"
    by (rule nat_to_string_Cons)
  have tw: "takeWhile is_digit (nat_to_string (nat z) @ rest) = nat_to_string (nat z)"
    using assms(2) by simp
  have "parse_sign (dropWhile is_space (nat_to_string (nat z) @ rest)) =
      (False, nat_to_string (nat z) @ rest)"
    using c digit_not_special [OF c(2)] by (simp add: parse_sign_def)
  with False assms(1) tw show ?thesis
    by (simp add: to_string_def stoi_def)
qed

lemma stoi_to_string_exact [simp]: "is_int32 z \<Longrightarrow> stoi (to_string z) = Inr z"
  using stoi_to_string [of z "[]"] by simp

lemma to_string_not_Nil [simp]: "to_string z \<noteq> []"
  by (simp add: to_string_def)

lemma to_string_chars [simp]:
  "CHR ''.'' \<notin> set (to_string z)" "CHR ''%'' \<notin> set (to_string z)"
  "CHR ''\"'' \<notin> set (to_string z)" "CHR 0x5C \<notin> set (to_string z)"
  by (auto simp: to_string_def)

lemma nat_to_string_hd: "0 < n \<Longrightarrow> hd (nat_to_string n) \<noteq> CHR ''0''"
proof (induction n rule: nat_to_string.induct)
  case (1 n)
  show ?case
  proof (cases "n < 10")
    case True
    have "(of_char (digit_char n) :: nat) \<noteq> of_char CHR ''0''"
      using True 1 by simp
    then have "digit_char n \<noteq> CHR ''0''" by metis
    with True show ?thesis by (subst nat_to_string.simps) simp
  next
    case False
    with 1 show ?thesis by (subst nat_to_string.simps) (simp add: hd_append)
  qed
qed

lemma length_nat_to_string: "0 < k \<Longrightarrow> n < 10 ^ k \<Longrightarrow> length (nat_to_string n) \<le> k"
proof (induction n arbitrary: k rule: nat_to_string.induct)
  case (1 n)
  show ?case
  proof (cases "n < 10")
    case True
    with 1 show ?thesis by (subst nat_to_string.simps) simp
  next
    case False
    then obtain j where k: "k = Suc j" "0 < j"
      using 1 by (cases k; cases "k - 1") auto
    with 1 have "n div 10 < 10 ^ j" by (simp add: less_mult_imp_div_less mult.commute)
    with 1 False k show ?thesis by (subst nat_to_string.simps) simp
  qed
qed

lemma length_to_string: "is_int32 z \<Longrightarrow> length (to_string z) \<le> 11"
proof -
  assume "is_int32 z"
  then have "nat z \<le> nat 2147483648" "nat (- z) \<le> nat 2147483648"
    by (auto simp: is_int32_def intro!: nat_mono)
  then have "nat z < 10 ^ 10" "nat (- z) < 10 ^ 10" by simp_all
  then have "length (nat_to_string (nat z)) \<le> 10" "length (nat_to_string (nat (- z))) \<le> 10"
    by (simp_all add: length_nat_to_string)
  then show ?thesis by (simp add: to_string_def)
qed

lemma to_string_inj: "is_int32 a \<Longrightarrow> is_int32 b \<Longrightarrow> to_string a = to_string b \<longleftrightarrow> a = b"
  by (metis stoi_to_string_exact Inr_inject)

section \<open>Vectors and hash maps\<close>

text \<open>
  Writing \<open>ys\<close> over the elements of a vector from index \<open>i\<close> on; a write past the end is
  undefined in C++.
\<close>

definition vec_write :: "'a list \<Rightarrow> nat \<Rightarrow> 'a list \<Rightarrow> 'a list res" where
  "vec_write xs i ys =
     (if i + length ys \<le> length xs then Inr (take i xs @ ys @ drop (i + length ys) xs)
      else Inl Undefined_Behaviour)"

text \<open>Reading \<open>n\<close> elements from index \<open>i\<close> on (a \<^verbatim>\<open>memcpy\<close> or a pointer and a length).\<close>

definition mem_read :: "'a list \<Rightarrow> nat \<Rightarrow> nat \<Rightarrow> 'a list res" where
  "mem_read xs i n = (if i + n \<le> length xs then Inr (take n (drop i xs)) else Inl Undefined_Behaviour)"

text \<open>\<^verbatim>\<open>vector::resize(n)\<close> with value-initialised new elements.\<close>

definition vec_resize :: "'a \<Rightarrow> 'a list \<Rightarrow> nat \<Rightarrow> 'a list res" where
  "vec_resize d xs n =
     (if n > max_size then Inl Length_Error
      else Inr (take n xs @ replicate (n - length xs) d))"

text \<open>
  \<^verbatim>\<open>std::unordered_map\<close> and \<^verbatim>\<open>std::map\<close> are association lists without repeated keys; their order
  stands for the (unspecified) iteration order.
\<close>

type_synonym ('k, 'v) umap = "('k \<times> 'v) list"

abbreviation umap_set :: "'k \<Rightarrow> 'v \<Rightarrow> ('k, 'v) umap \<Rightarrow> ('k, 'v) umap" where
  "umap_set \<equiv> AList.update"

abbreviation umap_erase :: "'k \<Rightarrow> ('k, 'v) umap \<Rightarrow> ('k, 'v) umap" where
  "umap_erase \<equiv> AList.delete"

abbreviation umap_wf :: "('k, 'v) umap \<Rightarrow> bool" where
  "umap_wf m \<equiv> distinct (map fst m)"

text \<open>\<^verbatim>\<open>at(k)\<close> throws when the key is absent.\<close>

definition umap_at :: "('k, 'v) umap \<Rightarrow> 'k \<Rightarrow> 'v res" where
  "umap_at m k = (case map_of m k of None \<Rightarrow> Inl Out_Of_Range | Some v \<Rightarrow> Inr v)"

lemma umap_at_iff: "umap_at m k = Inr v \<longleftrightarrow> map_of m k = Some v"
  by (simp add: umap_at_def split: option.splits)

lemma umap_at_set [simp]:
  "umap_at (umap_set k v m) k' = (if k' = k then Inr v else umap_at m k')"
  by (simp add: umap_at_def update_conv')

lemma umap_at_erase [simp]:
  "umap_at (umap_erase k m) k' = (if k' = k then Inl Out_Of_Range else umap_at m k')"
  by (simp add: umap_at_def delete_conv')

lemma umap_wf_set [simp]: "umap_wf m \<Longrightarrow> umap_wf (umap_set k v m)"
  by (rule distinct_update)

lemma umap_wf_erase [simp]: "umap_wf m \<Longrightarrow> umap_wf (umap_erase k m)"
  by (rule distinct_delete)

lemma map_of_umap_set [simp]: "map_of (umap_set k v m) = (map_of m)(k \<mapsto> v)"
  by (rule update_conv')

lemma map_of_umap_erase [simp]: "map_of (umap_erase k m) = (map_of m)(k := None)"
  by (rule delete_conv')

lemma length_umap_set:
  "length (umap_set k v m) = (if map_of m k = None then Suc (length m) else length m)"
  by (induction m) auto

lemma length_umap_erase_absent: "map_of m k = None \<Longrightarrow> length (umap_erase k m) = length m"
  by (induction m) (auto split: if_splits)

lemma length_umap_erase_present:
  "umap_wf m \<Longrightarrow> map_of m k \<noteq> None \<Longrightarrow> Suc (length (umap_erase k m)) = length m"
  by (induction m) (force simp: length_umap_erase_absent map_of_eq_None_iff)+

lemma length_umap_erase_le: "length (umap_erase k m) \<le> length m"
  by (induction m) auto

lemma umap_set_fresh: "map_of m k = None \<Longrightarrow> umap_set k v m = m @ [(k, v)]"
  by (induction m) (auto split: if_splits)

lemma umap_erase_fresh: "k \<notin> fst ` set m \<Longrightarrow> umap_erase k m = m"
  by (induction m) auto

lemma umap_erase_split:
  assumes "umap_wf m" and "map_of m k = Some v"
  obtains xs ys where "m = xs @ (k, v) # ys" and "umap_erase k m = xs @ ys"
proof -
  obtain xs ys where m: "m = xs @ (k, v) # ys"
    using map_of_SomeD [OF assms(2)] split_list by fast
  with assms(1) have "k \<notin> fst ` set xs" "k \<notin> fst ` set ys" by auto
  then have "umap_erase k m = xs @ ys"
    using m umap_erase_fresh [of k xs] umap_erase_fresh [of k ys] by (simp add: AList.delete_eq)
  with m that show ?thesis by blast
qed

lemma vec_write_Inr:
  assumes "vec_write xs i ys = Inr zs"
  shows "length zs = length xs" "take i zs = take i xs"
    "take (length ys) (drop i zs) = ys" "drop (i + length ys) zs = drop (i + length ys) xs"
  using assms by (auto simp: vec_write_def split: if_splits)

lemma vec_write_exists: "i + length ys \<le> length xs \<Longrightarrow> \<exists>zs. vec_write xs i ys = Inr zs"
  by (simp add: vec_write_def)

end
