(* ===== verification/NetPoller.thy ===== *)
theory NetPoller
  imports Dt_Prelude
begin

text \<open>
  Channels and the epoll poller (\<^verbatim>\<open>network/Channel\<close>, \<^verbatim>\<open>network/Poller\<close>). Channels are heap objects
  known by their address; the poller keeps a map from file descriptors to channels, and the kernel
  keeps the interest list of the epoll descriptor, which is part of the state here because
  \<^verbatim>\<open>epoll_ctl\<close> fails on a descriptor that is already (or not yet) registered. Other reasons for
  \<^verbatim>\<open>epoll_ctl\<close> to fail are the parameter \<open>kf\<close>. The lemmas show that the three views (the channel's
  index, the poller's map, the kernel's list) stay in step.
\<close>

section \<open>State\<close>

definition NoneEvent :: int where "NoneEvent = 0"
definition ReadEvent :: int where "ReadEvent = 1"
definition WriteEvent :: int where "WriteEvent = 4"

text \<open>The flags of \<^verbatim>\<open>poll(2)\<close>, which epoll shares.\<close>

definition POLLIN :: int where "POLLIN = 1"
definition POLLPRI :: int where "POLLPRI = 2"
definition POLLOUT :: int where "POLLOUT = 4"
definition POLLERR :: int where "POLLERR = 8"
definition POLLHUP :: int where "POLLHUP = 16"
definition POLLNVAL :: int where "POLLNVAL = 32"
definition POLLRDHUP :: int where "POLLRDHUP = 8192"

lemmas poll_defs = POLLIN_def POLLPRI_def POLLOUT_def POLLERR_def POLLHUP_def POLLNVAL_def POLLRDHUP_def
lemmas event_defs = NoneEvent_def ReadEvent_def WriteEvent_def

definition kNew :: int where "kNew = -1"
definition kAdded :: int where "kAdded = 1"
definition kDeleted :: int where "kDeleted = 2"

lemmas index_defs = kNew_def kAdded_def kDeleted_def

record channel =
  ch_fd :: int
  ch_events :: int
  ch_revents :: int
  ch_index :: int
  event_handling :: bool
  addedToLoop :: bool

definition Channel_ctor :: "int \<Rightarrow> channel" where
  "Channel_ctor fd = \<lparr>ch_fd = fd, ch_events = 0, ch_revents = 0, ch_index = -1,
     event_handling = False, addedToLoop = False\<rparr>"

text \<open>The channel objects, the poller's map and the size of its event array, and the interest list.\<close>

record poller =
  chans :: "(nat, channel) umap"
  channels :: "(int, nat) umap"
  events_size :: nat
  interest :: "(int, int \<times> nat) umap"

definition kInitEventListSize :: nat where
  "kInitEventListSize = 16"

text \<open>\<^verbatim>\<open>epoll_create1\<close> gave the descriptor \<open>epollfd\<close>.\<close>

definition Poller_ctor :: "int \<Rightarrow> poller res" where
  "Poller_ctor epollfd =
     (if epollfd < 0 then Inl Fatal_Log
      else Inr \<lparr>chans = [], channels = [], events_size = kInitEventListSize, interest = []\<rparr>)"

section \<open>Poller\<close>

datatype epoll_op = EPOLL_CTL_ADD | EPOLL_CTL_MOD | EPOLL_CTL_DEL

text \<open>\<^verbatim>\<open>epoll_ctl\<close>: success and the new interest list.\<close>

definition epoll_ctl ::
    "(epoll_op \<Rightarrow> int \<Rightarrow> bool) \<Rightarrow> epoll_op \<Rightarrow> int \<Rightarrow> int \<times> nat \<Rightarrow> (int, int \<times> nat) umap \<Rightarrow>
     bool \<times> (int, int \<times> nat) umap" where
  "epoll_ctl kf op fd ev il =
     (if kf op fd then (False, il)
      else case op of
             EPOLL_CTL_ADD \<Rightarrow> if map_of il fd = None then (True, umap_set fd ev il) else (False, il)
           | EPOLL_CTL_MOD \<Rightarrow> if map_of il fd \<noteq> None then (True, umap_set fd ev il) else (False, il)
           | EPOLL_CTL_DEL \<Rightarrow> if map_of il fd \<noteq> None then (True, umap_erase fd il) else (False, il))"

definition Poller_update ::
    "(epoll_op \<Rightarrow> int \<Rightarrow> bool) \<Rightarrow> epoll_op \<Rightarrow> nat \<Rightarrow> channel \<Rightarrow> poller \<Rightarrow> poller res" where
  "Poller_update kf op p c s =
     (case epoll_ctl kf op (ch_fd c) (ch_events c, p) (interest s) of
        (ok, il) \<Rightarrow> if \<not> ok \<and> op \<noteq> EPOLL_CTL_DEL then Inl Fatal_Log else Inr (s\<lparr>interest := il\<rparr>))"

definition chan :: "poller \<Rightarrow> nat \<Rightarrow> channel res" where
  "chan s p = (case map_of (chans s) p of None \<Rightarrow> Inl Undefined_Behaviour | Some c \<Rightarrow> Inr c)"

definition set_chan :: "nat \<Rightarrow> channel \<Rightarrow> poller \<Rightarrow> poller" where
  "set_chan p c s = s\<lparr>chans := umap_set p c (chans s)\<rparr>"

definition isNoneEvent :: "channel \<Rightarrow> bool" where
  "isNoneEvent c \<longleftrightarrow> ch_events c = NoneEvent"

definition Poller_updateChannel :: "(epoll_op \<Rightarrow> int \<Rightarrow> bool) \<Rightarrow> nat \<Rightarrow> poller \<Rightarrow> poller res" where
  "Poller_updateChannel kf p s =
     bind_res (chan s p) (\<lambda>c.
       let fd = ch_fd c; index = ch_index c in
       if index = kNew \<or> index = kDeleted
       then let add = (\<lambda>s. let c' = c\<lparr>ch_index := kAdded\<rparr> in
                         Poller_update kf EPOLL_CTL_ADD p c' (set_chan p c' s))
            in if index = kNew
               then cxx_assert (map_of (channels s) fd = None) (add (s\<lparr>channels := umap_set fd p (channels s)\<rparr>))
               else cxx_assert (map_of (channels s) fd = Some p) (add s)
       else cxx_assert (map_of (channels s) fd = Some p) (cxx_assert (index = kAdded)
              (if isNoneEvent c
               then bind_res (Poller_update kf EPOLL_CTL_DEL p c s)
                      (\<lambda>s'. Inr (set_chan p (c\<lparr>ch_index := kDeleted\<rparr>) s'))
               else Poller_update kf EPOLL_CTL_MOD p c s)))"

definition Poller_removeChannel :: "(epoll_op \<Rightarrow> int \<Rightarrow> bool) \<Rightarrow> nat \<Rightarrow> poller \<Rightarrow> poller res" where
  "Poller_removeChannel kf p s =
     bind_res (chan s p) (\<lambda>c.
       let fd = ch_fd c; index = ch_index c in
       cxx_assert (map_of (channels s) fd = Some p) (cxx_assert (isNoneEvent c)
         (cxx_assert (index = kAdded \<or> index = kDeleted)
           (let s1 = s\<lparr>channels := umap_erase fd (channels s)\<rparr> in
            bind_res (if index = kAdded then Poller_update kf EPOLL_CTL_DEL p c s1 else Inr s1)
              (\<lambda>s2. Inr (set_chan p (c\<lparr>ch_index := kNew\<rparr>) s2))))))"

definition Poller_hasChannel :: "nat \<Rightarrow> poller \<Rightarrow> bool res" where
  "Poller_hasChannel p s = bind_res (chan s p) (\<lambda>c. Inr (map_of (channels s) (ch_fd c) = Some p))"

text \<open>
  \<^verbatim>\<open>poll\<close>: \<open>evs\<close> are the events \<^verbatim>\<open>epoll_wait\<close> returned (flags and \<^verbatim>\<open>data.ptr\<close>), \<^const>\<open>None\<close> when it failed. The
  active channels get their \<^verbatim>\<open>revents\<close>; a full event array is doubled.
\<close>

fun fillActiveChannels :: "(int \<times> nat) list \<Rightarrow> poller \<Rightarrow> (nat list \<times> poller) res" where
  "fillActiveChannels [] s = Inr ([], s)"
| "fillActiveChannels ((fl, p) # evs) s =
     bind_res (chan s p) (\<lambda>c.
       cxx_assert (map_of (channels s) (ch_fd c) = Some p)
         (bind_res (fillActiveChannels evs (set_chan p (c\<lparr>ch_revents := fl\<rparr>) s))
            (\<lambda>(ps, s'). Inr (p # ps, s'))))"

definition Poller_poll :: "(int \<times> nat) list option \<Rightarrow> poller \<Rightarrow> (nat list \<times> poller) res" where
  "Poller_poll evs s =
     (case evs of
        None \<Rightarrow> Inr ([], s)
      | Some es \<Rightarrow>
          if es = [] then Inr ([], s)
          else cxx_assert (length es \<le> events_size s)
                 (bind_res (fillActiveChannels es s) (\<lambda>(ps, s').
                    Inr (ps, if length es = events_size s' then s'\<lparr>events_size := events_size s' * 2\<rparr> else s'))))"

section \<open>Channel\<close>

definition Channel_update :: "(epoll_op \<Rightarrow> int \<Rightarrow> bool) \<Rightarrow> nat \<Rightarrow> channel \<Rightarrow> poller \<Rightarrow> poller res" where
  "Channel_update kf p c s = Poller_updateChannel kf p (set_chan p (c\<lparr>addedToLoop := True\<rparr>) s)"

definition enableReading :: "(epoll_op \<Rightarrow> int \<Rightarrow> bool) \<Rightarrow> nat \<Rightarrow> poller \<Rightarrow> poller res" where
  "enableReading kf p s =
     bind_res (chan s p) (\<lambda>c. Channel_update kf p (c\<lparr>ch_events := or (ch_events c) ReadEvent\<rparr>) s)"

definition disableReading :: "(epoll_op \<Rightarrow> int \<Rightarrow> bool) \<Rightarrow> nat \<Rightarrow> poller \<Rightarrow> poller res" where
  "disableReading kf p s =
     bind_res (chan s p) (\<lambda>c. Channel_update kf p (c\<lparr>ch_events := and (ch_events c) (not ReadEvent)\<rparr>) s)"

definition enableWriting :: "(epoll_op \<Rightarrow> int \<Rightarrow> bool) \<Rightarrow> nat \<Rightarrow> poller \<Rightarrow> poller res" where
  "enableWriting kf p s =
     bind_res (chan s p) (\<lambda>c. Channel_update kf p (c\<lparr>ch_events := or (ch_events c) WriteEvent\<rparr>) s)"

definition disableWriting :: "(epoll_op \<Rightarrow> int \<Rightarrow> bool) \<Rightarrow> nat \<Rightarrow> poller \<Rightarrow> poller res" where
  "disableWriting kf p s =
     bind_res (chan s p) (\<lambda>c. Channel_update kf p (c\<lparr>ch_events := and (ch_events c) (not WriteEvent)\<rparr>) s)"

definition disableAll :: "(epoll_op \<Rightarrow> int \<Rightarrow> bool) \<Rightarrow> nat \<Rightarrow> poller \<Rightarrow> poller res" where
  "disableAll kf p s =
     bind_res (chan s p) (\<lambda>c. Channel_update kf p (c\<lparr>ch_events := NoneEvent\<rparr>) s)"

definition isWriting :: "channel \<Rightarrow> bool" where
  "isWriting c \<longleftrightarrow> and (ch_events c) WriteEvent \<noteq> 0"

definition isReading :: "channel \<Rightarrow> bool" where
  "isReading c \<longleftrightarrow> and (ch_events c) ReadEvent \<noteq> 0"

definition Channel_remove :: "(epoll_op \<Rightarrow> int \<Rightarrow> bool) \<Rightarrow> nat \<Rightarrow> poller \<Rightarrow> poller res" where
  "Channel_remove kf p s =
     bind_res (chan s p) (\<lambda>c. cxx_assert (isNoneEvent c)
       (Poller_removeChannel kf p (set_chan p (c\<lparr>addedToLoop := False\<rparr>) s)))"

text \<open>The destructor, run in the loop's thread.\<close>

definition Channel_dtor :: "nat \<Rightarrow> poller \<Rightarrow> poller res" where
  "Channel_dtor p s =
     bind_res (chan s p) (\<lambda>c.
       cxx_assert (\<not> event_handling c) (cxx_assert (\<not> addedToLoop c)
         (bind_res (Poller_hasChannel p s) (\<lambda>h. cxx_assert (\<not> h) (Inr (s\<lparr>chans := umap_erase p (chans s)\<rparr>))))))"

text \<open>The callbacks that \<^verbatim>\<open>handleEvent\<close> runs for a set of received flags, in order.\<close>

datatype callback = Cb_Close | Cb_Read | Cb_Write | Cb_Error

definition handleEvent :: "int \<Rightarrow> callback list" where
  "handleEvent revents =
     (if and revents POLLHUP \<noteq> 0 \<and> and revents POLLIN = 0 then [Cb_Close] else []) @
     (if and revents (or POLLIN (or POLLPRI POLLRDHUP)) \<noteq> 0 then [Cb_Read] else []) @
     (if and revents POLLOUT \<noteq> 0 then [Cb_Write] else []) @
     (if and revents (or POLLERR POLLNVAL) \<noteq> 0 then [Cb_Error] else [])"

section \<open>The three views in step\<close>

text \<open>The event masks a channel can have.\<close>

definition mask_ok :: "int \<Rightarrow> bool" where
  "mask_ok m \<longleftrightarrow> m = 0 \<or> m = 1 \<or> m = 4 \<or> m = 5"

definition chan_in_step :: "poller \<Rightarrow> nat \<Rightarrow> channel \<Rightarrow> bool" where
  "chan_in_step s p c \<longleftrightarrow> mask_ok (ch_events c) \<and>
     (ch_index c = kNew \<and> map_of (channels s) (ch_fd c) \<noteq> Some p \<or>
      ch_index c = kAdded \<and> map_of (channels s) (ch_fd c) = Some p \<and>
        map_of (interest s) (ch_fd c) = Some (ch_events c, p) \<or>
      ch_index c = kDeleted \<and> map_of (channels s) (ch_fd c) = Some p \<and>
        map_of (interest s) (ch_fd c) = None \<and> ch_events c = 0)"

text \<open>
  Every channel is in step; the poller's map and the interest list hold only channels, under their
  own descriptor.
\<close>

definition poller_inv :: "poller \<Rightarrow> bool" where
  "poller_inv s \<longleftrightarrow>
     (\<forall>p c. map_of (chans s) p = Some c \<longrightarrow> chan_in_step s p c) \<and>
     (\<forall>fd p. map_of (channels s) fd = Some p \<longrightarrow> (\<exists>c. map_of (chans s) p = Some c \<and> ch_fd c = fd)) \<and>
     (\<forall>fd e p. map_of (interest s) fd = Some (e, p) \<longrightarrow> map_of (channels s) fd = Some p)"

lemma mask_ops [simp]:
  "mask_ok 0"
  "mask_ok m \<Longrightarrow> mask_ok (or m ReadEvent)" "mask_ok m \<Longrightarrow> mask_ok (or m WriteEvent)"
  "mask_ok m \<Longrightarrow> mask_ok (and m (not ReadEvent))" "mask_ok m \<Longrightarrow> mask_ok (and m (not WriteEvent))"
  by (auto simp: mask_ok_def event_defs)

text \<open>Whether the kernel accepts a registration.\<close>

definition kernel_ok :: "(epoll_op \<Rightarrow> int \<Rightarrow> bool) \<Rightarrow> int \<Rightarrow> bool" where
  "kernel_ok kf fd \<longleftrightarrow> (\<forall>op. \<not> kf op fd)"

text \<open>A channel may be registered: it already is, or its descriptor is free.\<close>

definition can_register :: "poller \<Rightarrow> nat \<Rightarrow> channel \<Rightarrow> bool" where
  "can_register s p c \<longleftrightarrow> (ch_index c = kNew \<longrightarrow> map_of (channels s) (ch_fd c) = None)"

text \<open>The channel after an update to the mask \<open>m\<close>.\<close>

definition updated :: "channel \<Rightarrow> int \<Rightarrow> channel" where
  "updated c m = c\<lparr>ch_events := m, addedToLoop := True,
     ch_index := (if ch_index c = kAdded \<and> m = 0 then kDeleted else kAdded)\<rparr>"

lemma in_step_cases:
  assumes "poller_inv s" "map_of (chans s) p = Some c"
  shows "ch_index c = kNew \<or> ch_index c = kAdded \<or> ch_index c = kDeleted"
    "mask_ok (ch_events c)"
    "ch_index c \<noteq> kNew \<Longrightarrow> map_of (channels s) (ch_fd c) = Some p"
    "ch_index c = kAdded \<Longrightarrow> map_of (interest s) (ch_fd c) = Some (ch_events c, p)"
    "ch_index c = kDeleted \<Longrightarrow> map_of (interest s) (ch_fd c) = None"
proof -
  have "chan_in_step s p c" using assms by (simp add: poller_inv_def)
  then show "ch_index c = kNew \<or> ch_index c = kAdded \<or> ch_index c = kDeleted" "mask_ok (ch_events c)"
    "ch_index c \<noteq> kNew \<Longrightarrow> map_of (channels s) (ch_fd c) = Some p"
    "ch_index c = kAdded \<Longrightarrow> map_of (interest s) (ch_fd c) = Some (ch_events c, p)"
    "ch_index c = kDeleted \<Longrightarrow> map_of (interest s) (ch_fd c) = None"
    by (auto simp: chan_in_step_def index_defs)
qed

lemma channels_fd:
  assumes "poller_inv s" "map_of (channels s) fd = Some p" "map_of (chans s) p = Some c"
  shows "ch_fd c = fd"
proof -
  from assms(1,2) obtain d where "map_of (chans s) p = Some d" "ch_fd d = fd" unfolding poller_inv_def by blast
  with assms(3) show ?thesis by simp
qed

lemma kNew_not_interested:
  assumes "poller_inv s" "map_of (channels s) fd = None"
  shows "map_of (interest s) fd = None"
  using assms unfolding poller_inv_def by (cases "map_of (interest s) fd") auto

lemma Channel_update_eq:
  assumes inv: "poller_inv s" and c: "map_of (chans s) p = Some c" and reg: "can_register s p c"
    and k: "kernel_ok kf (ch_fd c)"
  shows "\<exists>s'. Channel_update kf p (c\<lparr>ch_events := m\<rparr>) s = Inr s' \<and>
    map_of (chans s') = (map_of (chans s))(p \<mapsto> updated c m) \<and>
    map_of (channels s') = (map_of (channels s))(ch_fd c \<mapsto> p) \<and>
    map_of (interest s') = (map_of (interest s))(ch_fd c :=
      if ch_index c = kAdded \<and> m = 0 then None else Some (m, p)) \<and>
    events_size s' = events_size s"
proof -
  note cs = in_step_cases [OF inv c]
  have nk: "\<not> kf op (ch_fd c)" for op using k by (simp add: kernel_ok_def)
  consider "ch_index c = kNew" | "ch_index c = kDeleted" | "ch_index c = kAdded" using cs(1) by blast
  then show ?thesis
  proof cases
    case 1
    then have "map_of (channels s) (ch_fd c) = None" using reg by (simp add: can_register_def)
    with kNew_not_interested [OF inv this] 1 nk show ?thesis
      by (simp add: Channel_update_def Poller_updateChannel_def chan_def set_chan_def Let_def Poller_update_def
          epoll_ctl_def updated_def fun_eq_iff index_defs)
  next
    case 2
    with cs(3,5) nk show ?thesis
      by (simp add: Channel_update_def Poller_updateChannel_def chan_def set_chan_def Let_def Poller_update_def
          epoll_ctl_def updated_def fun_eq_iff index_defs)
  next
    case 3
    with cs(3,4) nk show ?thesis
      by (simp add: Channel_update_def Poller_updateChannel_def chan_def set_chan_def Let_def Poller_update_def
          epoll_ctl_def updated_def fun_eq_iff index_defs isNoneEvent_def NoneEvent_def)
  qed
qed

lemma poller_inv_step:
  assumes inv: "poller_inv s" and c: "map_of (chans s) p = Some c" and reg: "can_register s p c" and m: "mask_ok m"
    and ch: "map_of (chans s') = (map_of (chans s))(p \<mapsto> updated c m)"
    and cl: "map_of (channels s') = (map_of (channels s))(ch_fd c \<mapsto> p)"
    and il: "map_of (interest s') = (map_of (interest s))(ch_fd c :=
      if ch_index c = kAdded \<and> m = 0 then None else Some (m, p))"
  shows "poller_inv s'"
proof -
  have owner: "map_of (channels s) (ch_fd c) = Some p \<or> map_of (channels s) (ch_fd c) = None"
    using in_step_cases [OF inv c] reg by (auto simp: can_register_def)
  have new: "chan_in_step s' p (updated c m)"
    using m cl il by (auto simp: chan_in_step_def updated_def index_defs)
  have old: "chan_in_step s' q d" if q: "q \<noteq> p" "map_of (chans s) q = Some d" for q d
  proof (cases "ch_fd d = ch_fd c")
    case True
    from inv q(2) have "chan_in_step s q d" by (simp add: poller_inv_def)
    with owner True q(1) have "ch_index d = kNew" "mask_ok (ch_events d)"
      by (auto simp: chan_in_step_def index_defs)
    with True q(1) cl show ?thesis by (simp add: chan_in_step_def)
  next
    case False
    with inv q(2) cl il show ?thesis by (simp add: poller_inv_def chan_in_step_def)
  qed
  have "map_of (chans s') q = Some d \<Longrightarrow> chan_in_step s' q d" for q d
    using new old ch by (cases "q = p") auto
  moreover have "\<exists>d. map_of (chans s') q = Some d \<and> ch_fd d = fd" if "map_of (channels s') fd = Some q" for fd q
  proof (cases "q = p")
    case True
    have "fd = ch_fd c"
      using that True cl channels_fd [OF inv _ c, of fd] by (auto split: if_splits)
    with True ch show ?thesis by (simp add: updated_def)
  next
    case False
    with that cl have "map_of (channels s) fd = Some q" by (auto split: if_splits)
    with inv False ch show ?thesis unfolding poller_inv_def by auto
  qed
  moreover have "map_of (channels s') fd = Some q" if "map_of (interest s') fd = Some (e, q)" for fd e q
    using that cl il inv unfolding poller_inv_def by (auto split: if_splits)
  ultimately show ?thesis unfolding poller_inv_def by blast
qed

lemma Channel_update_inv:
  assumes inv: "poller_inv s" and c: "map_of (chans s) p = Some c" and reg: "can_register s p c"
    and k: "kernel_ok kf (ch_fd c)" and m: "mask_ok m"
  shows "\<exists>s'. Channel_update kf p (c\<lparr>ch_events := m\<rparr>) s = Inr s' \<and> poller_inv s' \<and>
    map_of (chans s') = (map_of (chans s))(p \<mapsto> updated c m) \<and>
    map_of (channels s') = (map_of (channels s))(ch_fd c \<mapsto> p)"
  using Channel_update_eq [OF inv c reg k, of m] poller_inv_step [OF inv c reg m] by blast

lemma Channel_remove_inv:
  assumes inv: "poller_inv s" and c: "map_of (chans s) p = Some c" and n: "isNoneEvent c" "ch_index c \<noteq> kNew"
  shows "\<exists>s'. Channel_remove kf p s = Inr s' \<and>
    map_of (chans s') = (map_of (chans s))(p \<mapsto> c\<lparr>addedToLoop := False, ch_index := kNew\<rparr>) \<and>
    map_of (channels s') = (map_of (channels s))(ch_fd c := None) \<and>
    (kernel_ok kf (ch_fd c) \<longrightarrow> map_of (interest s') = (map_of (interest s))(ch_fd c := None) \<and> poller_inv s')"
proof -
  note cs = in_step_cases [OF inv c]
  have idx: "ch_index c = kAdded \<or> ch_index c = kDeleted" using cs(1) n(2) by blast
  have owner: "map_of (channels s) (ch_fd c) = Some p" using cs(3) n(2) by blast
  let ?il = "if ch_index c = kAdded \<and> \<not> kf EPOLL_CTL_DEL (ch_fd c) then umap_erase (ch_fd c) (interest s) else interest s"
  define s' where "s' = s\<lparr>chans := umap_set p (c\<lparr>addedToLoop := False, ch_index := kNew\<rparr>)
      (umap_set p (c\<lparr>addedToLoop := False\<rparr>) (chans s)), channels := umap_erase (ch_fd c) (channels s), interest := ?il\<rparr>"
  have "Channel_remove kf p s = Inr s'"
    using idx
  proof
    assume "ch_index c = kAdded"
    with owner n(1) cs(4) c show ?thesis
      by (simp add: Channel_remove_def Poller_removeChannel_def chan_def set_chan_def Let_def Poller_update_def
          epoll_ctl_def isNoneEvent_def index_defs s'_def)
  next
    assume "ch_index c = kDeleted"
    with owner n(1) c show ?thesis
      by (simp add: Channel_remove_def Poller_removeChannel_def chan_def set_chan_def Let_def
          isNoneEvent_def index_defs s'_def)
  qed
  moreover have "kernel_ok kf (ch_fd c) \<longrightarrow> map_of (interest s') = (map_of (interest s))(ch_fd c := None)"
    using cs(5) idx by (auto simp: s'_def kernel_ok_def index_defs fun_eq_iff)
  ultimately have s': "Channel_remove kf p s = Inr s'"
    "map_of (chans s') = (map_of (chans s))(p \<mapsto> c\<lparr>addedToLoop := False, ch_index := kNew\<rparr>)"
    "map_of (channels s') = (map_of (channels s))(ch_fd c := None)"
    "kernel_ok kf (ch_fd c) \<longrightarrow> map_of (interest s') = (map_of (interest s))(ch_fd c := None)"
    by (simp_all add: s'_def)
  moreover have "poller_inv s'" if il: "map_of (interest s') = (map_of (interest s))(ch_fd c := None)"
  proof -
    have "chan_in_step s' q d" if q: "map_of (chans s') q = Some d" for q d
    proof (cases "q = p")
      case True
      with q s'(2,3) cs(2) show ?thesis by (auto simp: chan_in_step_def)
    next
      case False
      with q s'(2) have d: "map_of (chans s) q = Some d" by simp
      with inv have "chan_in_step s q d" by (simp add: poller_inv_def)
      with False owner s'(3) il show ?thesis
        by (cases "ch_fd d = ch_fd c") (auto simp: chan_in_step_def)
    qed
    moreover have "\<exists>d. map_of (chans s') q = Some d \<and> ch_fd d = fd" if q: "map_of (channels s') fd = Some q" for fd q
    proof -
      from q s'(3) have "fd \<noteq> ch_fd c" "map_of (channels s) fd = Some q" by (auto split: if_splits)
      with inv obtain d where "map_of (chans s) q = Some d" "ch_fd d = fd" unfolding poller_inv_def by blast
      with \<open>fd \<noteq> ch_fd c\<close> c s'(2) show ?thesis by (cases "q = p") auto
    qed
    moreover have "map_of (channels s') fd = Some q" if "map_of (interest s') fd = Some (e, q)" for fd e q
      using that il s'(3) inv unfolding poller_inv_def by (auto split: if_splits)
    ultimately show ?thesis unfolding poller_inv_def by blast
  qed
  ultimately show ?thesis by blast
qed

section \<open>The interface that connections use\<close>

text \<open>
  What the owner of a channel relies on: in an \<open>ok\<close> state every switch returns and changes only its
  own interest; a channel with no interest left can be removed, one with interest cannot.
\<close>

locale io_channel =
  fixes enR disR enW disW disAll rem :: "'h \<Rightarrow> 's \<Rightarrow> 's res"
    and reading writing registered ok :: "'s \<Rightarrow> 'h \<Rightarrow> bool"
  assumes enR: "ok s h \<Longrightarrow> \<exists>s'. enR h s = Inr s' \<and> ok s' h \<and> registered s' h \<and> reading s' h \<and> writing s' h = writing s h"
    and disR: "ok s h \<Longrightarrow> \<exists>s'. disR h s = Inr s' \<and> ok s' h \<and> registered s' h \<and> \<not> reading s' h \<and> writing s' h = writing s h"
    and enW: "ok s h \<Longrightarrow> \<exists>s'. enW h s = Inr s' \<and> ok s' h \<and> registered s' h \<and> writing s' h \<and> reading s' h = reading s h"
    and disW: "ok s h \<Longrightarrow> \<exists>s'. disW h s = Inr s' \<and> ok s' h \<and> registered s' h \<and> \<not> writing s' h \<and> reading s' h = reading s h"
    and disAll: "ok s h \<Longrightarrow> \<exists>s'. disAll h s = Inr s' \<and> ok s' h \<and> registered s' h \<and> \<not> reading s' h \<and> \<not> writing s' h"
    and rem: "ok s h \<Longrightarrow> registered s h \<Longrightarrow> \<not> reading s h \<Longrightarrow> \<not> writing s h \<Longrightarrow>
      \<exists>s'. rem h s = Inr s' \<and> ok s' h \<and> \<not> registered s' h \<and> \<not> reading s' h \<and> \<not> writing s' h"
    and rem_busy: "ok s h \<Longrightarrow> reading s h \<or> writing s h \<Longrightarrow> rem h s = Inl Assert_Failed"
begin

text \<open>The life of a channel: switched on, used in any way, switched off, removed, switched on again.\<close>

lemma disAll_rem:
  assumes "ok s h"
  shows "\<exists>s1 s2. disAll h s = Inr s1 \<and> rem h s1 = Inr s2 \<and> ok s2 h \<and> \<not> registered s2 h"
  using disAll [OF assms] rem by blast

lemma enR_disR:
  assumes "ok s h"
  shows "\<exists>s1 s2. enR h s = Inr s1 \<and> disR h s1 = Inr s2 \<and> ok s2 h \<and> writing s2 h = writing s h"
proof -
  obtain s1 where "enR h s = Inr s1" "ok s1 h" "writing s1 h = writing s h" using enR [OF assms] by blast
  with disR [of s1 h] show ?thesis by auto
qed

end

definition chan_is :: "(channel \<Rightarrow> bool) \<Rightarrow> poller \<Rightarrow> nat \<Rightarrow> bool" where
  "chan_is P s p = (case map_of (chans s) p of None \<Rightarrow> False | Some c \<Rightarrow> P c)"

definition poller_ok :: "(epoll_op \<Rightarrow> int \<Rightarrow> bool) \<Rightarrow> poller \<Rightarrow> nat \<Rightarrow> bool" where
  "poller_ok kf s p \<longleftrightarrow> poller_inv s \<and> chan_is (\<lambda>c. can_register s p c \<and> kernel_ok kf (ch_fd c)) s p"

lemma updated_fields [simp]:
  "ch_fd (updated c m) = ch_fd c" "ch_events (updated c m) = m" "ch_index (updated c m) \<noteq> kNew"
  by (simp_all add: updated_def index_defs)

lemma switch_ok:
  assumes ok: "poller_ok kf s p" and sw: "\<And>c. map_of (chans s) p = Some c \<Longrightarrow>
      sw s = Channel_update kf p (c\<lparr>ch_events := f (ch_events c)\<rparr>) s"
    and f: "\<And>m. mask_ok m \<Longrightarrow> mask_ok (f m)"
  shows "\<exists>s' c. sw s = Inr s' \<and> poller_ok kf s' p \<and> map_of (chans s) p = Some c \<and> mask_ok (ch_events c) \<and>
    map_of (chans s') p = Some (updated c (f (ch_events c)))"
proof -
  from ok obtain c where c: "map_of (chans s) p = Some c" "poller_inv s" "can_register s p c" "kernel_ok kf (ch_fd c)"
    by (auto simp: poller_ok_def chan_is_def split: option.splits)
  have m: "mask_ok (ch_events c)" using in_step_cases(2) [OF c(2,1)] .
  from Channel_update_inv [OF c(2,1,3,4) f [OF m]] sw [OF c(1)] obtain s' where
    "sw s = Inr s'" "poller_inv s'" "map_of (chans s') p = Some (updated c (f (ch_events c)))" by auto
  with c m show ?thesis by (auto simp: poller_ok_def chan_is_def can_register_def)
qed

lemma mask_bits:
  assumes "mask_ok m"
  shows "and (or m ReadEvent) ReadEvent \<noteq> 0" "and (or m ReadEvent) WriteEvent = and m WriteEvent"
    "and (or m WriteEvent) WriteEvent \<noteq> 0" "and (or m WriteEvent) ReadEvent = and m ReadEvent"
    "and (and m (not ReadEvent)) ReadEvent = 0" "and (and m (not ReadEvent)) WriteEvent = and m WriteEvent"
    "and (and m (not WriteEvent)) WriteEvent = 0" "and (and m (not WriteEvent)) ReadEvent = and m ReadEvent"
    "and m ReadEvent = 0 \<Longrightarrow> and m WriteEvent = 0 \<Longrightarrow> m = NoneEvent"
  using assms by (auto simp: mask_ok_def event_defs)

interpretation ep: io_channel "enableReading kf" "disableReading kf" "enableWriting kf" "disableWriting kf"
    "disableAll kf" "Channel_remove kf" "chan_is isReading" "chan_is isWriting"
    "chan_is (\<lambda>c. ch_index c \<noteq> kNew)" "poller_ok kf" for kf
proof
  fix s p assume ok: "poller_ok kf s p"
  show "\<exists>s'. enableReading kf p s = Inr s' \<and> poller_ok kf s' p \<and> chan_is (\<lambda>c. ch_index c \<noteq> kNew) s' p \<and>
      chan_is isReading s' p \<and> chan_is isWriting s' p = chan_is isWriting s p"
    using switch_ok [OF ok, of "enableReading kf p" "\<lambda>m. or m ReadEvent"]
    by (auto simp: enableReading_def chan_def chan_is_def isReading_def isWriting_def mask_bits)
  show "\<exists>s'. disableReading kf p s = Inr s' \<and> poller_ok kf s' p \<and> chan_is (\<lambda>c. ch_index c \<noteq> kNew) s' p \<and>
      \<not> chan_is isReading s' p \<and> chan_is isWriting s' p = chan_is isWriting s p"
    using switch_ok [OF ok, of "disableReading kf p" "\<lambda>m. and m (not ReadEvent)"]
    by (auto simp: disableReading_def chan_def chan_is_def isReading_def isWriting_def mask_bits)
  show "\<exists>s'. enableWriting kf p s = Inr s' \<and> poller_ok kf s' p \<and> chan_is (\<lambda>c. ch_index c \<noteq> kNew) s' p \<and>
      chan_is isWriting s' p \<and> chan_is isReading s' p = chan_is isReading s p"
    using switch_ok [OF ok, of "enableWriting kf p" "\<lambda>m. or m WriteEvent"]
    by (auto simp: enableWriting_def chan_def chan_is_def isReading_def isWriting_def mask_bits)
  show "\<exists>s'. disableWriting kf p s = Inr s' \<and> poller_ok kf s' p \<and> chan_is (\<lambda>c. ch_index c \<noteq> kNew) s' p \<and>
      \<not> chan_is isWriting s' p \<and> chan_is isReading s' p = chan_is isReading s p"
    using switch_ok [OF ok, of "disableWriting kf p" "\<lambda>m. and m (not WriteEvent)"]
    by (auto simp: disableWriting_def chan_def chan_is_def isReading_def isWriting_def mask_bits)
  show "\<exists>s'. disableAll kf p s = Inr s' \<and> poller_ok kf s' p \<and> chan_is (\<lambda>c. ch_index c \<noteq> kNew) s' p \<and>
      \<not> chan_is isReading s' p \<and> \<not> chan_is isWriting s' p"
    using switch_ok [OF ok, of "disableAll kf p" "\<lambda>m. NoneEvent"]
    by (auto simp: disableAll_def chan_def chan_is_def isReading_def isWriting_def event_defs)
next
  fix s p assume ok: "poller_ok kf s p" and r: "chan_is (\<lambda>c. ch_index c \<noteq> kNew) s p"
    and n: "\<not> chan_is isReading s p" "\<not> chan_is isWriting s p"
  from ok obtain c where c: "map_of (chans s) p = Some c" "poller_inv s" "kernel_ok kf (ch_fd c)"
    by (auto simp: poller_ok_def chan_is_def split: option.splits)
  have m: "mask_ok (ch_events c)" using in_step_cases(2) [OF c(2,1)] .
  have none: "isNoneEvent c"
    using n c(1) mask_bits(9) [OF m] by (simp add: chan_is_def isReading_def isWriting_def isNoneEvent_def)
  have idx: "ch_index c \<noteq> kNew" using r c(1) by (simp add: chan_is_def)
  from Channel_remove_inv [OF c(2,1) none idx, of kf] c(3) obtain s' where
    "Channel_remove kf p s = Inr s'" "poller_inv s'"
    "map_of (chans s') p = Some (c\<lparr>addedToLoop := False, ch_index := kNew\<rparr>)" "map_of (channels s') (ch_fd c) = None"
    by auto
  with none c(3) show "\<exists>s'. Channel_remove kf p s = Inr s' \<and> poller_ok kf s' p \<and>
      \<not> chan_is (\<lambda>c. ch_index c \<noteq> kNew) s' p \<and> \<not> chan_is isReading s' p \<and> \<not> chan_is isWriting s' p"
    by (auto simp: poller_ok_def chan_is_def can_register_def isReading_def isWriting_def isNoneEvent_def event_defs)
next
  fix s p assume "poller_ok kf s p" "chan_is isReading s p \<or> chan_is isWriting s p"
  then show "Channel_remove kf p s = Inl Assert_Failed"
    by (auto simp: poller_ok_def chan_is_def Channel_remove_def chan_def isNoneEvent_def isReading_def isWriting_def
        event_defs cxx_assert_def split: option.splits)
qed

section \<open>Polling\<close>

lemma poller_inv_revents:
  assumes "poller_inv s" "map_of (chans s) p = Some c"
  shows "poller_inv (set_chan p (c\<lparr>ch_revents := fl\<rparr>) s)"
proof -
  let ?s = "set_chan p (c\<lparr>ch_revents := fl\<rparr>) s"
  have step: "chan_in_step ?s q d" if "map_of (chans ?s) q = Some d" for q d
  proof (cases "q = p")
    case True
    with that have "d = c\<lparr>ch_revents := fl\<rparr>" by (simp add: set_chan_def)
    moreover have "chan_in_step s p c" using assms by (simp add: poller_inv_def)
    ultimately show ?thesis using True by (simp add: chan_in_step_def set_chan_def)
  next
    case False
    with that assms(1) have "chan_in_step s q d" by (simp add: poller_inv_def set_chan_def)
    then show ?thesis by (simp add: chan_in_step_def set_chan_def)
  qed
  have "\<exists>d. map_of (chans ?s) q = Some d \<and> ch_fd d = fd" if "map_of (channels ?s) fd = Some q" for fd q
    using that assms channels_fd [OF assms(1) _ assms(2), of fd]
    by (cases "q = p") (auto simp: poller_inv_def set_chan_def)
  with step assms(1) show ?thesis by (auto simp: poller_inv_def set_chan_def)
qed

lemma fillActiveChannels_ok:
  assumes "poller_inv s" and "\<forall>(fl, p) \<in> set evs. \<exists>fd e. map_of (interest s) fd = Some (e, p)"
  shows "\<exists>s'. fillActiveChannels evs s = Inr (map snd evs, s') \<and> poller_inv s' \<and>
    events_size s' = events_size s \<and> interest s' = interest s \<and> channels s' = channels s"
  using assms
proof (induction evs arbitrary: s)
  case (Cons ev evs)
  obtain fl p where ev: "ev = (fl, p)" by (cases ev)
  with Cons.prems(2) obtain fd e where "map_of (interest s) fd = Some (e, p)" by auto
  with Cons.prems(1) have cl: "map_of (channels s) fd = Some p" unfolding poller_inv_def by blast
  with Cons.prems(1) obtain c where c: "map_of (chans s) p = Some c" "ch_fd c = fd" unfolding poller_inv_def by blast
  let ?s = "set_chan p (c\<lparr>ch_revents := fl\<rparr>) s"
  have "poller_inv ?s" by (rule poller_inv_revents [OF Cons.prems(1) c(1)])
  from Cons.IH [OF this] Cons.prems(2) obtain s' where "fillActiveChannels evs ?s = Inr (map snd evs, s')" "poller_inv s'"
    "events_size s' = events_size s" "interest s' = interest s" "channels s' = channels s"
    by (auto simp: set_chan_def)
  with ev c cl show ?case by (simp add: chan_def)
qed simp

section \<open>Reachable pollers\<close>

text \<open>One step: a channel is made for some descriptor, switched, removed or destroyed, or events are polled.\<close>

inductive poller_step :: "(epoll_op \<Rightarrow> int \<Rightarrow> bool) \<Rightarrow> poller \<Rightarrow> poller \<Rightarrow> bool" for kf where
  create: "map_of (chans s) p = None \<Longrightarrow> poller_step kf s (set_chan p (Channel_ctor fd) s)"
| switch: "op \<in> {enableReading kf p, disableReading kf p, enableWriting kf p, disableWriting kf p, disableAll kf p} \<Longrightarrow>
    poller_ok kf s p \<Longrightarrow> op s = Inr s' \<Longrightarrow> poller_step kf s s'"
| remove: "poller_ok kf s p \<Longrightarrow> Channel_remove kf p s = Inr s' \<Longrightarrow> poller_step kf s s'"
| destroy: "Channel_dtor p s = Inr s' \<Longrightarrow> poller_step kf s s'"
| poll: "\<forall>(fl, p) \<in> set evs. \<exists>fd e. map_of (interest s) fd = Some (e, p) \<Longrightarrow>
    Poller_poll (Some evs) s = Inr (ps, s') \<Longrightarrow> poller_step kf s s'"

inductive_cases poller_stepE: "poller_step kf s s'"

inductive poller_reach :: "(epoll_op \<Rightarrow> int \<Rightarrow> bool) \<Rightarrow> poller \<Rightarrow> bool" for kf where
  start: "Poller_ctor epollfd = Inr s \<Longrightarrow> poller_reach kf s"
| step: "poller_reach kf s \<Longrightarrow> poller_step kf s s' \<Longrightarrow> poller_reach kf s'"

lemma poller_inv_create:
  assumes "poller_inv s" "map_of (chans s) p = None"
  shows "poller_inv (set_chan p (Channel_ctor fd) s)"
proof -
  have "map_of (channels s) fd \<noteq> Some p" for fd
    using assms unfolding poller_inv_def by (metis option.distinct(1))
  with assms show ?thesis
    by (auto simp: poller_inv_def set_chan_def chan_in_step_def Channel_ctor_def index_defs)
qed

lemma poller_inv_destroy:
  assumes inv: "poller_inv s" and d: "Channel_dtor p s = Inr s'"
  shows "poller_inv s'"
proof -
  from d obtain c where c: "map_of (chans s) p = Some c" "map_of (channels s) (ch_fd c) \<noteq> Some p"
    and s': "s' = s\<lparr>chans := umap_erase p (chans s)\<rparr>"
    by (auto simp: Channel_dtor_def Poller_hasChannel_def chan_def res_simps split: option.splits)
  have "map_of (channels s) fd \<noteq> Some p" for fd
    using channels_fd [OF inv _ c(1), of fd] c(2) by auto
  with inv s' show ?thesis
    unfolding poller_inv_def by (auto simp: chan_in_step_def)
qed

lemma poller_inv_events_size [simp]: "poller_inv (s\<lparr>events_size := n\<rparr>) = poller_inv s"
  by (simp add: poller_inv_def chan_in_step_def)

lemma poller_step_inv: "poller_step kf s s' \<Longrightarrow> poller_inv s \<Longrightarrow> poller_inv s'"
proof (induction rule: poller_step.induct)
  case (create s p fd)
  then show ?case by (simp add: poller_inv_create)
next
  case (switch op p s s')
  have "\<exists>t. op s = Inr t \<and> poller_ok kf t p"
    using switch.hyps(1) ep.enR [OF switch.hyps(2)] ep.disR [OF switch.hyps(2)] ep.enW [OF switch.hyps(2)]
      ep.disW [OF switch.hyps(2)] ep.disAll [OF switch.hyps(2)] by blast
  with switch.hyps(3) show ?case by (auto simp: poller_ok_def)
next
  case (remove s p s')
  have "\<not> chan_is isReading s p" "\<not> chan_is isWriting s p"
    using ep.rem_busy [OF remove(1)] remove(2) by auto
  moreover have "chan_is (\<lambda>c. ch_index c \<noteq> kNew) s p"
    using remove(2) by (auto simp: Channel_remove_def Poller_removeChannel_def chan_def set_chan_def chan_is_def
        Let_def res_simps index_defs split: option.splits)
  ultimately show ?case using ep.rem [OF remove(1)] remove(2) by (auto simp: poller_ok_def)
next
  case (destroy p s s')
  then show ?case by (blast intro: poller_inv_destroy)
next
  case (poll evs s ps s')
  show ?case
  proof (cases "evs = []")
    case True
    with poll show ?thesis by (simp add: Poller_poll_def)
  next
    case False
    obtain t where "fillActiveChannels evs s = Inr (map snd evs, t)" "poller_inv t"
      using fillActiveChannels_ok [OF poll.prems poll.hyps(1)] by blast
    with False poll.hyps(2) show ?thesis by (auto simp: Poller_poll_def res_simps)
  qed
qed

lemma Poller_ctor_inv: "Poller_ctor epollfd = Inr s \<Longrightarrow> poller_inv s"
  by (auto simp: Poller_ctor_def poller_inv_def split: if_splits)

lemma poller_reach_inv: "poller_reach kf s \<Longrightarrow> poller_inv s"
  by (induction rule: poller_reach.induct) (auto intro: poller_step_inv Poller_ctor_inv)

section \<open>Properties\<close>

text \<open>
  C8. The kernel polls exactly what the channels ask for: in every reachable state, a channel is in
  the interest list if and only if its index says it was added, with the events it has enabled and
  its own address as user data, and no entry of the list belongs to anything else. In particular
  events that the kernel reports never point to a channel that is gone.
\<close>

theorem interest_list_in_step:
  assumes "poller_reach kf s"
  shows "(\<forall>p c. map_of (chans s) p = Some c \<longrightarrow>
      (ch_index c = kAdded \<longleftrightarrow> map_of (interest s) (ch_fd c) = Some (ch_events c, p)) \<and>
      (ch_index c \<noteq> kNew \<longleftrightarrow> map_of (channels s) (ch_fd c) = Some p)) \<and>
    (\<forall>fd e p. map_of (interest s) fd = Some (e, p) \<longrightarrow>
      (\<exists>c. map_of (chans s) p = Some c \<and> ch_fd c = fd \<and> ch_events c = e \<and> ch_index c = kAdded))"
proof -
  have inv: "poller_inv s" using poller_reach_inv [OF assms] .
  have a: "(ch_index c = kAdded \<longleftrightarrow> map_of (interest s) (ch_fd c) = Some (ch_events c, p)) \<and>
      (ch_index c \<noteq> kNew \<longleftrightarrow> map_of (channels s) (ch_fd c) = Some p)" if "map_of (chans s) p = Some c" for p c
  proof -
    have st: "chan_in_step s p c" using inv that by (simp add: poller_inv_def)
    moreover have "map_of (channels s) (ch_fd c) = Some p" if "map_of (interest s) (ch_fd c) = Some (ch_events c, p)"
      using inv that unfolding poller_inv_def by blast
    ultimately show ?thesis by (auto simp: chan_in_step_def index_defs)
  qed
  have b: "\<exists>c. map_of (chans s) p = Some c \<and> ch_fd c = fd \<and> ch_events c = e \<and> ch_index c = kAdded"
    if i: "map_of (interest s) fd = Some (e, p)" for fd e p
  proof -
    from inv i have cl: "map_of (channels s) fd = Some p" unfolding poller_inv_def by blast
    with inv obtain c where c: "map_of (chans s) p = Some c" "ch_fd c = fd" unfolding poller_inv_def by blast
    with cl a [OF c(1)] have "ch_index c \<noteq> kNew" by simp
    moreover have "chan_in_step s p c" using inv c(1) by (simp add: poller_inv_def)
    ultimately show ?thesis using c i by (auto simp: chan_in_step_def)
  qed
  from a b show ?thesis by blast
qed

definition demo_poller :: poller where
  "demo_poller = \<lparr>chans = [(7, Channel_ctor 5)], channels = [], events_size = 16, interest = []\<rparr>"

definition no_fault :: "epoll_op \<Rightarrow> int \<Rightarrow> bool" where
  "no_fault op fd = False"

lemma demo_poller_reach: "poller_reach no_fault demo_poller"
proof -
  have "poller_reach no_fault \<lparr>chans = [], channels = [], events_size = 16, interest = []\<rparr>"
    by (rule poller_reach.start [of 3]) (simp add: Poller_ctor_def kInitEventListSize_def)
  from poller_reach.step [OF this poller_step.create [of _ 7 _ 5]] show ?thesis
    by (simp add: demo_poller_def set_chan_def)
qed

lemma demo_poller_ok: "poller_ok no_fault demo_poller 7"
  using poller_reach_inv [OF demo_poller_reach]
  by (simp add: poller_ok_def chan_is_def demo_poller_def can_register_def Channel_ctor_def kernel_ok_def no_fault_def)

theorem interest_list_in_step_witness:
  "\<exists>s. enableReading no_fault 7 demo_poller = Inr s \<and> map_of (interest s) 5 = Some (1, 7)"
proof -
  obtain s where s: "enableReading no_fault 7 demo_poller = Inr s" using ep.enR [OF demo_poller_ok] by blast
  then have "poller_step no_fault demo_poller s" by (intro poller_step.switch [of "enableReading no_fault 7", OF _ demo_poller_ok]) simp_all
  with demo_poller_reach have "poller_reach no_fault s" by (rule poller_reach.step)
  moreover have "map_of (chans s) 7 = Some (updated (Channel_ctor 5) 1)"
    using s by (simp add: enableReading_def chan_def demo_poller_def Channel_update_def Poller_updateChannel_def
        set_chan_def Channel_ctor_def Let_def index_defs Poller_update_def epoll_ctl_def no_fault_def updated_def
        event_defs) (auto simp: index_defs)
  ultimately have "ch_index (updated (Channel_ctor 5) 1) = kAdded \<longleftrightarrow>
      map_of (interest s) (ch_fd (updated (Channel_ctor 5) 1)) = Some (ch_events (updated (Channel_ctor 5) 1), 7)"
    using interest_list_in_step [of no_fault s] by blast
  with s show ?thesis by (simp add: updated_def Channel_ctor_def index_defs)
qed

text \<open>
  Polling never fails an assertion on events of registered channels: the active channels are
  those the kernel reported, in order, and the event array grows when it was full.
\<close>

theorem poll_delivers:
  assumes "poller_reach kf s" and "\<forall>(fl, p) \<in> set evs. \<exists>fd e. map_of (interest s) fd = Some (e, p)"
    and "length evs \<le> events_size s"
  shows "\<exists>s'. Poller_poll (Some evs) s = Inr (map snd evs, s') \<and>
    events_size s' = (if evs \<noteq> [] \<and> length evs = events_size s then 2 * events_size s else events_size s)"
  using fillActiveChannels_ok [OF poller_reach_inv [OF assms(1)] assms(2)] assms(3)
  by (auto simp: Poller_poll_def)

theorem poll_delivers_witness:
  "\<exists>s'. Poller_poll (Some []) demo_poller = Inr ([], s')"
  using poll_delivers [OF demo_poller_reach, of "[]"] by auto

text \<open>
  Switching everything off twice puts the channel back into the kernel's interest list with an
  empty event set: an update of a channel marked as deleted always adds it, even when no event is
  wanted. The kernel still reports hang-ups and errors for it.
\<close>

theorem disableAll_twice_readds:
  assumes "poller_ok kf s p" and "map_of (chans s) p = Some c" and "ch_index c = kAdded"
  shows "\<exists>s1 s2. disableAll kf p s = Inr s1 \<and> map_of (interest s1) (ch_fd c) = None \<and>
    disableAll kf p s1 = Inr s2 \<and> map_of (interest s2) (ch_fd c) = Some (0, p)"
proof -
  have inv: "poller_inv s" and reg: "can_register s p c" and k: "kernel_ok kf (ch_fd c)"
    using assms(1,2) by (auto simp: poller_ok_def chan_is_def)
  from Channel_update_eq [OF inv assms(2) reg k, of 0] assms(3) obtain s1 where
    s1: "Channel_update kf p (c\<lparr>ch_events := 0\<rparr>) s = Inr s1" "map_of (chans s1) p = Some (updated c 0)"
    "map_of (interest s1) (ch_fd c) = None" by auto
  have d1: "disableAll kf p s = Inr s1" using s1(1) assms(2) by (simp add: disableAll_def chan_def NoneEvent_def)
  have "poller_ok kf s1 p" using ep.disAll [OF assms(1)] d1 by auto
  then have inv1: "poller_inv s1" and reg1: "can_register s1 p (updated c 0)"
    using s1(2) by (auto simp: poller_ok_def chan_is_def)
  have "ch_index (updated c 0) = kDeleted" using assms(3) by (simp add: updated_def)
  with Channel_update_eq [OF inv1 s1(2) reg1, of kf 0] k obtain s2 where
    "Channel_update kf p ((updated c 0)\<lparr>ch_events := 0\<rparr>) s1 = Inr s2" "map_of (interest s2) (ch_fd c) = Some (0, p)"
    by (auto simp: index_defs)
  moreover from this(1) s1(2) have "disableAll kf p s1 = Inr s2" by (simp add: disableAll_def chan_def NoneEvent_def)
  ultimately show ?thesis using d1 s1(3) by blast
qed

definition demo_added :: poller where
  "demo_added = demo_poller\<lparr>chans := [(7, (Channel_ctor 5)\<lparr>ch_events := 1, ch_index := 1, addedToLoop := True\<rparr>)],
     channels := [(5, 7)], interest := [(5, (1, 7))]\<rparr>"

theorem disableAll_twice_readds_witness:
  "\<exists>s1 s2. disableAll no_fault 7 demo_added = Inr s1 \<and> disableAll no_fault 7 s1 = Inr s2 \<and>
     map_of (interest s2) 5 = Some (0, 7)"
proof -
  have "poller_ok no_fault demo_added 7"
    by (auto simp: poller_ok_def chan_is_def demo_added_def demo_poller_def can_register_def kernel_ok_def no_fault_def
        poller_inv_def chan_in_step_def Channel_ctor_def index_defs mask_ok_def split: if_splits)
  from disableAll_twice_readds [OF this] show ?thesis
    by (simp add: demo_added_def index_defs Channel_ctor_def) blast
qed

end
