(* ===== verification/NetEventLoop.thy ===== *)
theory NetEventLoop
  imports NetPoller
begin

text \<open>
  The reactor (\<^verbatim>\<open>network/EventLoop\<close>). The first part translates the operations as they run in one
  thread: an iteration polls, handles the active channels and runs the pending functors. What a
  functor or a channel's handler does to the loop is its effect: the functors it queues and whether
  it calls \<^verbatim>\<open>quit\<close>. The second part is the loop together with other threads that call \<^verbatim>\<open>queueInLoop\<close> and
  \<^verbatim>\<open>quit\<close>, as a step relation whose steps are the code's atomic actions (the locked push, the write to
  the event descriptor, the locked swap); its invariant is that no wake-up is lost.
\<close>

section \<open>State\<close>

text \<open>The functors queued and the \<^verbatim>\<open>quit\<close> calls that running something causes.\<close>

record 'f effect =
  queues :: "'f list"
  quits :: bool

record 'f EventLoop =
  looping :: bool
  quit_flag :: bool
  eventHandling :: bool
  callingPendingFunctors :: bool
  iteration :: nat
  loop_poller :: poller
  wakeups :: nat
  wakeupChannel :: nat
  activeChannels :: "nat list"
  currentActiveChannel :: "nat option"
  pendingFunctors :: "'f list"

definition kPollTimeMs :: int where
  "kPollTimeMs = 10000"

text \<open>
  The constructor: \<open>fd\<close> is what \<^verbatim>\<open>eventfd\<close> returned, \<open>p\<close> the address of the new wake-up channel, \<open>other\<close>
  whether the thread already has a loop.
\<close>

definition EventLoop_ctor ::
    "(epoll_op \<Rightarrow> int \<Rightarrow> bool) \<Rightarrow> int \<Rightarrow> int \<Rightarrow> nat \<Rightarrow> bool \<Rightarrow> 'f EventLoop res" where
  "EventLoop_ctor kf epollfd evtfd p other =
     bind_res (Poller_ctor epollfd) (\<lambda>po.
       if evtfd < 0 then Inl Terminate
       else if other then Inl Fatal_Log
       else bind_res (enableReading kf p (set_chan p (Channel_ctor evtfd) po)) (\<lambda>po'.
         Inr \<lparr>looping = False, quit_flag = False, eventHandling = False, callingPendingFunctors = False,
              iteration = 0, loop_poller = po', wakeups = 0, wakeupChannel = p, activeChannels = [],
              currentActiveChannel = None, pendingFunctors = []\<rparr>))"

definition EventLoop_dtor :: "(epoll_op \<Rightarrow> int \<Rightarrow> bool) \<Rightarrow> 'f EventLoop \<Rightarrow> 'f EventLoop res" where
  "EventLoop_dtor kf l =
     bind_res (disableAll kf (wakeupChannel l) (loop_poller l)) (\<lambda>po.
     bind_res (Channel_remove kf (wakeupChannel l) po) (\<lambda>po'. Inr (l\<lparr>loop_poller := po'\<rparr>)))"

section \<open>Operations\<close>

text \<open>
  The event descriptor is a counter: a write adds one unless it is at its maximum (then the write
  fails and is only logged), a read resets it.
\<close>

definition eventfd_max :: nat where
  "eventfd_max = 18446744073709551614"

definition wakeup :: "'f EventLoop \<Rightarrow> 'f EventLoop" where
  "wakeup l = (if wakeups l < eventfd_max then l\<lparr>wakeups := wakeups l + 1\<rparr> else l)"

definition handleRead_wakeup :: "'f EventLoop \<Rightarrow> 'f EventLoop" where
  "handleRead_wakeup l = l\<lparr>wakeups := 0\<rparr>"

definition quit :: "bool \<Rightarrow> 'f EventLoop \<Rightarrow> 'f EventLoop" where
  "quit inLoopThread l = (let l1 = l\<lparr>quit_flag := True\<rparr> in if \<not> inLoopThread then wakeup l1 else l1)"

definition queueInLoop :: "bool \<Rightarrow> 'f \<Rightarrow> 'f EventLoop \<Rightarrow> 'f EventLoop" where
  "queueInLoop inLoopThread cb l =
     (let l1 = l\<lparr>pendingFunctors := pendingFunctors l @ [cb]\<rparr>
      in if \<not> inLoopThread \<or> callingPendingFunctors l1 then wakeup l1 else l1)"

definition queueSize :: "'f EventLoop \<Rightarrow> nat" where
  "queueSize l = length (pendingFunctors l)"

text \<open>What a callback does when it runs in the loop's thread.\<close>

definition apply_effect :: "'f effect \<Rightarrow> 'f EventLoop \<Rightarrow> 'f EventLoop" where
  "apply_effect e l =
     (let l1 = fold (queueInLoop True) (queues e) l in if quits e then quit True l1 else l1)"

definition runInLoop :: "('f \<Rightarrow> 'f effect) \<Rightarrow> bool \<Rightarrow> 'f \<Rightarrow> 'f EventLoop \<Rightarrow> 'f EventLoop" where
  "runInLoop exec inLoopThread cb l =
     (if inLoopThread then apply_effect (exec cb) l else queueInLoop False cb l)"

definition updateChannel :: "(epoll_op \<Rightarrow> int \<Rightarrow> bool) \<Rightarrow> nat \<Rightarrow> 'f EventLoop \<Rightarrow> 'f EventLoop res" where
  "updateChannel kf p l = bind_res (Poller_updateChannel kf p (loop_poller l)) (\<lambda>po. Inr (l\<lparr>loop_poller := po\<rparr>))"

definition removeChannel :: "(epoll_op \<Rightarrow> int \<Rightarrow> bool) \<Rightarrow> nat \<Rightarrow> 'f EventLoop \<Rightarrow> 'f EventLoop res" where
  "removeChannel kf p l =
     cxx_assert (eventHandling l \<longrightarrow> currentActiveChannel l = Some p \<or> p \<notin> set (activeChannels l))
       (bind_res (Poller_removeChannel kf p (loop_poller l)) (\<lambda>po. Inr (l\<lparr>loop_poller := po\<rparr>)))"

definition hasChannel :: "nat \<Rightarrow> 'f EventLoop \<Rightarrow> bool res" where
  "hasChannel p l = Poller_hasChannel p (loop_poller l)"

text \<open>The functors swapped out, run in order.\<close>

fun run_functors :: "('f \<Rightarrow> 'f effect) \<Rightarrow> 'f list \<Rightarrow> 'f EventLoop \<Rightarrow> 'f EventLoop" where
  "run_functors exec [] l = l"
| "run_functors exec (f # fs) l = run_functors exec fs (apply_effect (exec f) l)"

definition doPendingFunctors :: "('f \<Rightarrow> 'f effect) \<Rightarrow> 'f EventLoop \<Rightarrow> 'f list \<times> 'f EventLoop" where
  "doPendingFunctors exec l =
     (let l1 = l\<lparr>callingPendingFunctors := True\<rparr>;
          functors = pendingFunctors l1;
          l2 = l1\<lparr>pendingFunctors := []\<rparr>;
          l3 = run_functors exec functors l2
      in (functors, l3\<lparr>callingPendingFunctors := False\<rparr>))"

text \<open>Handling the active channels; the wake-up channel's handler empties the event descriptor.\<close>

fun handle_active :: "(nat \<Rightarrow> 'f effect) \<Rightarrow> nat list \<Rightarrow> 'f EventLoop \<Rightarrow> 'f EventLoop" where
  "handle_active handle [] l = l"
| "handle_active handle (p # ps) l =
     (let l1 = l\<lparr>currentActiveChannel := Some p\<rparr>
      in handle_active handle ps
           (if p = wakeupChannel l1 then handleRead_wakeup l1 else apply_effect (handle p) l1))"

definition loop_body ::
    "('f \<Rightarrow> 'f effect) \<Rightarrow> (nat \<Rightarrow> 'f effect) \<Rightarrow> (int \<times> nat) list option \<Rightarrow> 'f EventLoop \<Rightarrow>
     ('f list \<times> 'f EventLoop) res" where
  "loop_body exec handle evs l =
     bind_res (Poller_poll evs (loop_poller l)) (\<lambda>(active, po).
       let l1 = l\<lparr>activeChannels := active, loop_poller := po, iteration := iteration l + 1, eventHandling := True\<rparr>;
           l2 = handle_active handle active l1;
           l3 = l2\<lparr>currentActiveChannel := None, eventHandling := False\<rparr>
       in Inr (doPendingFunctors exec l3))"

text \<open>\<^verbatim>\<open>loop()\<close> over the results of successive polls, until \<^verbatim>\<open>quit_\<close> is set; the functors run, in order.\<close>

fun loop_while ::
    "('f \<Rightarrow> 'f effect) \<Rightarrow> (nat \<Rightarrow> 'f effect) \<Rightarrow> (int \<times> nat) list option list \<Rightarrow> 'f EventLoop \<Rightarrow>
     ('f list \<times> 'f EventLoop) res" where
  "loop_while exec handle [] l = Inr ([], l)"
| "loop_while exec handle (evs # rest) l =
     (if quit_flag l then Inr ([], l\<lparr>looping := False\<rparr>)
      else bind_res (loop_body exec handle evs l) (\<lambda>(fs, l1).
             bind_res (loop_while exec handle rest l1) (\<lambda>(gs, l2). Inr (fs @ gs, l2))))"

definition loop ::
    "('f \<Rightarrow> 'f effect) \<Rightarrow> (nat \<Rightarrow> 'f effect) \<Rightarrow> (int \<times> nat) list option list \<Rightarrow> 'f EventLoop \<Rightarrow>
     ('f list \<times> 'f EventLoop) res" where
  "loop exec handle polls l =
     cxx_assert (\<not> looping l) (loop_while exec handle polls (l\<lparr>looping := True, quit_flag := False\<rparr>))"

section \<open>Functors run in order, each once\<close>

lemma queueInLoop_pending [simp]: "pendingFunctors (queueInLoop b cb l) = pendingFunctors l @ [cb]"
  by (simp add: queueInLoop_def wakeup_def Let_def)

lemma fold_queue_pending [simp]:
  "pendingFunctors (fold (queueInLoop b) cbs l) = pendingFunctors l @ cbs"
  by (induction cbs arbitrary: l) simp_all

lemma apply_effect_pending [simp]: "pendingFunctors (apply_effect e l) = pendingFunctors l @ queues e"
  by (simp add: apply_effect_def quit_def Let_def)

lemma run_functors_pending [simp]:
  "pendingFunctors (run_functors exec fs l) = pendingFunctors l @ concat (map (\<lambda>f. queues (exec f)) fs)"
  by (induction fs arbitrary: l) simp_all

lemma doPendingFunctors_eq:
  "fst (doPendingFunctors exec l) = pendingFunctors l"
  "pendingFunctors (snd (doPendingFunctors exec l)) = concat (map (\<lambda>f. queues (exec f)) (pendingFunctors l))"
  by (simp_all add: doPendingFunctors_def Let_def)

text \<open>What the handlers of a round of active channels queue.\<close>

fun handled :: "(nat \<Rightarrow> 'f effect) \<Rightarrow> nat \<Rightarrow> nat list \<Rightarrow> 'f list" where
  "handled handle w [] = []"
| "handled handle w (p # ps) = (if p = w then [] else queues (handle p)) @ handled handle w ps"

lemma queueInLoop_wakeupChannel [simp]: "wakeupChannel (queueInLoop b cb l) = wakeupChannel l"
  by (simp add: queueInLoop_def wakeup_def Let_def)

lemma fold_queue_wakeupChannel [simp]: "wakeupChannel (fold (queueInLoop b) cbs l) = wakeupChannel l"
  by (induction cbs arbitrary: l) simp_all

lemma apply_effect_wakeupChannel [simp]: "wakeupChannel (apply_effect e l) = wakeupChannel l"
  by (simp add: apply_effect_def quit_def Let_def)

lemma run_functors_wakeupChannel [simp]: "wakeupChannel (run_functors exec fs l) = wakeupChannel l"
  by (induction fs arbitrary: l) simp_all

lemma handle_active_pending:
  "pendingFunctors (handle_active handle ps l) = pendingFunctors l @ handled handle (wakeupChannel l) ps \<and>
   wakeupChannel (handle_active handle ps l) = wakeupChannel l"
  by (induction ps arbitrary: l) (auto simp: Let_def handleRead_wakeup_def)

text \<open>
  One iteration runs exactly the functors that were pending when the channels had been handled, in
  the order they were queued, and leaves the ones they queued themselves for the next iteration.
\<close>

lemma loop_body_functors:
  assumes "loop_body exec handle evs l = Inr (fs, l')"
  shows "\<exists>active. fs = pendingFunctors l @ handled handle (wakeupChannel l) active \<and>
    pendingFunctors l' = concat (map (\<lambda>f. queues (exec f)) fs) \<and> wakeupChannel l' = wakeupChannel l"
proof -
  from assms obtain active po where
    "doPendingFunctors exec ((handle_active handle active
        (l\<lparr>activeChannels := active, loop_poller := po, iteration := iteration l + 1, eventHandling := True\<rparr>))
        \<lparr>currentActiveChannel := None, eventHandling := False\<rparr>) = (fs, l')"
    by (auto simp: loop_body_def Let_def res_simps)
  then have "fs = pendingFunctors l @ handled handle (wakeupChannel l) active"
    "pendingFunctors l' = concat (map (\<lambda>f. queues (exec f)) fs)" "wakeupChannel l' = wakeupChannel l"
    using handle_active_pending [of handle active
        "l\<lparr>activeChannels := active, loop_poller := po, iteration := iteration l + 1, eventHandling := True\<rparr>"]
    by (auto simp: doPendingFunctors_def Let_def)
  then show ?thesis by blast
qed

section \<open>The loop and other threads\<close>

text \<open>
  The places in \<^verbatim>\<open>loop()\<close> between atomic actions: about to poll or blocked in it, handling channels,
  about to swap, running the functors taken out, testing \<^verbatim>\<open>quit_\<close>, returned.
\<close>

datatype 'f pc = At_Poll | At_Handle | At_Swap | At_Run "'f list" | At_Test | At_Exit

text \<open>
  The shared state: the pending functors, the event descriptor's counter and the quit flag; how many
  other threads are between the push (or the store to \<^verbatim>\<open>quit_\<close>) and their call of \<^verbatim>\<open>wakeup\<close>; and, as
  history, everything ever queued and everything run.
\<close>

record 'f shared =
  pc :: "'f pc"
  pending :: "'f list"
  counter :: nat
  quitting :: bool
  pushed :: nat
  stored :: nat
  queued_log :: "'f list"
  run_log :: "'f list"

inductive loop_step :: "('f \<Rightarrow> 'f effect) \<Rightarrow> 'f shared \<Rightarrow> 'f shared \<Rightarrow> bool" for exec where
  other_push: "loop_step exec s (s\<lparr>pending := pending s @ [f], queued_log := queued_log s @ [f], pushed := pushed s + 1\<rparr>)"
| other_push_wakeup: "pushed s > 0 \<Longrightarrow> counter s < eventfd_max \<Longrightarrow>
    loop_step exec s (s\<lparr>pushed := pushed s - 1, counter := counter s + 1\<rparr>)"
| other_push_full: "pushed s > 0 \<Longrightarrow> counter s \<ge> eventfd_max \<Longrightarrow> loop_step exec s (s\<lparr>pushed := pushed s - 1\<rparr>)"
| other_quit: "loop_step exec s (s\<lparr>quitting := True, stored := stored s + 1\<rparr>)"
| other_quit_wakeup: "stored s > 0 \<Longrightarrow> counter s < eventfd_max \<Longrightarrow>
    loop_step exec s (s\<lparr>stored := stored s - 1, counter := counter s + 1\<rparr>)"
| other_quit_full: "stored s > 0 \<Longrightarrow> counter s \<ge> eventfd_max \<Longrightarrow> loop_step exec s (s\<lparr>stored := stored s - 1\<rparr>)"
| poll_returns: "pc s = At_Poll \<Longrightarrow> loop_step exec s (s\<lparr>pc := At_Handle\<rparr>)"
| handle_wakeup: "pc s = At_Handle \<Longrightarrow> loop_step exec s (s\<lparr>counter := 0\<rparr>)"
| handle_queues: "pc s = At_Handle \<Longrightarrow>
    loop_step exec s (s\<lparr>pending := pending s @ [f], queued_log := queued_log s @ [f]\<rparr>)"
| handle_quits: "pc s = At_Handle \<Longrightarrow> loop_step exec s (s\<lparr>quitting := True\<rparr>)"
| handle_done: "pc s = At_Handle \<Longrightarrow> loop_step exec s (s\<lparr>pc := At_Swap\<rparr>)"
| swap: "pc s = At_Swap \<Longrightarrow> loop_step exec s (s\<lparr>pc := At_Run (pending s), pending := []\<rparr>)"
| run: "pc s = At_Run (f # fs) \<Longrightarrow>
    loop_step exec s (s\<lparr>pc := At_Run fs, run_log := run_log s @ [f],
      pending := pending s @ queues (exec f), queued_log := queued_log s @ queues (exec f),
      counter := min eventfd_max (counter s + length (queues (exec f))), quitting := (quitting s \<or> quits (exec f))\<rparr>)"
| run_done: "pc s = At_Run [] \<Longrightarrow> loop_step exec s (s\<lparr>pc := At_Test\<rparr>)"
| test_again: "pc s = At_Test \<Longrightarrow> \<not> quitting s \<Longrightarrow> loop_step exec s (s\<lparr>pc := At_Poll\<rparr>)"
| test_exit: "pc s = At_Test \<Longrightarrow> quitting s \<Longrightarrow> loop_step exec s (s\<lparr>pc := At_Exit\<rparr>)"

inductive_cases loop_stepE: "loop_step exec s s'"

definition loop_start :: "'f shared" where
  "loop_start = \<lparr>pc = At_Poll, pending = [], counter = 0, quitting = False, pushed = 0, stored = 0,
     queued_log = [], run_log = []\<rparr>"

inductive loop_reach :: "('f \<Rightarrow> 'f effect) \<Rightarrow> 'f shared \<Rightarrow> bool" for exec where
  start: "loop_reach exec loop_start"
| step: "loop_reach exec s \<Longrightarrow> loop_step exec s s' \<Longrightarrow> loop_reach exec s'"

text \<open>The functors taken out of the queue and not yet run.\<close>

definition taken :: "'f shared \<Rightarrow> 'f list" where
  "taken s = (case pc s of At_Run fs \<Rightarrow> fs | _ \<Rightarrow> [])"

text \<open>Past the swap and before the handlers of the next round.\<close>

definition past_swap :: "'f shared \<Rightarrow> bool" where
  "past_swap s \<longleftrightarrow> (case pc s of At_Poll \<Rightarrow> True | At_Run _ \<Rightarrow> True | At_Test \<Rightarrow> True | _ \<Rightarrow> False)"

definition loop_inv :: "'f shared \<Rightarrow> bool" where
  "loop_inv s \<longleftrightarrow>
     queued_log s = run_log s @ taken s @ pending s \<and>
     (past_swap s \<and> pending s \<noteq> [] \<longrightarrow> counter s > 0 \<or> pushed s > 0) \<and>
     (pc s = At_Poll \<and> quitting s \<longrightarrow> counter s > 0 \<or> stored s > 0)"

lemma eventfd_max_pos [simp]: "0 < eventfd_max"
  by (simp add: eventfd_max_def)

lemma loop_step_inv: "loop_step exec s s' \<Longrightarrow> loop_inv s \<Longrightarrow> loop_inv s'"
proof (induction rule: loop_step.induct)
  case (run s f fs)
  then show ?case
    by (auto simp: loop_inv_def past_swap_def taken_def min_def)
qed (auto simp: loop_inv_def past_swap_def taken_def eventfd_max_def split: pc.splits)

lemma loop_reach_inv: "loop_reach exec s \<Longrightarrow> loop_inv s"
proof (induction rule: loop_reach.induct)
  case start
  show ?case by (simp add: loop_inv_def loop_start_def taken_def)
next
  case (step s s')
  then show ?case by (blast intro: loop_step_inv)
qed

section \<open>Properties\<close>

text \<open>
  C5. No wake-up is lost: whenever the loop is about to block in the poll and a functor is pending, or
  another thread has asked it to quit, the event descriptor is readable or a thread is on its way to
  write to it. So once those threads have finished, the poll returns at once.
\<close>

theorem no_lost_wakeup:
  assumes "loop_reach exec s" and "pc s = At_Poll"
  shows "(pending s \<noteq> [] \<longrightarrow> counter s > 0 \<or> pushed s > 0) \<and> (quitting s \<longrightarrow> counter s > 0 \<or> stored s > 0)"
  using loop_reach_inv [OF assms(1)] assms(2) by (simp add: loop_inv_def past_swap_def)

definition demo_shared :: "nat shared" where
  "demo_shared = loop_start\<lparr>pending := [5], queued_log := [5], pushed := 1\<rparr>"

lemma demo_shared_reach: "loop_reach exec demo_shared"
  using loop_reach.step [OF loop_reach.start loop_step.other_push [of _ loop_start 5]]
  by (simp add: demo_shared_def loop_start_def)

theorem no_lost_wakeup_witness: "counter demo_shared > 0 \<or> pushed demo_shared > 0"
  using no_lost_wakeup [OF demo_shared_reach] by (simp add: demo_shared_def loop_start_def)

text \<open>
  C22. Functors run in the order in which they were queued, each exactly once, whichever threads queue
  them: at any moment what was queued is what has run, then what the loop has taken out, then what
  is still pending.
\<close>

theorem functors_fifo_once:
  assumes "loop_reach exec s"
  shows "queued_log s = run_log s @ taken s @ pending s"
  using loop_reach_inv [OF assms] by (simp add: loop_inv_def)

theorem functors_fifo_once_witness: "queued_log demo_shared = run_log demo_shared @ taken demo_shared @ pending demo_shared"
  by (rule functors_fifo_once [OF demo_shared_reach])

text \<open>
  One iteration of \<^verbatim>\<open>loop()\<close> runs the functors that were pending and those the handlers queued, in
  that order, and every functor they queue waits for the next iteration: an iteration ends although
  functors queue functors.
\<close>

theorem iteration_runs_pending:
  assumes "loop_body exec handle evs l = Inr (fs, l')"
  shows "\<exists>active. fs = pendingFunctors l @ handled handle (wakeupChannel l) active \<and>
    pendingFunctors l' = concat (map (\<lambda>f. queues (exec f)) fs)"
  using loop_body_functors [OF assms] by blast

theorem iteration_runs_pending_witness:
  "\<exists>l'. loop_body (\<lambda>f. \<lparr>queues = [f + 1], quits = False\<rparr>) (\<lambda>p. \<lparr>queues = [], quits = False\<rparr>) (Some [])
     \<lparr>looping = True, quit_flag = False, eventHandling = False, callingPendingFunctors = False, iteration = 0,
      loop_poller = demo_poller, wakeups = 0, wakeupChannel = 7, activeChannels = [], currentActiveChannel = None,
      pendingFunctors = [10, 20 :: nat]\<rparr> = Inr ([10, 20], l') \<and> pendingFunctors l' = [11, 21]"
proof -
  let ?l = "\<lparr>looping = True, quit_flag = False, eventHandling = False, callingPendingFunctors = False, iteration = 0,
      loop_poller = demo_poller, wakeups = 0, wakeupChannel = 7, activeChannels = [], currentActiveChannel = None,
      pendingFunctors = [10, 20 :: nat]\<rparr>"
  obtain l' where b: "loop_body (\<lambda>f. \<lparr>queues = [f + 1], quits = False\<rparr>) (\<lambda>p. \<lparr>queues = [], quits = False\<rparr>) (Some []) ?l =
      Inr ([10, 20], l')"
    by (simp add: loop_body_def Poller_poll_def doPendingFunctors_def Let_def)
  from iteration_runs_pending [OF b] b show ?thesis by auto
qed

end
