(* ===== verification/NetThreads.thy ===== *)
theory NetThreads
  imports Dt_Prelude
begin

text \<open>
  Loop threads and the pool of them (\<^verbatim>\<open>network/EventLoopThread\<close>, \<^verbatim>\<open>network/EventLoopThreadPool\<close>).
  The start of a loop thread is an interleaving of two threads over a mutex and a condition
  variable, modelled as a step relation on their control points. The pool hands out its loops in
  turn; loops are known by their address. The interface that the TCP server uses is the locale
  \<open>loop_source\<close>, interpreted on the pool.
\<close>

section \<open>Starting a loop thread\<close>

text \<open>
  The caller of \<^verbatim>\<open>startLoop\<close>: it has yet to create the thread, is about to test \<^verbatim>\<open>loop_\<close> under the mutex,
  sleeps in \<^verbatim>\<open>cv_.wait\<close>, or has returned with a loop.
\<close>

datatype starter = At_Create | At_Test | Waiting | Returned "nat option"

text \<open>
  The thread: not created, building its loop and running the callback, about to publish it, in
  \<^verbatim>\<open>loop.loop()\<close>, past it, finished.
\<close>

datatype worker = Not_Created | Building | Publishing | Looping | Clearing | Finished

record loop_thread =
  lt_loop :: "nat option"
  lt_starter :: starter
  lt_worker :: worker
  lt_init :: "nat list"

text \<open>\<open>l\<close> is the address of the thread's loop object; \<open>lt_init\<close> records the calls of the callback.\<close>

definition EventLoopThread_ctor :: loop_thread where
  "EventLoopThread_ctor = \<lparr>lt_loop = None, lt_starter = At_Create, lt_worker = Not_Created, lt_init = []\<rparr>"

definition lt_create :: "loop_thread \<Rightarrow> loop_thread" where
  "lt_create s = s\<lparr>lt_starter := At_Test, lt_worker := Building\<rparr>"

text \<open>One round of \<^verbatim>\<open>while (loop_ == NULL) cv_.wait(lock)\<close>, under the mutex.\<close>

definition lt_test :: "loop_thread \<Rightarrow> loop_thread" where
  "lt_test s = s\<lparr>lt_starter := (case lt_loop s of None \<Rightarrow> Waiting | Some l \<Rightarrow> Returned (Some l))\<rparr>"

definition lt_build :: "bool \<Rightarrow> nat \<Rightarrow> loop_thread \<Rightarrow> loop_thread" where
  "lt_build cb l s = s\<lparr>lt_worker := Publishing, lt_init := (if cb then lt_init s @ [l] else lt_init s)\<rparr>"

definition lt_wake :: "loop_thread \<Rightarrow> loop_thread" where
  "lt_wake s = s\<lparr>lt_starter := (if lt_starter s = Waiting then At_Test else lt_starter s)\<rparr>"

definition lt_publish :: "nat \<Rightarrow> loop_thread \<Rightarrow> loop_thread" where
  "lt_publish l s = lt_wake (s\<lparr>lt_loop := Some l, lt_worker := Looping\<rparr>)"

definition lt_clear :: "loop_thread \<Rightarrow> loop_thread" where
  "lt_clear s = s\<lparr>lt_loop := None, lt_worker := Finished\<rparr>"

text \<open>
  \<open>quit\<close> holds from the moment somebody asks the loop to end: \<^verbatim>\<open>loop()\<close> returns only then. The first
  argument says whether there is a callback, the second is the loop.
\<close>

inductive lt_step :: "bool \<Rightarrow> nat \<Rightarrow> loop_thread \<times> bool \<Rightarrow> loop_thread \<times> bool \<Rightarrow> bool" for cb l where
  create: "lt_starter s = At_Create \<Longrightarrow> lt_step cb l (s, q) (lt_create s, q)"
| test: "lt_starter s = At_Test \<Longrightarrow> lt_step cb l (s, q) (lt_test s, q)"
| spurious: "lt_starter s = Waiting \<Longrightarrow> lt_step cb l (s, q) (lt_wake s, q)"
| build: "lt_worker s = Building \<Longrightarrow> lt_step cb l (s, q) (lt_build cb l s, q)"
| publish: "lt_worker s = Publishing \<Longrightarrow> lt_step cb l (s, q) (lt_publish l s, q)"
| ask: "lt_starter s = Returned (Some l) \<Longrightarrow> lt_step cb l (s, q) (s, True)"
| leave: "lt_worker s = Looping \<Longrightarrow> q \<Longrightarrow> lt_step cb l (s, q) (s\<lparr>lt_worker := Clearing\<rparr>, q)"
| clear: "lt_worker s = Clearing \<Longrightarrow> lt_step cb l (s, q) (lt_clear s, q)"

inductive_cases lt_stepE: "lt_step cb l s s'"

inductive lt_reach :: "bool \<Rightarrow> nat \<Rightarrow> loop_thread \<times> bool \<Rightarrow> bool" for cb l where
  start: "lt_reach cb l (EventLoopThread_ctor, False)"
| step: "lt_reach cb l s \<Longrightarrow> lt_step cb l s s' \<Longrightarrow> lt_reach cb l s'"

text \<open>The destructor asks the loop to quit and joins exactly when \<^verbatim>\<open>loop_\<close> is set.\<close>

definition EventLoopThread_dtor :: "loop_thread \<Rightarrow> bool" where
  "EventLoopThread_dtor s \<longleftrightarrow> lt_loop s \<noteq> None"

definition lt_inv :: "bool \<Rightarrow> nat \<Rightarrow> loop_thread \<Rightarrow> bool \<Rightarrow> bool" where
  "lt_inv cb l s q \<longleftrightarrow> (case lt_worker s of
       Not_Created \<Rightarrow> lt_starter s = At_Create \<and> lt_loop s = None \<and> lt_init s = [] \<and> \<not> q
     | Building \<Rightarrow> (lt_starter s = At_Test \<or> lt_starter s = Waiting) \<and> lt_loop s = None \<and> lt_init s = [] \<and> \<not> q
     | Publishing \<Rightarrow> (lt_starter s = At_Test \<or> lt_starter s = Waiting) \<and> lt_loop s = None \<and>
         lt_init s = (if cb then [l] else []) \<and> \<not> q
     | Looping \<Rightarrow> (lt_starter s = At_Test \<and> \<not> q \<or> lt_starter s = Returned (Some l)) \<and> lt_loop s = Some l \<and>
         lt_init s = (if cb then [l] else [])
     | Clearing \<Rightarrow> lt_starter s = Returned (Some l) \<and> lt_loop s = Some l \<and> lt_init s = (if cb then [l] else []) \<and> q
     | Finished \<Rightarrow> lt_starter s = Returned (Some l) \<and> lt_loop s = None \<and> lt_init s = (if cb then [l] else []) \<and> q)"

lemmas lt_defs = lt_create_def lt_test_def lt_build_def lt_wake_def lt_publish_def lt_clear_def

lemma lt_step_inv: "lt_step cb l (s, q) (s', q') \<Longrightarrow> lt_inv cb l s q \<Longrightarrow> lt_inv cb l s' q'"
  by (elim lt_stepE; cases "lt_worker s") (auto simp: lt_inv_def lt_defs)

lemma lt_reach_inv: "lt_reach cb l sq \<Longrightarrow> lt_inv cb l (fst sq) (snd sq)"
proof (induction rule: lt_reach.induct)
  case start
  show ?case by (simp add: lt_inv_def EventLoopThread_ctor_def)
next
  case (step s s')
  then show ?case using lt_step_inv [of cb l "fst s" "snd s" "fst s'" "snd s'"] by simp
qed

text \<open>
  C28. The start of a loop thread loses no notification: in every interleaving, \<^verbatim>\<open>startLoop\<close> sleeps only
  while the thread has yet to publish its loop, it returns no null pointer but the thread's own loop,
  and the callback has then run exactly once, on that loop; once the loop is published and not yet
  told to quit, the next test of the caller makes it return.
\<close>

theorem startLoop_handshake:
  assumes "lt_reach cb l (s, q)"
  shows "(lt_starter s = Waiting \<longrightarrow> lt_worker s \<in> {Building, Publishing}) \<and>
    (\<forall>r. lt_starter s = Returned r \<longrightarrow> r = Some l \<and> lt_init s = (if cb then [l] else [])) \<and>
    (lt_starter s = At_Test \<longrightarrow> lt_worker s \<notin> {Building, Publishing} \<longrightarrow> lt_starter (lt_test s) = Returned (Some l))"
  using lt_reach_inv [OF assms] by (cases "lt_worker s") (auto simp: lt_inv_def lt_test_def)

theorem startLoop_handshake_witness:
  "lt_starter (lt_test (lt_publish 5 (lt_test (lt_build True 5 (lt_create EventLoopThread_ctor))))) = Returned (Some 5) \<and>
   lt_init (lt_test (lt_publish 5 (lt_test (lt_build True 5 (lt_create EventLoopThread_ctor))))) = [5]"
proof -
  have "lt_reach True 5 (lt_create EventLoopThread_ctor, False)"
    by (rule lt_reach.step [OF lt_reach.start], rule lt_step.create) (simp add: EventLoopThread_ctor_def)
  then have "lt_reach True 5 (lt_build True 5 (lt_create EventLoopThread_ctor), False)"
    by (rule lt_reach.step, intro lt_step.build) (simp add: lt_create_def)
  then have "lt_reach True 5 (lt_test (lt_build True 5 (lt_create EventLoopThread_ctor)), False)"
    by (rule lt_reach.step, intro lt_step.test) (simp add: lt_create_def lt_build_def)
  then have "lt_reach True 5 (lt_publish 5 (lt_test (lt_build True 5 (lt_create EventLoopThread_ctor))), False)"
    by (rule lt_reach.step, intro lt_step.publish) (simp add: lt_create_def lt_build_def lt_test_def)
  then have r: "lt_reach True 5 (lt_test (lt_publish 5 (lt_test (lt_build True 5 (lt_create EventLoopThread_ctor)))), False)"
    by (rule lt_reach.step, intro lt_step.test) (simp add: EventLoopThread_ctor_def lt_defs)
  show ?thesis using startLoop_handshake [OF r] by (simp add: EventLoopThread_ctor_def lt_defs)
qed

section \<open>The pool\<close>

record pool =
  baseLoop :: nat
  pool_name :: string
  pool_started :: bool
  numThreads :: int
  pool_next :: int
  pool_loops :: "nat list"

definition Pool_ctor :: "nat \<Rightarrow> string \<Rightarrow> pool" where
  "Pool_ctor base nameArg = \<lparr>baseLoop = base, pool_name = nameArg, pool_started = False, numThreads = 0,
     pool_next = 0, pool_loops = []\<rparr>"

definition setThreadNum :: "int \<Rightarrow> pool \<Rightarrow> pool" where
  "setThreadNum n s = s\<lparr>numThreads := n\<rparr>"

text \<open>
  \<^verbatim>\<open>start\<close>: \<open>new i\<close> is the loop that the \<open>i\<close>-th thread starts. The array \<^verbatim>\<open>buf\<close> handed to each thread as its
  name is never written; \<open>raw i\<close> is what its memory holds, and a name is read up to the first zero
  byte, past the array if there is none. With no threads the callback runs on the base loop; the
  second result is the list of loops it ran on.
\<close>

fun pool_threads :: "nat \<Rightarrow> (nat \<Rightarrow> char list) \<Rightarrow> (nat \<Rightarrow> nat) \<Rightarrow> nat \<Rightarrow> nat \<Rightarrow> nat list res" where
  "pool_threads len raw new i 0 = Inr []"
| "pool_threads len raw new i (Suc n) =
     (if CHR 0x00 \<in> set (take len (raw i))
      then bind_res (pool_threads len raw new (Suc i) n) (\<lambda>ls. Inr (new i # ls))
      else Inl Undefined_Behaviour)"

definition Pool_start :: "(nat \<Rightarrow> char list) \<Rightarrow> (nat \<Rightarrow> nat) \<Rightarrow> bool \<Rightarrow> pool \<Rightarrow> (pool \<times> nat list) res" where
  "Pool_start raw new cb s =
     cxx_assert (\<not> pool_started s)
       (bind_res (pool_threads (length (pool_name s) + 32) raw new 0 (nat (numThreads s))) (\<lambda>ls.
          Inr (s\<lparr>pool_started := True, pool_loops := pool_loops s @ ls\<rparr>,
               if cb then (if numThreads s = 0 then [baseLoop s] else ls) else [])))"

definition getNextLoop :: "pool \<Rightarrow> (nat \<times> pool) res" where
  "getNextLoop s =
     cxx_assert (pool_started s)
       (if pool_loops s = [] then Inr (baseLoop s, s)
        else if 0 \<le> pool_next s \<and> nat (pool_next s) < length (pool_loops s)
        then let loop = pool_loops s ! nat (pool_next s); n = pool_next s + 1
             in Inr (loop, s\<lparr>pool_next := (if size_of_int n \<ge> length (pool_loops s) then 0 else n)\<rparr>)
        else Inl Undefined_Behaviour)"

definition getLoopForHash :: "nat \<Rightarrow> pool \<Rightarrow> nat" where
  "getLoopForHash hashCode s =
     (if pool_loops s = [] then baseLoop s else pool_loops s ! (hashCode mod length (pool_loops s)))"

definition getAllLoops :: "pool \<Rightarrow> nat list res" where
  "getAllLoops s = cxx_assert (pool_started s) (Inr (if pool_loops s = [] then [baseLoop s] else pool_loops s))"

section \<open>The interface of the pool\<close>

text \<open>\<open>n\<close> successive calls.\<close>

primrec draw :: "('p \<Rightarrow> (nat \<times> 'p) res) \<Rightarrow> nat \<Rightarrow> 'p \<Rightarrow> (nat list \<times> 'p) res" where
  "draw nxt 0 p = Inr ([], p)"
| "draw nxt (Suc n) p = bind_res (nxt p) (\<lambda>(l, p'). bind_res (draw nxt n p') (\<lambda>(ls, p''). Inr (l # ls, p'')))"

text \<open>A source of loops: a valid one always yields one of its loops and stays valid.\<close>

locale loop_source =
  fixes nxt :: "'p \<Rightarrow> (nat \<times> 'p) res" and all_loops :: "'p \<Rightarrow> nat list" and valid :: "'p \<Rightarrow> bool"
  assumes next_valid: "valid p \<Longrightarrow> \<exists>l p'. nxt p = Inr (l, p') \<and> valid p' \<and> l \<in> set (all_loops p) \<and>
    all_loops p' = all_loops p"
begin

lemma draw_valid:
  "valid p \<Longrightarrow> \<exists>ls p'. draw nxt n p = Inr (ls, p') \<and> valid p' \<and> length ls = n \<and> set ls \<subseteq> set (all_loops p) \<and>
    all_loops p' = all_loops p"
proof (induction n arbitrary: p)
  case (Suc n)
  from next_valid [OF Suc.prems] obtain l p' where p: "nxt p = Inr (l, p')" "valid p'" "l \<in> set (all_loops p)"
    "all_loops p' = all_loops p" by blast
  from Suc.IH [OF p(2)] p show ?case by fastforce
qed simp

end

definition pool_ok :: "pool \<Rightarrow> bool" where
  "pool_ok s \<longleftrightarrow> pool_started s \<and> length (pool_loops s) < 2147483648 \<and>
     (pool_loops s \<noteq> [] \<longrightarrow> 0 \<le> pool_next s \<and> nat (pool_next s) < length (pool_loops s))"

definition loops_of :: "pool \<Rightarrow> nat list" where
  "loops_of s = (if pool_loops s = [] then [baseLoop s] else pool_loops s)"

lemma getNextLoop_eq:
  assumes "pool_ok s"
  shows "getNextLoop s = Inr (if pool_loops s = [] then (baseLoop s, s)
    else (pool_loops s ! nat (pool_next s), s\<lparr>pool_next := (pool_next s + 1) mod int (length (pool_loops s))\<rparr>))"
proof (cases "pool_loops s = []")
  case False
  with assms have n: "0 \<le> pool_next s" "nat (pool_next s) < length (pool_loops s)" "length (pool_loops s) < 2147483648"
    by (auto simp: pool_ok_def)
  then have sz: "size_of_int (pool_next s + 1) = nat (pool_next s + 1)" by simp
  have "(if nat (pool_next s + 1) \<ge> length (pool_loops s) then 0 else pool_next s + 1) =
      (pool_next s + 1) mod int (length (pool_loops s))"
  proof (cases "nat (pool_next s + 1) \<ge> length (pool_loops s)")
    case True
    with n have "pool_next s + 1 = int (length (pool_loops s))" by linarith
    with True show ?thesis by simp
  next
    case False
    with n show ?thesis by simp
  qed
  with n sz False assms show ?thesis by (simp add: getNextLoop_def pool_ok_def)
qed (use assms in \<open>simp add: getNextLoop_def pool_ok_def\<close>)

interpretation tp: loop_source getNextLoop loops_of pool_ok
proof
  fix s assume ok: "pool_ok s"
  show "\<exists>l p'. getNextLoop s = Inr (l, p') \<and> pool_ok p' \<and> l \<in> set (loops_of s) \<and> loops_of p' = loops_of s"
    using ok getNextLoop_eq [OF ok] by (auto simp: pool_ok_def loops_of_def nat_less_iff)
qed

lemma pool_threads_ok:
  "(\<forall>j. CHR 0x00 \<in> set (take len (raw j))) \<Longrightarrow> pool_threads len raw new i n = Inr (map new [i..<i + n])"
proof (induction n arbitrary: i)
  case (Suc n)
  then show ?case using upt_conv_Cons [of i "i + Suc n"] by simp
qed simp

lemma Pool_start_ok:
  assumes "pool_started s = False" "pool_loops s = []" "pool_next s = 0" "numThreads s \<le> 2147483647"
    and "\<forall>j. CHR 0x00 \<in> set (take (length (pool_name s) + 32) (raw j))"
  shows "\<exists>s' cbs. Pool_start raw new cb s = Inr (s', cbs) \<and> pool_ok s' \<and> pool_next s' = 0 \<and>
    pool_loops s' = map new [0..<nat (numThreads s)] \<and> baseLoop s' = baseLoop s"
  using assms pool_threads_ok [OF assms(5), of new 0 "nat (numThreads s)"]
  by (simp add: Pool_start_def pool_ok_def)

lemma draw_round_robin:
  assumes "pool_ok s" "pool_loops s \<noteq> []"
  shows "\<exists>s'. draw getNextLoop n s = Inr (map (\<lambda>k. pool_loops s ! ((nat (pool_next s) + k) mod length (pool_loops s))) [0..<n], s')"
  using assms
proof (induction n arbitrary: s)
  case (Suc n)
  let ?L = "length (pool_loops s)" and ?s = "s\<lparr>pool_next := (pool_next s + 1) mod int (length (pool_loops s))\<rparr>"
  have nx: "getNextLoop s = Inr (pool_loops s ! nat (pool_next s), ?s)"
    using getNextLoop_eq [OF Suc.prems(1)] Suc.prems(2) by simp
  have ok: "pool_ok ?s" using Suc.prems by (auto simp: pool_ok_def nat_less_iff)
  have p: "0 \<le> pool_next s" "nat (pool_next s) < ?L" using Suc.prems by (auto simp: pool_ok_def)
  have step: "(nat ((pool_next s + 1) mod int ?L) + k) mod ?L = (nat (pool_next s) + Suc k) mod ?L" for k
  proof -
    have "nat ((pool_next s + 1) mod int ?L) = Suc (nat (pool_next s)) mod ?L"
      using p(1) by (simp add: nat_mod_distrib Suc_nat_eq_nat_zadd1 add.commute)
    then show ?thesis by (simp add: mod_add_left_eq)
  qed
  have l: "map (\<lambda>k. pool_loops s ! ((nat (pool_next s) + k) mod ?L)) [0..<Suc n] =
      pool_loops s ! nat (pool_next s) # map (\<lambda>k. pool_loops s ! ((nat (pool_next s) + Suc k) mod ?L)) [0..<n]"
    using p(2) by (simp add: map_upt_Suc del: upt_Suc)
  from Suc.IH [OF ok] Suc.prems(2) obtain s' where
    "draw getNextLoop n ?s = Inr (map (\<lambda>k. pool_loops s ! ((nat ((pool_next s + 1) mod int ?L) + k) mod ?L)) [0..<n], s')" by auto
  then have "draw getNextLoop (Suc n) s =
      Inr (pool_loops s ! nat (pool_next s) # map (\<lambda>k. pool_loops s ! ((nat (pool_next s) + Suc k) mod ?L)) [0..<n], s')"
    unfolding step by (simp add: nx)
  with l show ?case by simp
qed simp

text \<open>
  C29. The pool hands out its loops in turn: after \<^verbatim>\<open>start\<close> with \<open>n > 0\<close> threads, the \<open>k\<close>-th call of
  \<^verbatim>\<open>getNextLoop\<close> returns the loop of thread \<open>k mod n\<close>, for any number of calls, so that \<open>n\<close> successive
  calls reach every loop; with no threads every call returns the base loop.
\<close>

theorem pool_round_robin:
  assumes "0 \<le> n" and "n \<le> 2147483647" and "\<forall>j. CHR 0x00 \<in> set (take (length nm + 32) (raw j))"
  shows "\<exists>s cbs. Pool_start raw new cb (setThreadNum n (Pool_ctor base nm)) = Inr (s, cbs) \<and>
    (\<exists>s'. draw getNextLoop m s = Inr (map (\<lambda>k. if n = 0 then base else new (k mod nat n)) [0..<m], s'))"
proof -
  from assms Pool_start_ok [of "setThreadNum n (Pool_ctor base nm)" raw new cb] obtain s cbs where
    s: "Pool_start raw new cb (setThreadNum n (Pool_ctor base nm)) = Inr (s, cbs)" "pool_ok s" "pool_next s = 0"
      "pool_loops s = map new [0..<nat n]" "baseLoop s = base"
    by (auto simp: setThreadNum_def Pool_ctor_def)
  show ?thesis
  proof (cases "n = 0")
    case True
    with s have e: "getNextLoop s = Inr (base, s)" using getNextLoop_eq [of s] by simp
    have "draw getNextLoop m s = Inr (replicate m base, s)" by (induction m) (simp_all add: e)
    with s(1) True show ?thesis by (simp add: map_replicate_const)
  next
    case False
    then have "(0::nat) < nat n" using assms(1) by simp
    moreover from this have "pool_loops s \<noteq> []" using s(4) by simp
    ultimately show ?thesis using draw_round_robin [OF s(2), of m] s False by simp
  qed
qed

theorem pool_round_robin_witness:
  "\<exists>s cbs. Pool_start (\<lambda>_. [CHR 0x00]) (\<lambda>i. 100 + i) False (setThreadNum 2 (Pool_ctor 1 ''srv'')) = Inr (s, cbs) \<and>
    (\<exists>s'. draw getNextLoop 5 s = Inr ([100, 101, 100, 101, 100], s'))"
  using pool_round_robin [of 2 "''srv''" "\<lambda>_. [CHR 0x00]" "\<lambda>i. 100 + i" False 1 5]
  by (simp add: upt_rec)

end
