(* ===== verification/NetEndian.thy ===== *)
theory NetEndian
  imports Dt_Prelude
begin

text \<open>
  Byte order (\<^verbatim>\<open>network/include/network/Endian.h\<close>). The header forwards to \<^verbatim>\<open>htobe64\<close>, \<^verbatim>\<open>be64toh\<close> and
  their 32- and 16-bit versions: a byte swap on a little-endian host, the identity on a
  big-endian one. The host's byte order is a parameter. Integers are words of their width;
  \<open>mem_bytes\<close> is their representation in memory, which \<^verbatim>\<open>Buffer\<close> copies byte by byte. The lemmas
  show that the memory image of a converted integer is its big-endian encoding whatever the
  host, and that the two conversions are inverse to each other.
\<close>

datatype byte_order = Little_Endian | Big_Endian

section \<open>Bytes of a number\<close>

fun le_bytes :: "nat \<Rightarrow> nat \<Rightarrow> char list" where
  "le_bytes 0 v = []"
| "le_bytes (Suc n) v = char_of (v mod 256) # le_bytes n (v div 256)"

fun le_val :: "char list \<Rightarrow> nat" where
  "le_val [] = 0"
| "le_val (c # cs) = of_char c + 256 * le_val cs"

abbreviation be_bytes :: "nat \<Rightarrow> nat \<Rightarrow> char list" where
  "be_bytes n v \<equiv> rev (le_bytes n v)"

definition mem_bytes :: "byte_order \<Rightarrow> nat \<Rightarrow> nat \<Rightarrow> char list" where
  "mem_bytes bo n v = (case bo of Little_Endian \<Rightarrow> le_bytes n v | Big_Endian \<Rightarrow> be_bytes n v)"

definition mem_val :: "byte_order \<Rightarrow> char list \<Rightarrow> nat" where
  "mem_val bo cs = (case bo of Little_Endian \<Rightarrow> le_val cs | Big_Endian \<Rightarrow> le_val (rev cs))"

lemma length_le_bytes [simp]: "length (le_bytes n v) = n"
  by (induction n arbitrary: v) auto

lemma length_mem_bytes [simp]: "length (mem_bytes bo n v) = n"
  by (cases bo) (simp_all add: mem_bytes_def)

lemma le_val_le_bytes: "le_val (le_bytes n v) = v mod 256 ^ n"
proof (induction n arbitrary: v)
  case (Suc n)
  have "(v mod 256) + 256 * ((v div 256) mod 256 ^ n) = v mod (256 * 256 ^ n)"
    by (simp add: mod_mult2_eq)
  with Suc show ?case by (simp add: of_char_mod_256)
qed simp

lemma le_bytes_le_val: "length cs = n \<Longrightarrow> le_bytes n (le_val cs) = cs"
proof (induction cs arbitrary: n)
  case (Cons c cs)
  have "(of_char c :: nat) < 256" by simp
  with Cons show ?case by auto
qed simp

lemma le_val_bound: "le_val cs < 256 ^ length cs"
proof (induction cs)
  case (Cons c cs)
  have "(of_char c :: nat) < 256" by simp
  moreover have "Suc (le_val cs) \<le> 256 ^ length cs"
    using Cons by simp
  then have "256 * Suc (le_val cs) \<le> 256 ^ length (c # cs)"
    unfolding length_Cons power_Suc by (rule mult_le_mono2)
  ultimately show ?case
    unfolding le_val.simps mult_Suc_right by (rule less_le_trans [OF add_strict_right_mono])
qed simp

lemma mem_val_mem_bytes: "v < 256 ^ n \<Longrightarrow> mem_val bo (mem_bytes bo n v) = v"
  by (cases bo) (simp_all add: mem_val_def mem_bytes_def le_val_le_bytes)

lemma mem_bytes_mem_val: "length cs = n \<Longrightarrow> mem_bytes bo n (mem_val bo cs) = cs"
  by (cases bo) (simp_all add: mem_val_def mem_bytes_def le_bytes_le_val)

section \<open>The conversions\<close>

text \<open>\<^verbatim>\<open>bswap\<close> of an \<open>n\<close>-byte number, and the host-dependent \<^verbatim>\<open>htobe\<close>/\<^verbatim>\<open>betoh\<close>.\<close>

definition bswap :: "nat \<Rightarrow> nat \<Rightarrow> nat" where
  "bswap n v = le_val (be_bytes n v)"

definition htobe :: "byte_order \<Rightarrow> nat \<Rightarrow> nat \<Rightarrow> nat" where
  "htobe bo n v = (case bo of Little_Endian \<Rightarrow> bswap n v | Big_Endian \<Rightarrow> v)"

definition hostToNetwork64 :: "byte_order \<Rightarrow> 64 word \<Rightarrow> 64 word" where
  "hostToNetwork64 bo x = of_nat (htobe bo 8 (unat x))"

definition hostToNetwork32 :: "byte_order \<Rightarrow> 32 word \<Rightarrow> 32 word" where
  "hostToNetwork32 bo x = of_nat (htobe bo 4 (unat x))"

definition hostToNetwork16 :: "byte_order \<Rightarrow> 16 word \<Rightarrow> 16 word" where
  "hostToNetwork16 bo x = of_nat (htobe bo 2 (unat x))"

definition networkToHost64 :: "byte_order \<Rightarrow> 64 word \<Rightarrow> 64 word" where
  "networkToHost64 bo x = of_nat (htobe bo 8 (unat x))"

definition networkToHost32 :: "byte_order \<Rightarrow> 32 word \<Rightarrow> 32 word" where
  "networkToHost32 bo x = of_nat (htobe bo 4 (unat x))"

definition networkToHost16 :: "byte_order \<Rightarrow> 16 word \<Rightarrow> 16 word" where
  "networkToHost16 bo x = of_nat (htobe bo 2 (unat x))"

lemmas endian_defs =
  hostToNetwork64_def hostToNetwork32_def hostToNetwork16_def
  networkToHost64_def networkToHost32_def networkToHost16_def

lemma bswap_bound: "bswap n v < 256 ^ n"
  using le_val_bound [of "be_bytes n v"] by (simp add: bswap_def)

lemma bswap_bswap: "v < 256 ^ n \<Longrightarrow> bswap n (bswap n v) = v"
  by (simp add: bswap_def le_bytes_le_val le_val_le_bytes)

lemma htobe_bound: "v < 256 ^ n \<Longrightarrow> htobe bo n v < 256 ^ n"
  by (cases bo) (simp_all add: htobe_def bswap_bound)

lemma htobe_htobe: "v < 256 ^ n \<Longrightarrow> htobe bo n (htobe bo n v) = v"
  by (cases bo) (simp_all add: htobe_def bswap_bswap)

lemma mem_bytes_htobe: "mem_bytes bo n (htobe bo n v) = be_bytes n v"
  by (cases bo) (simp_all add: mem_bytes_def htobe_def bswap_def le_bytes_le_val)

lemma htobe_mem_val: "length cs = n \<Longrightarrow> htobe bo n (mem_val bo cs) = le_val (rev cs)"
  by (cases bo) (simp_all add: mem_val_def htobe_def bswap_def le_bytes_le_val)

lemma unat_of_nat_bytes:
  assumes "v < 256 ^ n" and "LENGTH('a::len) = 8 * n"
  shows "unat (of_nat v :: 'a word) = v"
proof -
  have "v < 2 ^ LENGTH('a)"
    using assms by (simp add: power_mult)
  then show ?thesis by (simp add: unsigned_of_nat take_bit_nat_eq_self)
qed

lemma unat_word_bytes:
  fixes x :: "'a::len word"
  assumes "LENGTH('a) = 8 * n"
  shows "unat x < 256 ^ n"
  using unsigned_less [of x] assms by (simp add: power_mult)

lemma unat_word_bytes_inst [simp]:
  "unat (x64 :: 64 word) < 256 ^ 8" "unat (x32 :: 32 word) < 256 ^ 4"
  "unat (x16 :: 16 word) < 256 ^ 2"
  by (rule unat_word_bytes, simp)+

lemma unat_hostToNetwork [simp]:
  "unat (hostToNetwork64 bo x64) = htobe bo 8 (unat x64)"
  "unat (hostToNetwork32 bo x32) = htobe bo 4 (unat x32)"
  "unat (hostToNetwork16 bo x16) = htobe bo 2 (unat x16)"
  unfolding endian_defs
  by (rule unat_of_nat_bytes, rule htobe_bound, rule unat_word_bytes_inst, simp)+

end
