(* ===== verification/NetBuffer.thy ===== *)
theory NetBuffer
  imports NetEndian
begin

text \<open>
  The byte buffer of the network library (\<^verbatim>\<open>network/include/network/Buffer.h\<close> and
  \<^verbatim>\<open>network/src/Buffer.cc\<close>): a vector with a reader and a writer index. Every method is a
  function on the record \<open>Buffer\<close>; \<^verbatim>\<open>assert\<close> is a failing branch, \<^verbatim>\<open>size_t\<close> arithmetic wraps.
  Abstractly the buffer is the list of its readable bytes (\<open>content\<close>). The lemmas show the
  representation invariant \<open>buf_ok\<close> and the effect of every method on \<open>content\<close>; the interface
  locale \<open>byte_queue\<close> packages what the connection layer relies on.
\<close>

section \<open>The class\<close>

record Buffer =
  buffer :: "char list"
  readerIndex :: nat
  writerIndex :: nat

definition kCheapPrepend :: nat where
  "kCheapPrepend = 8"

definition kInitialSize :: nat where
  "kInitialSize = 1024 * 4"

definition readableBytes :: "Buffer \<Rightarrow> nat" where
  "readableBytes b = sz_sub (writerIndex b) (readerIndex b)"

definition writableBytes :: "Buffer \<Rightarrow> nat" where
  "writableBytes b = sz_sub (length (buffer b)) (writerIndex b)"

definition prependableBytes :: "Buffer \<Rightarrow> nat" where
  "prependableBytes b = readerIndex b"

definition Buffer_ctor :: "nat \<Rightarrow> Buffer res" where
  "Buffer_ctor initialSize =
     (let n = sz_add kCheapPrepend initialSize;
          b = \<lparr>buffer = replicate n (CHR 0x00), readerIndex = kCheapPrepend,
               writerIndex = kCheapPrepend\<rparr>
      in if n > max_size then Inl Length_Error
         else cxx_assert (readableBytes b = 0)
                (cxx_assert (writableBytes b = initialSize)
                  (cxx_assert (prependableBytes b = kCheapPrepend) (Inr b))))"

text \<open>\<^verbatim>\<open>peek()\<close> points at the byte with index \<open>readerIndex\<close>: the memory from there on.\<close>

definition peek :: "Buffer \<Rightarrow> char list" where
  "peek b = drop (readerIndex b) (buffer b)"

definition retrieveAll :: "Buffer \<Rightarrow> Buffer" where
  "retrieveAll b = b\<lparr>readerIndex := kCheapPrepend, writerIndex := kCheapPrepend\<rparr>"

definition retrieve :: "nat \<Rightarrow> Buffer \<Rightarrow> Buffer res" where
  "retrieve len b =
     cxx_assert (len \<le> readableBytes b)
       (Inr (if len < readableBytes b then b\<lparr>readerIndex := sz_add (readerIndex b) len\<rparr>
             else retrieveAll b))"

definition retrieveInt64 :: "Buffer \<Rightarrow> Buffer res" where
  "retrieveInt64 b = retrieve 8 b"

definition retrieveInt32 :: "Buffer \<Rightarrow> Buffer res" where
  "retrieveInt32 b = retrieve 4 b"

definition retrieveInt16 :: "Buffer \<Rightarrow> Buffer res" where
  "retrieveInt16 b = retrieve 2 b"

definition retrieveInt8 :: "Buffer \<Rightarrow> Buffer res" where
  "retrieveInt8 b = retrieve 1 b"

definition retrieveAsString :: "nat \<Rightarrow> Buffer \<Rightarrow> (string \<times> Buffer) res" where
  "retrieveAsString len b =
     cxx_assert (len \<le> readableBytes b)
       (bind_res (mem_read (buffer b) (readerIndex b) len)
         (\<lambda>result. bind_res (retrieve len b) (\<lambda>b'. Inr (result, b'))))"

definition retrieveAllAsString :: "Buffer \<Rightarrow> (string \<times> Buffer) res" where
  "retrieveAllAsString b = retrieveAsString (readableBytes b) b"

definition hasWritten :: "nat \<Rightarrow> Buffer \<Rightarrow> Buffer res" where
  "hasWritten len b =
     cxx_assert (len \<le> writableBytes b) (Inr (b\<lparr>writerIndex := sz_add (writerIndex b) len\<rparr>))"

definition unwrite :: "nat \<Rightarrow> Buffer \<Rightarrow> Buffer res" where
  "unwrite len b =
     cxx_assert (len \<le> readableBytes b) (Inr (b\<lparr>writerIndex := sz_sub (writerIndex b) len\<rparr>))"

definition makeSpace :: "nat \<Rightarrow> Buffer \<Rightarrow> Buffer res" where
  "makeSpace len b =
     (if sz_add (writableBytes b) (prependableBytes b) < sz_add len kCheapPrepend
      then bind_res (vec_resize (CHR 0x00) (buffer b) (sz_add (writerIndex b) len))
             (\<lambda>v. Inr (b\<lparr>buffer := v\<rparr>))
      else cxx_assert (kCheapPrepend < readerIndex b)
             (let readable = readableBytes b in
              bind_res (mem_read (buffer b) (readerIndex b) readable)
                (\<lambda>moved. bind_res (vec_write (buffer b) kCheapPrepend moved)
                  (\<lambda>v. let b' = b\<lparr>buffer := v, readerIndex := kCheapPrepend,
                                   writerIndex := sz_add kCheapPrepend readable\<rparr>
                        in cxx_assert (readable = readableBytes b') (Inr b')))))"

definition ensureWritableBytes :: "nat \<Rightarrow> Buffer \<Rightarrow> Buffer res" where
  "ensureWritableBytes len b =
     bind_res (if writableBytes b < len then makeSpace len b else Inr b)
       (\<lambda>b'. cxx_assert (writableBytes b' \<ge> len) (Inr b'))"

definition Buffer_append :: "char list \<Rightarrow> Buffer \<Rightarrow> Buffer res" where
  "Buffer_append data b =
     bind_res (ensureWritableBytes (length data) b)
       (\<lambda>b1. bind_res (vec_write (buffer b1) (writerIndex b1) data)
         (\<lambda>v. hasWritten (length data) (b1\<lparr>buffer := v\<rparr>)))"

definition prepend :: "char list \<Rightarrow> Buffer \<Rightarrow> Buffer res" where
  "prepend data b =
     cxx_assert (length data \<le> prependableBytes b)
       (let r = sz_sub (readerIndex b) (length data) in
        bind_res (vec_write (buffer b) r data)
          (\<lambda>v. Inr (b\<lparr>buffer := v, readerIndex := r\<rparr>)))"

section \<open>Integers in network byte order\<close>

definition appendInt64 :: "byte_order \<Rightarrow> 64 word \<Rightarrow> Buffer \<Rightarrow> Buffer res" where
  "appendInt64 bo x b = Buffer_append (mem_bytes bo 8 (unat (hostToNetwork64 bo x))) b"

definition appendInt32 :: "byte_order \<Rightarrow> 32 word \<Rightarrow> Buffer \<Rightarrow> Buffer res" where
  "appendInt32 bo x b = Buffer_append (mem_bytes bo 4 (unat (hostToNetwork32 bo x))) b"

definition appendInt16 :: "byte_order \<Rightarrow> 16 word \<Rightarrow> Buffer \<Rightarrow> Buffer res" where
  "appendInt16 bo x b = Buffer_append (mem_bytes bo 2 (unat (hostToNetwork16 bo x))) b"

definition appendInt8 :: "8 word \<Rightarrow> Buffer \<Rightarrow> Buffer res" where
  "appendInt8 x b = Buffer_append [char_of (unat x)] b"

definition peekInt64 :: "byte_order \<Rightarrow> Buffer \<Rightarrow> (64 word) res" where
  "peekInt64 bo b =
     cxx_assert (readableBytes b \<ge> 8)
       (bind_res (mem_read (buffer b) (readerIndex b) 8)
         (\<lambda>m. Inr (networkToHost64 bo (of_nat (mem_val bo m)))))"

definition peekInt32 :: "byte_order \<Rightarrow> Buffer \<Rightarrow> (32 word) res" where
  "peekInt32 bo b =
     cxx_assert (readableBytes b \<ge> 4)
       (bind_res (mem_read (buffer b) (readerIndex b) 4)
         (\<lambda>m. Inr (networkToHost32 bo (of_nat (mem_val bo m)))))"

definition peekInt16 :: "byte_order \<Rightarrow> Buffer \<Rightarrow> (16 word) res" where
  "peekInt16 bo b =
     cxx_assert (readableBytes b \<ge> 2)
       (bind_res (mem_read (buffer b) (readerIndex b) 2)
         (\<lambda>m. Inr (networkToHost16 bo (of_nat (mem_val bo m)))))"

definition peekInt8 :: "Buffer \<Rightarrow> (8 word) res" where
  "peekInt8 b =
     cxx_assert (readableBytes b \<ge> 1)
       (bind_res (mem_read (buffer b) (readerIndex b) 1)
         (\<lambda>m. Inr (of_nat (le_val m))))"

definition readInt64 :: "byte_order \<Rightarrow> Buffer \<Rightarrow> (64 word \<times> Buffer) res" where
  "readInt64 bo b =
     bind_res (peekInt64 bo b) (\<lambda>result. bind_res (retrieveInt64 b) (\<lambda>b'. Inr (result, b')))"

definition readInt32 :: "byte_order \<Rightarrow> Buffer \<Rightarrow> (32 word \<times> Buffer) res" where
  "readInt32 bo b =
     bind_res (peekInt32 bo b) (\<lambda>result. bind_res (retrieveInt32 b) (\<lambda>b'. Inr (result, b')))"

definition readInt16 :: "byte_order \<Rightarrow> Buffer \<Rightarrow> (16 word \<times> Buffer) res" where
  "readInt16 bo b =
     bind_res (peekInt16 bo b) (\<lambda>result. bind_res (retrieveInt16 b) (\<lambda>b'. Inr (result, b')))"

definition readInt8 :: "Buffer \<Rightarrow> (8 word \<times> Buffer) res" where
  "readInt8 b =
     bind_res (peekInt8 b) (\<lambda>result. bind_res (retrieveInt8 b) (\<lambda>b'. Inr (result, b')))"

definition prependInt64 :: "byte_order \<Rightarrow> 64 word \<Rightarrow> Buffer \<Rightarrow> Buffer res" where
  "prependInt64 bo x b = prepend (mem_bytes bo 8 (unat (hostToNetwork64 bo x))) b"

definition prependInt32 :: "byte_order \<Rightarrow> 32 word \<Rightarrow> Buffer \<Rightarrow> Buffer res" where
  "prependInt32 bo x b = prepend (mem_bytes bo 4 (unat (hostToNetwork32 bo x))) b"

definition prependInt16 :: "byte_order \<Rightarrow> 16 word \<Rightarrow> Buffer \<Rightarrow> Buffer res" where
  "prependInt16 bo x b = prepend (mem_bytes bo 2 (unat (hostToNetwork16 bo x))) b"

definition prependInt8 :: "8 word \<Rightarrow> Buffer \<Rightarrow> Buffer res" where
  "prependInt8 x b = prepend [char_of (unat x)] b"

section \<open>Reading from a descriptor\<close>

text \<open>
  \<^verbatim>\<open>readFd\<close> scatters into the writable part and a 1 MiB stack array. The kernel is the parameter
  \<open>readv\<close>: given the lengths of the iovecs it yields an \<^verbatim>\<open>errno\<close> or the bytes read. The result is
  the return value, the saved \<^verbatim>\<open>errno\<close> if one was stored, and the buffer.
\<close>

definition extrabuf_size :: nat where
  "extrabuf_size = 1024 * 1024"

definition readFd_iov :: "Buffer \<Rightarrow> nat list" where
  "readFd_iov b =
     (let writable = writableBytes b
      in if writable < extrabuf_size then [writable, extrabuf_size] else [writable])"

definition readFd :: "(nat list \<Rightarrow> int + char list) \<Rightarrow> Buffer \<Rightarrow> (int \<times> int option \<times> Buffer) res" where
  "readFd readv b =
     (let writable = writableBytes b; iov = readFd_iov b
      in case readv iov of
           Inl errno \<Rightarrow> Inr (-1, Some errno, b)
         | Inr data \<Rightarrow>
             bind_res (vec_write (buffer b) (writerIndex b) (take writable data))
               (\<lambda>v. if length data \<le> writable
                    then Inr (int (length data), None,
                              b\<lparr>buffer := v, writerIndex := sz_add (writerIndex b) (length data)\<rparr>)
                    else if length data > sum_list iov then Inl Undefined_Behaviour
                    else bind_res (Buffer_append (drop writable data)
                                     (b\<lparr>buffer := v, writerIndex := length v\<rparr>))
                           (\<lambda>b'. Inr (int (length data), None, b'))))"

section \<open>Representation invariant and content\<close>

text \<open>The picture in the header: \<open>0 \<le> readerIndex \<le> writerIndex \<le> size\<close>.\<close>

definition buf_ok :: "Buffer \<Rightarrow> bool" where
  "buf_ok b \<longleftrightarrow> readerIndex b \<le> writerIndex b \<and> writerIndex b \<le> length (buffer b) \<and>
     kCheapPrepend \<le> length (buffer b) \<and> length (buffer b) \<le> max_size"

definition content :: "Buffer \<Rightarrow> char list" where
  "content b = take (writerIndex b - readerIndex b) (drop (readerIndex b) (buffer b))"

text \<open>
  When \<open>len\<close> more bytes can be appended: growing the vector stays within its largest size, or
  moving the readable bytes to the front makes the space.
\<close>

definition can_append :: "nat \<Rightarrow> Buffer \<Rightarrow> bool" where
  "can_append len b \<longleftrightarrow> writerIndex b + len \<le> max_size \<or>
     len + kCheapPrepend \<le> length (buffer b) - writerIndex b + readerIndex b"

lemma can_append_le:
  assumes "can_append len b" and "buf_ok b"
  shows "len \<le> max_size"
  using assms by (auto simp: can_append_def buf_ok_def)

lemma buf_okD:
  assumes "buf_ok b"
  shows "readerIndex b \<le> writerIndex b" "writerIndex b \<le> length (buffer b)"
    "8 \<le> length (buffer b)" "length (buffer b) \<le> max_size"
  using assms by (simp_all add: buf_ok_def kCheapPrepend_def)

lemma buf_ok_readable [simp]: "buf_ok b \<Longrightarrow> readableBytes b = writerIndex b - readerIndex b"
  using buf_okD [of b] by (simp add: readableBytes_def sz_sub_eq)

lemma buf_ok_writable [simp]: "buf_ok b \<Longrightarrow> writableBytes b = length (buffer b) - writerIndex b"
  using buf_okD [of b] by (simp add: writableBytes_def sz_sub_eq)

lemma length_content: "buf_ok b \<Longrightarrow> length (content b) = writerIndex b - readerIndex b"
  using buf_okD [of b] by (simp add: content_def)

lemma length_content_readable: "buf_ok b \<Longrightarrow> length (content b) = readableBytes b"
  by (simp add: length_content)

lemma mem_read_content:
  assumes "buf_ok b" and "n \<le> length (content b)"
  shows "mem_read (buffer b) (readerIndex b) n = Inr (take n (content b))"
  using assms(2) buf_okD [OF assms(1)]
  by (simp add: mem_read_def length_content [OF assms(1)]) (simp add: content_def min_def)

section \<open>Effect of the methods\<close>

lemma Buffer_ctor_ok:
  assumes "n + 8 \<le> max_size"
  shows "\<exists>b. Buffer_ctor n = Inr b \<and> buf_ok b \<and> content b = [] \<and> writableBytes b = n"
  using assms
  by (simp add: Buffer_ctor_def Let_def kCheapPrepend_def sz_add_eq buf_ok_def content_def
      readableBytes_def writableBytes_def prependableBytes_def sz_sub_eq)

lemma retrieveAll_ok: "buf_ok b \<Longrightarrow> buf_ok (retrieveAll b) \<and> content (retrieveAll b) = []"
  by (simp add: retrieveAll_def buf_ok_def content_def)

lemma retrieve_ok:
  assumes "buf_ok b" and "len \<le> length (content b)"
  shows "\<exists>b'. retrieve len b = Inr b' \<and> buf_ok b' \<and> content b' = drop len (content b)"
proof (cases "len < length (content b)")
  case True
  have "sz_add (readerIndex b) len = readerIndex b + len"
    using True buf_okD [OF assms(1)] by (intro sz_add_eq) (simp add: length_content [OF assms(1)])
  with True assms show ?thesis
    by (auto simp: retrieve_def length_content buf_ok_def content_def drop_take add.commute)
next
  case False
  with assms retrieveAll_ok [OF assms(1)] show ?thesis
    by (simp add: retrieve_def length_content)
qed

lemma retrieve_assert:
  "buf_ok b \<Longrightarrow> length (content b) < len \<Longrightarrow> retrieve len b = Inl Assert_Failed"
  by (simp add: retrieve_def length_content)

lemma retrieve_sound:
  assumes "buf_ok b" and "retrieve len b = Inr b'"
  shows "len \<le> length (content b)" "buf_ok b'" "content b' = drop len (content b)"
proof -
  show le: "len \<le> length (content b)"
    using assms retrieve_assert [OF assms(1)] by (cases "len \<le> length (content b)") auto
  from retrieve_ok [OF assms(1) le] assms(2)
  show "buf_ok b'" "content b' = drop len (content b)" by auto
qed

lemma retrieveAsString_ok:
  assumes "buf_ok b" and "len \<le> length (content b)"
  shows "\<exists>b'. retrieveAsString len b = Inr (take len (content b), b') \<and> buf_ok b' \<and>
    content b' = drop len (content b)"
  using retrieve_ok [OF assms] assms
  by (auto simp: retrieveAsString_def mem_read_content length_content)

lemma retrieveAsString_assert:
  "buf_ok b \<Longrightarrow> length (content b) < len \<Longrightarrow> retrieveAsString len b = Inl Assert_Failed"
  by (simp add: retrieveAsString_def length_content)

lemma retrieveAllAsString_ok:
  assumes "buf_ok b"
  shows "\<exists>b'. retrieveAllAsString b = Inr (content b, b') \<and> buf_ok b' \<and> content b' = []"
  using retrieveAsString_ok [OF assms, of "readableBytes b"] assms
  by (simp add: retrieveAllAsString_def length_content)

lemma unwrite_ok:
  assumes "buf_ok b" and "len \<le> length (content b)"
  shows "\<exists>b'. unwrite len b = Inr b' \<and> buf_ok b' \<and>
    content b' = take (length (content b) - len) (content b)"
proof -
  have len: "len \<le> writerIndex b - readerIndex b"
    using assms by (simp add: length_content)
  have sub: "sz_sub (writerIndex b) len = writerIndex b - len"
    using len buf_okD [OF assms(1)] by (intro sz_sub_eq) simp_all
  let ?b = "b\<lparr>writerIndex := writerIndex b - len\<rparr>"
  have "buf_ok ?b" using assms(1) len by (auto simp: buf_ok_def)
  moreover have "content ?b = take (length (content b) - len) (content b)"
    unfolding length_content [OF assms(1)] by (simp add: content_def add.commute)
  ultimately show ?thesis
    using sub len assms(1) by (simp add: unwrite_def)
qed

lemma prepend_ok:
  assumes "buf_ok b" and "length data \<le> readerIndex b"
  shows "\<exists>b'. prepend data b = Inr b' \<and> buf_ok b' \<and> content b' = data @ content b"
proof -
  let ?r = "readerIndex b - length data"
  have r: "sz_sub (readerIndex b) (length data) = ?r"
    using assms buf_okD [OF assms(1)] by (intro sz_sub_eq) simp_all
  obtain v where v: "vec_write (buffer b) ?r data = Inr v"
    using assms buf_okD [OF assms(1)] vec_write_exists [of ?r data "buffer b"] by auto
  have "drop ?r v = data @ drop (readerIndex b) (buffer b)"
    using vec_write_Inr [OF v] assms(2) by (metis append_take_drop_id drop_drop le_add_diff_inverse2 add.commute)
  with assms v r vec_write_Inr(1) [OF v] show ?thesis
    by (auto simp: prepend_def prependableBytes_def Let_def buf_ok_def content_def)
qed

lemma makeSpace_ok:
  assumes ok: "buf_ok b" and len: "writableBytes b < len" and fit: "can_append len b"
  shows "\<exists>b'. makeSpace len b = Inr b' \<and> buf_ok b' \<and> content b' = content b \<and> len \<le> writableBytes b' \<and>
    writerIndex b' \<le> writerIndex b"
proof -
  have bnd: "len \<le> max_size" using fit ok by (rule can_append_le)
  have sums: "sz_add (writableBytes b) (readerIndex b) = writableBytes b + readerIndex b"
    "sz_add len 8 = len + 8" "sz_add (writerIndex b) len = writerIndex b + len"
    using ok bnd buf_okD [OF ok] by (auto simp: sz_add_def)
  show ?thesis
  proof (cases "writableBytes b + readerIndex b < len + 8")
    case True
    let ?v = "take (writerIndex b + len) (buffer b) @
      replicate (writerIndex b + len - length (buffer b)) (CHR 0x00)"
    have "length (buffer b) \<le> writerIndex b + len"
      using ok len by simp
    moreover have "writerIndex b + len \<le> max_size"
      using True fit ok by (simp add: can_append_def kCheapPrepend_def)
    ultimately show ?thesis
      using True ok sums
      by (auto simp: makeSpace_def prependableBytes_def kCheapPrepend_def vec_resize_def
          buf_ok_def content_def sz_sub_eq writableBytes_def)
  next
    case False
    let ?n = "writerIndex b - readerIndex b"
    have r8: "8 < readerIndex b" using False len by simp
    have rd: "mem_read (buffer b) (readerIndex b) ?n = Inr (content b)"
      using mem_read_content [OF ok, of ?n] ok by (simp add: length_content)
    have "8 + length (content b) \<le> length (buffer b)"
      using r8 buf_okD [OF ok] unfolding length_content [OF ok] by linarith
    then obtain v where v: "vec_write (buffer b) 8 (content b) = Inr v"
      using vec_write_exists by blast
    let ?b = "b\<lparr>buffer := v, readerIndex := 8, writerIndex := 8 + ?n\<rparr>"
    have "sz_add 8 ?n = 8 + ?n"
      using r8 buf_okD [OF ok] by (intro sz_add_eq) simp
    moreover have "buf_ok ?b"
      using ok r8 vec_write_Inr(1) [OF v] by (auto simp: buf_ok_def kCheapPrepend_def)
    moreover have "content ?b = content b"
      using vec_write_Inr(3) [OF v] ok by (simp add: content_def [of ?b] length_content)
    moreover have "len \<le> length v - (8 + ?n)"
      using False vec_write_Inr(1) [OF v] ok buf_okD [OF ok] by simp
    moreover have "readableBytes ?b = ?n" "writableBytes ?b = length v - (8 + ?n)"
      using \<open>buf_ok ?b\<close> by simp_all
    moreover have "8 + ?n \<le> writerIndex b" using r8 buf_okD [OF ok] by linarith
    ultimately show ?thesis
      using False ok sums r8 rd v
      by (simp add: makeSpace_def prependableBytes_def kCheapPrepend_def Let_def)
  qed
qed

lemma ensureWritableBytes_ok:
  assumes "buf_ok b" and "can_append len b"
  shows "\<exists>b'. ensureWritableBytes len b = Inr b' \<and> buf_ok b' \<and> content b' = content b \<and>
    len \<le> writableBytes b' \<and> writerIndex b' \<le> writerIndex b"
proof (cases "writableBytes b < len")
  case True
  with makeSpace_ok [OF assms(1) True assms(2)] show ?thesis
    by (auto simp: ensureWritableBytes_def simp del: buf_ok_writable)
next
  case False
  with assms show ?thesis by (simp add: ensureWritableBytes_def)
qed

lemma Buffer_append_ok:
  assumes "buf_ok b" and "can_append (length data) b"
  shows "\<exists>b'. Buffer_append data b = Inr b' \<and> buf_ok b' \<and> content b' = content b @ data \<and>
    writerIndex b' \<le> writerIndex b + length data"
proof -
  obtain b1 where b1: "ensureWritableBytes (length data) b = Inr b1" "buf_ok b1"
      "content b1 = content b" "length data \<le> writableBytes b1" "writerIndex b1 \<le> writerIndex b"
    using ensureWritableBytes_ok [OF assms] by blast
  have fits: "writerIndex b1 + length data \<le> length (buffer b1)"
    using b1(4) buf_okD [OF b1(2)] unfolding buf_ok_writable [OF b1(2)] by linarith
  then obtain v where v: "vec_write (buffer b1) (writerIndex b1) data = Inr v"
    using vec_write_exists by blast
  let ?b = "b1\<lparr>buffer := v\<rparr>"
  have ok: "buf_ok ?b" using b1 vec_write_Inr(1) [OF v] by (simp add: buf_ok_def)
  have add: "sz_add (writerIndex b1) (length data) = writerIndex b1 + length data"
    using b1 buf_okD [OF b1(2)] by (intro sz_add_eq) simp
  let ?b' = "?b\<lparr>writerIndex := writerIndex b1 + length data\<rparr>"
  have "buf_ok ?b'"
    using b1 vec_write_Inr(1) [OF v] by (auto simp: buf_ok_def)
  moreover have "content ?b' = content b1 @ data"
  proof -
    have le: "readerIndex b1 \<le> writerIndex b1" using buf_okD [OF b1(2)] by simp
    have "take (writerIndex b1 + length data) v = take (writerIndex b1) (buffer b1) @ data"
      using vec_write_Inr(2,3) [OF v] by (simp add: take_add)
    then have "drop (readerIndex b1) (take (writerIndex b1 + length data) v) =
        drop (readerIndex b1) (take (writerIndex b1) (buffer b1)) @ data"
      using le b1 by (simp add: buf_okD(2))
    then show ?thesis using le by (simp add: content_def drop_take)
  qed
  ultimately show ?thesis
    using b1 v ok add vec_write_Inr(1) [OF v]
    by (simp add: Buffer_append_def hasWritten_def)
qed

lemma Buffer_append_too_long:
  assumes ok: "buf_ok b" and len: "length data \<le> max_size" and no: "\<not> can_append (length data) b"
  shows "Buffer_append data b = Inl Length_Error"
proof -
  let ?n = "length data"
  have sums: "sz_add (writableBytes b) (readerIndex b) = writableBytes b + readerIndex b"
    "sz_add ?n 8 = ?n + 8" "sz_add (writerIndex b) ?n = writerIndex b + ?n"
    using ok len buf_okD [OF ok] by (auto simp: sz_add_def)
  have "writableBytes b < ?n" "writableBytes b + readerIndex b < ?n + 8"
    "max_size < writerIndex b + ?n"
    using no buf_okD [OF ok] unfolding can_append_def kCheapPrepend_def buf_ok_writable [OF ok]
    by linarith+
  with sums show ?thesis
    by (simp add: Buffer_append_def ensureWritableBytes_def makeSpace_def prependableBytes_def
        kCheapPrepend_def vec_resize_def)
qed

lemma Buffer_append_sound:
  assumes "buf_ok b" and "length data \<le> max_size" and "Buffer_append data b = Inr b'"
  shows "buf_ok b'" "content b' = content b @ data"
proof -
  have "can_append (length data) b"
    using Buffer_append_too_long [OF assms(1,2)] assms(3) by force
  from Buffer_append_ok [OF assms(1) this] assms(3)
  show "buf_ok b'" "content b' = content b @ data" by auto
qed

section \<open>The interface used by the connection layer\<close>

text \<open>
  What a byte queue promises: appending a chunk extends the content at the end, taking \<open>n\<close> bytes
  returns and removes the first \<open>n\<close>. From these laws alone, any run of appends and takes delivers
  the bytes in the order in which they were put in.
\<close>

datatype bq_op = Put "char list" | Take nat

fun bq_run :: "(char list \<Rightarrow> 'b \<Rightarrow> 'b res) \<Rightarrow> (nat \<Rightarrow> 'b \<Rightarrow> (char list \<times> 'b) res) \<Rightarrow>
    bq_op list \<Rightarrow> 'b \<Rightarrow> (char list \<times> 'b) res" where
  "bq_run app tak [] b = Inr ([], b)"
| "bq_run app tak (Put d # ops) b = bind_res (app d b) (bq_run app tak ops)"
| "bq_run app tak (Take n # ops) b =
     bind_res (tak n b) (\<lambda>(out, b'). bind_res (bq_run app tak ops b')
       (\<lambda>(outs, b''). Inr (out @ outs, b'')))"

fun bq_input :: "bq_op list \<Rightarrow> char list" where
  "bq_input [] = []"
| "bq_input (Put d # ops) = d @ bq_input ops"
| "bq_input (Take n # ops) = bq_input ops"

text \<open>A run is feasible from \<open>n\<close> readable bytes when no take asks for more than is readable.\<close>

fun bq_feasible :: "nat \<Rightarrow> bq_op list \<Rightarrow> bool" where
  "bq_feasible n [] = True"
| "bq_feasible n (Put d # ops) = bq_feasible (n + length d) ops"
| "bq_feasible n (Take k # ops) \<longleftrightarrow> k \<le> n \<and> bq_feasible (n - k) ops"

locale byte_queue =
  fixes invar :: "'b \<Rightarrow> bool"
    and cont :: "'b \<Rightarrow> char list"
    and used :: "'b \<Rightarrow> nat"
    and app :: "char list \<Rightarrow> 'b \<Rightarrow> 'b res"
    and tak :: "nat \<Rightarrow> 'b \<Rightarrow> (char list \<times> 'b) res"
  assumes app_law: "invar b \<Longrightarrow> used b + length d \<le> max_size \<Longrightarrow>
      \<exists>b'. app d b = Inr b' \<and> invar b' \<and> cont b' = cont b @ d \<and> used b' \<le> used b + length d"
    and tak_law: "invar b \<Longrightarrow> n \<le> length (cont b) \<Longrightarrow>
      \<exists>b'. tak n b = Inr (take n (cont b), b') \<and> invar b' \<and> cont b' = drop n (cont b) \<and>
        used b' \<le> used b"
begin

lemma run_fifo:
  "invar b \<Longrightarrow> bq_feasible (length (cont b)) ops \<Longrightarrow> used b + length (bq_input ops) \<le> max_size \<Longrightarrow>
   \<exists>outs b'. bq_run app tak ops b = Inr (outs, b') \<and> invar b' \<and>
     cont b @ bq_input ops = outs @ cont b'"
proof (induction ops arbitrary: b)
  case Nil
  then show ?case by simp
next
  case (Cons a ops)
  show ?case
  proof (cases a)
    case (Put d)
    with Cons.prems app_law [of b d] obtain b1 where b1: "app d b = Inr b1" "invar b1"
      "cont b1 = cont b @ d" "used b1 \<le> used b + length d" by auto
    with Cons.IH [of b1] Cons.prems Put show ?thesis by force
  next
    case (Take n)
    with Cons.prems tak_law [of b n] obtain b1 where b1: "tak n b = Inr (take n (cont b), b1)"
      "invar b1" "cont b1 = drop n (cont b)" "used b1 \<le> used b" by auto
    with Cons.IH [of b1] Cons.prems Take obtain outs b' where
      run: "bq_run app tak ops b1 = Inr (outs, b')" "invar b'"
      and eq: "drop n (cont b) @ bq_input ops = outs @ cont b'" by auto
    have "cont b @ bq_input ops = take n (cont b) @ outs @ cont b'"
      using eq by (metis append.assoc append_take_drop_id)
    with run b1 Take show ?thesis by auto
  qed
qed

end

text \<open>The space a buffer has used: its writer index, at least the reserved prefix.\<close>

definition buf_used :: "Buffer \<Rightarrow> nat" where
  "buf_used b = max kCheapPrepend (writerIndex b)"

lemma retrieve_used: "retrieve len b = Inr b' \<Longrightarrow> buf_used b' \<le> buf_used b"
  by (auto simp: retrieve_def retrieveAll_def buf_used_def res_simps)

interpretation nb: byte_queue buf_ok content buf_used Buffer_append retrieveAsString
proof unfold_locales
  fix b :: Buffer and d :: "char list"
  assume "buf_ok b" "buf_used b + length d \<le> max_size"
  moreover from this have "can_append (length d) b"
    by (auto simp: can_append_def buf_used_def max_def split: if_splits)
  ultimately obtain b' where "Buffer_append d b = Inr b'" "buf_ok b'" "content b' = content b @ d"
      "writerIndex b' \<le> writerIndex b + length d"
    using Buffer_append_ok by blast
  then show "\<exists>b'. Buffer_append d b = Inr b' \<and> buf_ok b' \<and> content b' = content b @ d \<and>
      buf_used b' \<le> buf_used b + length d"
    by (auto simp: buf_used_def max_def)
next
  fix b n
  assume "buf_ok b" "n \<le> length (content b)"
  then show "\<exists>b'. retrieveAsString n b = Inr (take n (content b), b') \<and> buf_ok b' \<and>
      content b' = drop n (content b) \<and> buf_used b' \<le> buf_used b"
    using retrieve_ok [of b n] retrieve_used [of n b]
    by (auto simp: retrieveAsString_def mem_read_content length_content)
qed

section \<open>Integers: what goes in comes out\<close>

lemma of_nat_htobe_mem_val:
  assumes "length m = n" and "LENGTH('a::len) = 8 * n"
  shows "htobe bo n (unat (of_nat (mem_val bo m) :: 'a word)) = le_val (rev m)"
proof -
  have "mem_val bo m < 256 ^ n"
    using le_val_bound [of m] le_val_bound [of "rev m"] assms(1)
    by (cases bo) (simp_all add: mem_val_def)
  with assms show ?thesis
    using unat_of_nat_bytes [of "mem_val bo m" n, where 'a = 'a] by (simp add: htobe_mem_val)
qed

lemma peekInt_ok:
  assumes "buf_ok b"
  shows "8 \<le> length (content b) \<Longrightarrow> peekInt64 bo b = Inr (of_nat (le_val (rev (take 8 (content b)))))"
    "4 \<le> length (content b) \<Longrightarrow> peekInt32 bo b = Inr (of_nat (le_val (rev (take 4 (content b)))))"
    "2 \<le> length (content b) \<Longrightarrow> peekInt16 bo b = Inr (of_nat (le_val (rev (take 2 (content b)))))"
  using assms
  by (simp_all add: peekInt64_def peekInt32_def peekInt16_def mem_read_content
      endian_defs of_nat_htobe_mem_val length_content)

lemma readInt_ok:
  assumes "buf_ok b"
  shows "8 \<le> length (content b) \<Longrightarrow> \<exists>b'. readInt64 bo b = Inr (of_nat (le_val (rev (take 8 (content b)))), b')
      \<and> buf_ok b' \<and> content b' = drop 8 (content b)"
    "4 \<le> length (content b) \<Longrightarrow> \<exists>b'. readInt32 bo b = Inr (of_nat (le_val (rev (take 4 (content b)))), b')
      \<and> buf_ok b' \<and> content b' = drop 4 (content b)"
    "2 \<le> length (content b) \<Longrightarrow> \<exists>b'. readInt16 bo b = Inr (of_nat (le_val (rev (take 2 (content b)))), b')
      \<and> buf_ok b' \<and> content b' = drop 2 (content b)"
  using retrieve_ok [OF assms] peekInt_ok [OF assms]
  by (force simp: readInt64_def readInt32_def readInt16_def
      retrieveInt64_def retrieveInt32_def retrieveInt16_def)+

lemma be_bytes_val:
  "of_nat (le_val (le_bytes 8 (unat (x64 :: 64 word)))) = x64"
  "of_nat (le_val (le_bytes 4 (unat (x32 :: 32 word)))) = x32"
  "of_nat (le_val (le_bytes 2 (unat (x16 :: 16 word)))) = x16"
  using unat_word_bytes_inst by (simp_all add: le_val_le_bytes del: unat_word_bytes_inst)

lemma prependInt_content:
  assumes "buf_ok b"
  shows "8 \<le> readerIndex b \<Longrightarrow> \<exists>b'. prependInt64 bo x64 b = Inr b' \<and> buf_ok b' \<and>
      content b' = be_bytes 8 (unat x64) @ content b"
    "4 \<le> readerIndex b \<Longrightarrow> \<exists>b'. prependInt32 bo x32 b = Inr b' \<and> buf_ok b' \<and>
      content b' = be_bytes 4 (unat x32) @ content b"
    "2 \<le> readerIndex b \<Longrightarrow> \<exists>b'. prependInt16 bo x16 b = Inr b' \<and> buf_ok b' \<and>
      content b' = be_bytes 2 (unat x16) @ content b"
  using prepend_ok [OF assms, of "be_bytes 8 (unat x64)"]
    prepend_ok [OF assms, of "be_bytes 4 (unat x32)"]
    prepend_ok [OF assms, of "be_bytes 2 (unat x16)"]
  by (simp_all add: prependInt64_def prependInt32_def prependInt16_def mem_bytes_htobe)

section \<open>Reading from the kernel\<close>

lemma readFd_ok:
  assumes ok: "buf_ok b" and data: "readv (readFd_iov b) = Inr data"
    and kernel: "length data \<le> sum_list (readFd_iov b)"
    and fit: "length (buffer b) + extrabuf_size \<le> max_size"
  shows "\<exists>b'. readFd readv b = Inr (int (length data), None, b') \<and> buf_ok b' \<and>
    content b' = content b @ data"
proof -
  let ?w = "length (buffer b) - writerIndex b"
  have w: "writableBytes b = ?w" using ok by simp
  have wr: "writerIndex b + length (take ?w data) \<le> length (buffer b)"
    using buf_okD(2) [OF ok] unfolding length_take by linarith
  then obtain v where v: "vec_write (buffer b) (writerIndex b) (take ?w data) = Inr v"
    using vec_write_exists by blast
  let ?b = "b\<lparr>buffer := v, writerIndex := writerIndex b + length (take ?w data)\<rparr>"
  have ok': "buf_ok ?b"
    using ok wr vec_write_Inr(1) [OF v] by (auto simp: buf_ok_def)
  have cont: "content ?b = content b @ take ?w data"
  proof -
    have le: "readerIndex b \<le> writerIndex b" "writerIndex b \<le> length (buffer b)"
      using buf_okD [OF ok] by simp_all
    have "take (writerIndex b + length (take ?w data)) v = take (writerIndex b) (buffer b) @ take ?w data"
      unfolding take_add using vec_write_Inr(2,3) [OF v] by simp
    then have "drop (readerIndex b) (take (writerIndex b + length (take ?w data)) v) =
        drop (readerIndex b) (take (writerIndex b) (buffer b)) @ take ?w data"
      using le by simp
    then show ?thesis using le by (simp add: content_def drop_take)
  qed
  show ?thesis
  proof (cases "length data \<le> ?w")
    case True
    have "sz_add (writerIndex b) (length data) = writerIndex b + length data"
      using True buf_okD [OF ok] by (intro sz_add_eq) simp
    with True data w v ok' cont show ?thesis
      by (simp add: readFd_def Let_def)
  next
    case False
    have full: "writerIndex b + length (take ?w data) = length v"
      using False buf_okD [OF ok] vec_write_Inr(1) [OF v] by simp
    have "length (drop ?w data) \<le> extrabuf_size"
      using False kernel w by (auto simp: readFd_iov_def Let_def split: if_splits)
    then have "can_append (length (drop ?w data)) ?b"
      using fit vec_write_Inr(1) [OF v] full by (auto simp: can_append_def)
    from Buffer_append_ok [OF ok' this] full cont obtain b' where
      "Buffer_append (drop ?w data) (b\<lparr>buffer := v, writerIndex := length v\<rparr>) = Inr b'"
      "buf_ok b'" "content b' = content b @ data"
      by auto
    with False data w v kernel show ?thesis
      by (simp add: readFd_def Let_def)
  qed
qed

section \<open>Properties\<close>

lemmas buffer_eval =
  Buffer_append_def ensureWritableBytes_def makeSpace_def hasWritten_def retrieveAsString_def
  retrieve_def retrieveAll_def readableBytes_def writableBytes_def prependableBytes_def
  kCheapPrepend_def sz_add_def sz_sub_def vec_write_def vec_resize_def mem_read_def Let_def

definition buffer_example :: Buffer where
  "buffer_example = \<lparr>buffer = CHR 0x00 # CHR 0x00 # CHR 0x00 # CHR 0x00 # CHR 0x00 # CHR 0x00 #
     CHR 0x00 # CHR 0x00 # ''xyz'', readerIndex = 8, writerIndex = 8\<rparr>"

lemma buffer_example_ok: "buf_ok buffer_example" "content buffer_example = []"
  by (simp_all add: buffer_example_def buf_ok_def content_def kCheapPrepend_def)

text \<open>
  C9. The buffer is a first-in first-out byte queue: every sequence of \<^verbatim>\<open>append\<close> and
  \<^verbatim>\<open>retrieveAsString\<close> calls that never asks for more than is readable and stays within the largest
  vector size returns; the bytes taken out followed by the bytes still readable are the bytes
  that were readable before followed by all bytes put in, in order, and the index invariant
  holds again.
\<close>

theorem buffer_fifo:
  assumes "buf_ok b" and "bq_feasible (length (content b)) ops"
    and "buf_used b + length (bq_input ops) \<le> max_size"
  shows "\<exists>outs b'. bq_run Buffer_append retrieveAsString ops b = Inr (outs, b') \<and> buf_ok b' \<and>
    content b @ bq_input ops = outs @ content b'"
  using assms by (rule nb.run_fifo)

theorem buffer_fifo_witness:
  "\<exists>outs b'. bq_run Buffer_append retrieveAsString [Put ''ab'', Take 1, Put ''cde'', Take 3] buffer_example
      = Inr (outs, b') \<and> buf_ok b' \<and> ''abcde'' = outs @ content b'"
  using buffer_fifo [OF buffer_example_ok(1), of "[Put ''ab'', Take 1, Put ''cde'', Take 3]"]
  by (simp add: buffer_example_ok(2) buf_used_def kCheapPrepend_def) (simp add: buffer_example_def)

text \<open>
  \<^verbatim>\<open>append\<close> never fails an assertion and never writes out of bounds: on a well-formed buffer it
  either extends the readable bytes by exactly the data and keeps the invariant, or, when the
  vector would exceed its largest size, throws \<^verbatim>\<open>length_error\<close>.
\<close>

theorem buffer_append_exact:
  assumes "buf_ok b" and "length data \<le> max_size"
  shows "if can_append (length data) b
    then \<exists>b'. Buffer_append data b = Inr b' \<and> buf_ok b' \<and> content b' = content b @ data
    else Buffer_append data b = Inl Length_Error"
  using Buffer_append_ok [OF assms(1)] Buffer_append_too_long [OF assms] by auto

theorem buffer_append_exact_witness:
  "\<exists>b'. Buffer_append ''abcdefg'' buffer_example = Inr b' \<and> buf_ok b' \<and> content b' = ''abcdefg''"
  using buffer_append_exact [OF buffer_example_ok(1), of "''abcdefg''"] buffer_example_ok(2)
  by (simp add: can_append_def buffer_example_def)

text \<open>
  Integers survive the wire between hosts of any byte order: the 64-, 32- and 16-bit values
  appended by one host are read back, in order, by a host that received the same bytes.
\<close>

theorem buffer_int_roundtrip:
  assumes "buf_ok b" and "content b = []" and "buf_used b + 14 \<le> max_size"
  shows "\<exists>b1 b2 b3. appendInt64 bo x b = Inr b1 \<and> appendInt32 bo y b1 = Inr b2 \<and>
    appendInt16 bo z b2 = Inr b3 \<and>
    (\<forall>c. buf_ok c \<and> content c = content b3 \<longrightarrow>
      (\<exists>c1 c2 c3. readInt64 bo' c = Inr (x, c1) \<and> readInt32 bo' c1 = Inr (y, c2) \<and>
        readInt16 bo' c2 = Inr (z, c3) \<and> content c3 = []))"
proof -
  obtain b1 where b1: "appendInt64 bo x b = Inr b1" "buf_ok b1" "buf_used b1 + 6 \<le> max_size"
      "content b1 = be_bytes 8 (unat x)"
    using nb.app_law [of b "be_bytes 8 (unat x)"] assms
    by (auto simp: appendInt64_def mem_bytes_htobe)
  obtain b2 where b2: "appendInt32 bo y b1 = Inr b2" "buf_ok b2" "buf_used b2 + 2 \<le> max_size"
      "content b2 = be_bytes 8 (unat x) @ be_bytes 4 (unat y)"
    using nb.app_law [of b1 "be_bytes 4 (unat y)"] b1
    by (auto simp: appendInt32_def mem_bytes_htobe)
  obtain b3 where b3: "appendInt16 bo z b2 = Inr b3"
      "content b3 = be_bytes 8 (unat x) @ be_bytes 4 (unat y) @ be_bytes 2 (unat z)"
    using nb.app_law [of b2 "be_bytes 2 (unat z)"] b2
    by (auto simp: appendInt16_def mem_bytes_htobe)
  have "\<exists>c1 c2 c3. readInt64 bo' c = Inr (x, c1) \<and> readInt32 bo' c1 = Inr (y, c2) \<and>
      readInt16 bo' c2 = Inr (z, c3) \<and> content c3 = []"
    if c: "buf_ok c" "content c = content b3" for c
  proof -
    obtain c1 where c1: "readInt64 bo' c = Inr (x, c1)" "buf_ok c1"
        "content c1 = be_bytes 4 (unat y) @ be_bytes 2 (unat z)"
      using readInt_ok(1) [OF c(1), of bo'] c(2) b3(2) by (auto simp: be_bytes_val)
    obtain c2 where c2: "readInt32 bo' c1 = Inr (y, c2)" "buf_ok c2" "content c2 = be_bytes 2 (unat z)"
      using readInt_ok(2) [OF c1(2), of bo'] c1(3) by (auto simp: be_bytes_val)
    obtain c3 where "readInt16 bo' c2 = Inr (z, c3)" "content c3 = []"
      using readInt_ok(3) [OF c2(2), of bo'] c2(3) by (auto simp: be_bytes_val)
    with c1 c2 show ?thesis by blast
  qed
  with b1(1) b2(1) b3(1) show ?thesis by blast
qed

theorem buffer_int_roundtrip_witness:
  "\<exists>b1 b2 b3. appendInt64 Little_Endian 258 buffer_example = Inr b1 \<and>
    appendInt32 Little_Endian (-5) b1 = Inr b2 \<and> appendInt16 Little_Endian 7 b2 = Inr b3 \<and>
    (\<forall>c. buf_ok c \<and> content c = content b3 \<longrightarrow>
      (\<exists>c1 c2 c3. readInt64 Big_Endian c = Inr (258, c1) \<and> readInt32 Big_Endian c1 = Inr (-5, c2) \<and>
        readInt16 Big_Endian c2 = Inr (7, c3) \<and> content c3 = []))"
  by (rule buffer_int_roundtrip [OF buffer_example_ok])
    (simp add: buf_used_def buffer_example_def kCheapPrepend_def)

text \<open>
  \<^verbatim>\<open>readFd\<close> loses nothing: whatever the kernel delivers within the offered iovecs, even more than
  the writable space, is appended to the readable bytes, and the number of bytes is returned.
\<close>

theorem buffer_readFd_appends:
  assumes "buf_ok b" and "readv (readFd_iov b) = Inr data"
    and "length data \<le> sum_list (readFd_iov b)"
    and "length (buffer b) + extrabuf_size \<le> max_size"
  shows "\<exists>b'. readFd readv b = Inr (int (length data), None, b') \<and> buf_ok b' \<and>
    content b' = content b @ data"
  using assms by (rule readFd_ok)

theorem buffer_readFd_appends_witness:
  "\<exists>b'. readFd (\<lambda>iov. Inr ''hello world'') buffer_example = Inr (11, None, b') \<and> buf_ok b' \<and>
    content b' = ''hello world''"
proof -
  have "writableBytes buffer_example = 3" "length (buffer buffer_example) = 11"
    by (simp_all add: buffer_example_def writableBytes_def sz_sub_def)
  then show ?thesis
    using buffer_readFd_appends [OF buffer_example_ok(1), of "\<lambda>iov. Inr ''hello world''" "''hello world''"]
    by (simp add: buffer_example_ok(2) readFd_iov_def extrabuf_size_def)
qed

end
