(* ===== verification/NetConnection.thy ===== *)
theory NetConnection
  imports NetPoller NetBuffer
begin

text \<open>
  TCP connections (\<^verbatim>\<open>network/TcpConnection\<close>): the life cycle, sending with the output buffer, and the
  handlers of the connection's channel. The channel and its poller are those of theory \<open>NetPoller\<close>,
  reached through the interface \<open>io_channel\<close>. What leaves the object is recorded: the bytes the kernel
  accepted, the shutdown of the write side, and the callbacks and queued functors in order. The
  answers of the kernel to \<^verbatim>\<open>write\<close> and \<^verbatim>\<open>readv\<close> are arguments.
\<close>

section \<open>State\<close>

datatype StateE = kDisconnected | kConnecting | kConnected | kDisconnecting

text \<open>
  \<open>Fx_Connection up\<close> is the connection callback (\<open>up\<close>: what \<^verbatim>\<open>connected()\<close> answers then); \<open>Fx_Queue_Send\<close>,
  \<open>Fx_Queue_ForceClose\<close>, \<open>Fx_Queue_WriteComplete\<close>, \<open>Fx_Run_Shutdown\<close>, \<open>Fx_Run_StartRead\<close> and
  \<open>Fx_Run_StopRead\<close> are functors given to the loop.
\<close>

datatype conn_effect =
    Fx_Connection bool
  | Fx_Message
  | Fx_Close
  | Fx_Queue_WriteComplete
  | Fx_Queue_Send string
  | Fx_Queue_ForceClose
  | Fx_Run_Shutdown
  | Fx_Run_StartRead
  | Fx_Run_StopRead

record TcpConnection =
  conn_name :: string
  state :: StateE
  reading :: bool
  conn_chan :: nat
  conn_poller :: poller
  inputBuffer :: Buffer
  outputBuffer :: Buffer
  writeCompleteCallback :: bool
  sent :: "char list"
  write_shut :: bool
  effects :: "conn_effect list"

definition conn_fx :: "conn_effect list \<Rightarrow> TcpConnection \<Rightarrow> TcpConnection" where
  "conn_fx es w = w\<lparr>effects := effects w @ es\<rparr>"

text \<open>
  The constructor: channel \<open>p\<close> is a new object of the loop's poller for the socket \<open>fd\<close>, and the two
  buffers are default-constructed.
\<close>

definition TcpConnection_ctor :: "string \<Rightarrow> int \<Rightarrow> nat \<Rightarrow> poller \<Rightarrow> bool \<Rightarrow> TcpConnection res" where
  "TcpConnection_ctor nameArg sockfd p po wcc =
     bind_res (Buffer_ctor kInitialSize) (\<lambda>b.
       Inr \<lparr>conn_name = nameArg, state = kConnecting, reading = True, conn_chan = p,
            conn_poller = set_chan p (Channel_ctor sockfd) po, inputBuffer = b, outputBuffer = b,
            writeCompleteCallback = wcc, sent = [], write_shut = False, effects = []\<rparr>)"

definition TcpConnection_dtor :: "TcpConnection \<Rightarrow> unit res" where
  "TcpConnection_dtor w = cxx_assert (state w = kDisconnected) (Inr ())"

definition connected :: "TcpConnection \<Rightarrow> bool" where
  "connected w \<longleftrightarrow> state w = kConnected"

definition disconnected :: "TcpConnection \<Rightarrow> bool" where
  "disconnected w \<longleftrightarrow> state w = kDisconnected"

definition stateToString :: "TcpConnection \<Rightarrow> string" where
  "stateToString w = (case state w of kDisconnected \<Rightarrow> ''kDisconnected'' | kConnecting \<Rightarrow> ''kConnecting''
     | kConnected \<Rightarrow> ''kConnected'' | kDisconnecting \<Rightarrow> ''kDisconnecting'')"

text \<open>A switch of the connection's channel.\<close>

definition on_chan :: "(nat \<Rightarrow> poller \<Rightarrow> poller res) \<Rightarrow> TcpConnection \<Rightarrow> TcpConnection res" where
  "on_chan op w = bind_res (op (conn_chan w) (conn_poller w)) (\<lambda>po. Inr (w\<lparr>conn_poller := po\<rparr>))"

type_synonym kfault = "epoll_op \<Rightarrow> int \<Rightarrow> bool"

section \<open>Closing\<close>

definition handleClose :: "kfault \<Rightarrow> TcpConnection \<Rightarrow> TcpConnection res" where
  "handleClose kf w =
     cxx_assert (state w = kConnected \<or> state w = kDisconnecting)
       (bind_res (on_chan (disableAll kf) (w\<lparr>state := kDisconnected\<rparr>)) (\<lambda>w1.
          Inr (conn_fx [Fx_Connection (connected w1), Fx_Close] w1)))"

definition handleError :: "TcpConnection \<Rightarrow> TcpConnection" where
  "handleError w = w"

definition forceCloseInLoop :: "kfault \<Rightarrow> TcpConnection \<Rightarrow> TcpConnection res" where
  "forceCloseInLoop kf w =
     (if state w = kConnected \<or> state w = kDisconnecting then handleClose kf w else Inr w)"

definition forceClose :: "TcpConnection \<Rightarrow> TcpConnection" where
  "forceClose w =
     (if state w = kConnected \<or> state w = kDisconnecting
      then conn_fx [Fx_Queue_ForceClose] (w\<lparr>state := kDisconnecting\<rparr>) else w)"

definition forceCloseWithDelay :: "TcpConnection \<Rightarrow> TcpConnection" where
  "forceCloseWithDelay w =
     (if state w = kConnected \<or> state w = kDisconnecting then w\<lparr>state := kDisconnecting\<rparr> else w)"

definition connectEstablished :: "kfault \<Rightarrow> TcpConnection \<Rightarrow> TcpConnection res" where
  "connectEstablished kf w =
     cxx_assert (state w = kConnecting)
       (bind_res (on_chan (enableReading kf) (w\<lparr>state := kConnected\<rparr>)) (\<lambda>w1.
          Inr (conn_fx [Fx_Connection (connected w1)] w1)))"

definition connectDestroyed :: "kfault \<Rightarrow> TcpConnection \<Rightarrow> TcpConnection res" where
  "connectDestroyed kf w =
     bind_res (if state w = kConnected
               then bind_res (on_chan (disableAll kf) (w\<lparr>state := kDisconnected\<rparr>))
                      (\<lambda>w1. Inr (conn_fx [Fx_Connection (connected w1)] w1))
               else Inr w)
       (on_chan (Channel_remove kf))"

section \<open>Shutdown and reading\<close>

definition shutdownInLoop :: "TcpConnection \<Rightarrow> TcpConnection res" where
  "shutdownInLoop w =
     bind_res (chan (conn_poller w) (conn_chan w)) (\<lambda>c.
       Inr (if \<not> isWriting c then w\<lparr>write_shut := True\<rparr> else w))"

definition conn_shutdown :: "TcpConnection \<Rightarrow> TcpConnection" where
  "conn_shutdown w =
     (if state w = kConnected then conn_fx [Fx_Run_Shutdown] (w\<lparr>state := kDisconnecting\<rparr>) else w)"

definition startRead :: "TcpConnection \<Rightarrow> TcpConnection" where
  "startRead w = conn_fx [Fx_Run_StartRead] w"

definition stopRead :: "TcpConnection \<Rightarrow> TcpConnection" where
  "stopRead w = conn_fx [Fx_Run_StopRead] w"

definition startReadInLoop :: "kfault \<Rightarrow> TcpConnection \<Rightarrow> TcpConnection res" where
  "startReadInLoop kf w =
     bind_res (chan (conn_poller w) (conn_chan w)) (\<lambda>c.
       if \<not> reading w \<or> \<not> isReading c
       then bind_res (on_chan (enableReading kf) w) (\<lambda>w1. Inr (w1\<lparr>reading := True\<rparr>)) else Inr w)"

definition stopReadInLoop :: "kfault \<Rightarrow> TcpConnection \<Rightarrow> TcpConnection res" where
  "stopReadInLoop kf w =
     bind_res (chan (conn_poller w) (conn_chan w)) (\<lambda>c.
       if reading w \<or> isReading c
       then bind_res (on_chan (disableReading kf) w) (\<lambda>w1. Inr (w1\<lparr>reading := False\<rparr>)) else Inr w)"

section \<open>Sending\<close>

text \<open>What \<^verbatim>\<open>write\<close> answers: the number of bytes taken, or an error.\<close>

datatype write_result = Wrote nat | Write_Error int

definition EWOULDBLOCK :: int where "EWOULDBLOCK = 11"
definition EPIPE :: int where "EPIPE = 32"
definition ECONNRESET :: int where "ECONNRESET = 104"

text \<open>The direct write: the number of bytes written, and whether the connection is known to be broken.\<close>

definition direct_write :: "write_result \<Rightarrow> nat \<times> bool" where
  "direct_write wr =
     (case wr of Wrote n \<Rightarrow> (n, False)
      | Write_Error e \<Rightarrow> (0, e \<noteq> EWOULDBLOCK \<and> (e = EPIPE \<or> e = ECONNRESET)))"

text \<open>The bytes written directly, and the write-complete callback when nothing is left.\<close>

definition after_direct :: "write_result \<Rightarrow> nat \<Rightarrow> nat \<Rightarrow> char list \<Rightarrow> TcpConnection \<Rightarrow> TcpConnection" where
  "after_direct wr nwrote remaining data w =
     (let w' = w\<lparr>sent := sent w @ take nwrote data\<rparr>
      in case wr of
           Wrote _ \<Rightarrow> if remaining = 0 \<and> writeCompleteCallback w then conn_fx [Fx_Queue_WriteComplete] w' else w'
         | Write_Error _ \<Rightarrow> w')"

definition sendInLoop :: "kfault \<Rightarrow> write_result \<Rightarrow> char list \<Rightarrow> TcpConnection \<Rightarrow> TcpConnection res" where
  "sendInLoop kf wr data w =
     (if state w = kDisconnected then Inr w
      else bind_res (chan (conn_poller w) (conn_chan w)) (\<lambda>c.
        let direct = (\<not> isWriting c \<and> readableBytes (outputBuffer w) = 0);
            (nwrote, faultError) = (if direct then direct_write wr else (0, False));
            remaining = sz_sub (length data) nwrote;
            w1 = (if direct then after_direct wr nwrote remaining data w else w)
        in if \<not> faultError \<and> remaining > 0
           then bind_res (mem_read data nwrote remaining) (\<lambda>rest.
                bind_res (Buffer_append rest (outputBuffer w1)) (\<lambda>ob.
                let w2 = w1\<lparr>outputBuffer := ob\<rparr> in
                if \<not> isWriting c then on_chan (enableWriting kf) w2 else Inr w2))
           else Inr w1))"

text \<open>\<^verbatim>\<open>send(Buffer *)\<close> in the loop's thread and from another thread; the caller's buffer is emptied.\<close>

definition conn_send :: "kfault \<Rightarrow> bool \<Rightarrow> write_result \<Rightarrow> Buffer \<Rightarrow> TcpConnection \<Rightarrow> (TcpConnection \<times> Buffer) res" where
  "conn_send kf inLoopThread wr buf w =
     (if state w = kConnected
      then (if inLoopThread
            then bind_res (mem_read (buffer buf) (readerIndex buf) (readableBytes buf)) (\<lambda>data.
                 bind_res (sendInLoop kf wr data w) (\<lambda>w1. Inr (w1, retrieveAll buf)))
            else bind_res (retrieveAllAsString buf) (\<lambda>(m, buf'). Inr (conn_fx [Fx_Queue_Send m] w, buf')))
      else Inr (w, buf))"

definition handleWrite :: "kfault \<Rightarrow> write_result \<Rightarrow> TcpConnection \<Rightarrow> TcpConnection res" where
  "handleWrite kf wr w =
     bind_res (chan (conn_poller w) (conn_chan w)) (\<lambda>c.
       if isWriting c
       then (case wr of
               Wrote n \<Rightarrow>
                 if n > 0
                 then bind_res (mem_read (buffer (outputBuffer w)) (readerIndex (outputBuffer w)) n) (\<lambda>out.
                      bind_res (retrieve n (outputBuffer w)) (\<lambda>ob.
                      let w1 = w\<lparr>outputBuffer := ob, sent := sent w @ out\<rparr> in
                      if readableBytes ob = 0
                      then bind_res (on_chan (disableWriting kf) w1) (\<lambda>w2.
                           let w3 = (if writeCompleteCallback w2 then conn_fx [Fx_Queue_WriteComplete] w2 else w2) in
                           if state w3 = kDisconnecting then shutdownInLoop w3 else Inr w3)
                      else Inr w1))
                 else Inr w
             | Write_Error _ \<Rightarrow> Inr w)
       else Inr w)"

section \<open>Receiving\<close>

text \<open>The message callback is what it does to the input buffer.\<close>

definition handleRead :: "kfault \<Rightarrow> (nat list \<Rightarrow> int + char list) \<Rightarrow> (Buffer \<Rightarrow> Buffer res) \<Rightarrow> TcpConnection \<Rightarrow> TcpConnection res" where
  "handleRead kf readv messageCallback w =
     bind_res (readFd readv (inputBuffer w)) (\<lambda>(n, savedErrno, ib).
       let w1 = w\<lparr>inputBuffer := ib\<rparr> in
       if n > 0
       then bind_res (messageCallback ib) (\<lambda>ib'. Inr (conn_fx [Fx_Message] (w1\<lparr>inputBuffer := ib'\<rparr>)))
       else if n = 0 then handleClose kf w1
       else Inr (handleError w1))"

definition defaultMessageCallback :: "Buffer \<Rightarrow> Buffer res" where
  "defaultMessageCallback buf = Inr (retrieveAll buf)"

text \<open>The callbacks of one \<^verbatim>\<open>handleEvent\<close> of the connection's channel, in the order of the dispatch.\<close>

fun run_callbacks ::
    "kfault \<Rightarrow> (nat list \<Rightarrow> int + char list) \<Rightarrow> (Buffer \<Rightarrow> Buffer res) \<Rightarrow> write_result \<Rightarrow> callback list \<Rightarrow>
     TcpConnection \<Rightarrow> TcpConnection res" where
  "run_callbacks kf readv mc wr [] w = Inr w"
| "run_callbacks kf readv mc wr (cb # cbs) w =
     bind_res (case cb of Cb_Close \<Rightarrow> handleClose kf w
               | Cb_Read \<Rightarrow> handleRead kf readv mc w
               | Cb_Write \<Rightarrow> handleWrite kf wr w
               | Cb_Error \<Rightarrow> Inr (handleError w))
       (run_callbacks kf readv mc wr cbs)"

section \<open>The invariant\<close>

abbreviation writing :: "TcpConnection \<Rightarrow> bool" where
  "writing w \<equiv> chan_is isWriting (conn_poller w) (conn_chan w)"

abbreviation polling_reads :: "TcpConnection \<Rightarrow> bool" where
  "polling_reads w \<equiv> chan_is isReading (conn_poller w) (conn_chan w)"

abbreviation registered :: "TcpConnection \<Rightarrow> bool" where
  "registered w \<equiv> chan_is (\<lambda>c. ch_index c \<noteq> kNew) (conn_poller w) (conn_chan w)"

text \<open>
  The output buffer holds the bytes not yet written, and the loop polls for writability exactly
  while there are some; a closed connection polls for nothing.
\<close>

definition conn_inv :: "kfault \<Rightarrow> TcpConnection \<Rightarrow> bool" where
  "conn_inv kf w \<longleftrightarrow> poller_ok kf (conn_poller w) (conn_chan w) \<and> buf_ok (inputBuffer w) \<and> buf_ok (outputBuffer w) \<and>
     (state w = kConnecting \<longrightarrow> \<not> writing w \<and> \<not> polling_reads w \<and> content (outputBuffer w) = []) \<and>
     (state w = kConnected \<or> state w = kDisconnecting \<longrightarrow> registered w \<and> (writing w \<longleftrightarrow> content (outputBuffer w) \<noteq> [])) \<and>
     (state w = kDisconnected \<longrightarrow> registered w \<and> \<not> writing w \<and> \<not> polling_reads w)"

text \<open>Everything accepted for sending so far: written, or waiting.\<close>

definition out_stream :: "TcpConnection \<Rightarrow> char list" where
  "out_stream w = sent w @ content (outputBuffer w)"

text \<open>The calls of the connection callback and of the close callback, in order.\<close>

fun life_of :: "conn_effect list \<Rightarrow> conn_effect list" where
  "life_of [] = []"
| "life_of (Fx_Connection up # es) = Fx_Connection up # life_of es"
| "life_of (Fx_Close # es) = Fx_Close # life_of es"
| "life_of (_ # es) = life_of es"

definition life :: "TcpConnection \<Rightarrow> conn_effect list" where
  "life w = life_of (effects w)"

lemma life_of_append [simp]: "life_of (a @ b) = life_of a @ life_of b"
  by (induction a rule: life_of.induct) simp_all

section \<open>Every operation keeps the invariant\<close>

lemma conn_chanE:
  assumes "poller_ok kf (conn_poller w) (conn_chan w)"
  obtains c where "chan (conn_poller w) (conn_chan w) = Inr c" "map_of (chans (conn_poller w)) (conn_chan w) = Some c"
  using assms by (auto simp: poller_ok_def chan_is_def chan_def split: option.splits)

lemma conn_fx_simps [simp]:
  "state (conn_fx es w) = state w" "conn_poller (conn_fx es w) = conn_poller w" "conn_chan (conn_fx es w) = conn_chan w"
  "outputBuffer (conn_fx es w) = outputBuffer w" "inputBuffer (conn_fx es w) = inputBuffer w" "sent (conn_fx es w) = sent w"
  "reading (conn_fx es w) = reading w" "writeCompleteCallback (conn_fx es w) = writeCompleteCallback w"
  "write_shut (conn_fx es w) = write_shut w" "effects (conn_fx es w) = effects w @ es"
  "out_stream (conn_fx es w) = out_stream w" "conn_inv kf (conn_fx es w) = conn_inv kf w"
  by (simp_all add: conn_fx_def out_stream_def conn_inv_def)

text \<open>The channel switches, through the interface of the poller.\<close>

lemma conn_disableAll:
  assumes "poller_ok kf (conn_poller w) (conn_chan w)"
  shows "\<exists>po. on_chan (disableAll kf) w = Inr (w\<lparr>conn_poller := po\<rparr>) \<and> poller_ok kf po (conn_chan w) \<and>
    chan_is (\<lambda>c. ch_index c \<noteq> kNew) po (conn_chan w) \<and> \<not> chan_is isReading po (conn_chan w) \<and>
    \<not> chan_is isWriting po (conn_chan w)"
  using ep.disAll [OF assms] by (auto simp: on_chan_def)

lemma conn_enableWriting:
  assumes "poller_ok kf (conn_poller w) (conn_chan w)"
  shows "\<exists>po. on_chan (enableWriting kf) w = Inr (w\<lparr>conn_poller := po\<rparr>) \<and> poller_ok kf po (conn_chan w) \<and>
    chan_is (\<lambda>c. ch_index c \<noteq> kNew) po (conn_chan w) \<and> chan_is isWriting po (conn_chan w)"
  using ep.enW [OF assms] by (auto simp: on_chan_def)

lemma conn_disableWriting:
  assumes "poller_ok kf (conn_poller w) (conn_chan w)"
  shows "\<exists>po. on_chan (disableWriting kf) w = Inr (w\<lparr>conn_poller := po\<rparr>) \<and> poller_ok kf po (conn_chan w) \<and>
    chan_is (\<lambda>c. ch_index c \<noteq> kNew) po (conn_chan w) \<and> \<not> chan_is isWriting po (conn_chan w)"
  using ep.disW [OF assms] by (auto simp: on_chan_def)

lemma handleClose_ok:
  assumes inv: "conn_inv kf w" and st: "state w = kConnected \<or> state w = kDisconnecting"
  shows "\<exists>w'. handleClose kf w = Inr w' \<and> conn_inv kf w' \<and> state w' = kDisconnected \<and> out_stream w' = out_stream w \<and>
    effects w' = effects w @ [Fx_Connection False, Fx_Close]"
proof -
  let ?w = "w\<lparr>state := kDisconnected\<rparr>"
  have "poller_ok kf (conn_poller ?w) (conn_chan ?w)" using inv by (simp add: conn_inv_def)
  from conn_disableAll [OF this] obtain po where
    "on_chan (disableAll kf) ?w = Inr (?w\<lparr>conn_poller := po\<rparr>)" "poller_ok kf po (conn_chan w)"
    "chan_is (\<lambda>c. ch_index c \<noteq> kNew) po (conn_chan w)" "\<not> chan_is isReading po (conn_chan w)"
    "\<not> chan_is isWriting po (conn_chan w)" by auto
  with inv st show ?thesis
    by (auto simp: handleClose_def connected_def conn_inv_def out_stream_def)
qed

lemma shutdownInLoop_ok:
  assumes "conn_inv kf w"
  shows "\<exists>w'. shutdownInLoop w = Inr w' \<and> conn_inv kf w' \<and> state w' = state w \<and> out_stream w' = out_stream w \<and>
    effects w' = effects w \<and> outputBuffer w' = outputBuffer w \<and> (write_shut w' \<longleftrightarrow> write_shut w \<or> \<not> writing w)"
proof -
  have "poller_ok kf (conn_poller w) (conn_chan w)" using assms by (simp add: conn_inv_def)
  then obtain c where "chan (conn_poller w) (conn_chan w) = Inr c" "map_of (chans (conn_poller w)) (conn_chan w) = Some c"
    by (rule conn_chanE)
  with assms show ?thesis
    by (auto simp: shutdownInLoop_def chan_is_def conn_inv_def out_stream_def)
qed

text \<open>A message is dropped when the direct write shows that the peer is gone.\<close>

definition dropped :: "write_result \<Rightarrow> TcpConnection \<Rightarrow> bool" where
  "dropped wr w \<longleftrightarrow> state w = kDisconnected \<or> content (outputBuffer w) = [] \<and> snd (direct_write wr)"

text \<open>The kernel never takes more than it was given.\<close>

definition write_ok :: "write_result \<Rightarrow> nat \<Rightarrow> bool" where
  "write_ok wr len = (case wr of Wrote n \<Rightarrow> n \<le> len | Write_Error _ \<Rightarrow> True)"

lemma append_ok:
  assumes "buf_ok b" "buf_used b + length d \<le> max_size"
  shows "\<exists>b'. Buffer_append d b = Inr b' \<and> buf_ok b' \<and> content b' = content b @ d"
  using nb.app_law [OF assms] by blast

lemma after_direct_inv [simp]:
  "state (after_direct wr n r d w) = state w" "outputBuffer (after_direct wr n r d w) = outputBuffer w"
  "sent (after_direct wr n r d w) = sent w @ take n d" "conn_poller (after_direct wr n r d w) = conn_poller w"
  "conn_chan (after_direct wr n r d w) = conn_chan w" "conn_inv kf (after_direct wr n r d w) = conn_inv kf w"
  "life (after_direct wr n r d w) = life w"
  by (simp_all add: life_def after_direct_def Let_def conn_inv_def split: write_result.split)

lemma sendInLoop_queue:
  assumes inv: "conn_inv kf w" and st: "state w = kConnected \<or> state w = kDisconnecting"
    and ne: "content (outputBuffer w) \<noteq> []" and fit: "buf_used (outputBuffer w) + length data \<le> max_size"
  shows "\<exists>w'. sendInLoop kf wr data w = Inr w' \<and> conn_inv kf w' \<and> state w' = state w \<and>
    out_stream w' = out_stream w @ data \<and> effects w' = effects w \<and> sent w' = sent w"
proof -
  have ok: "poller_ok kf (conn_poller w) (conn_chan w)" and bo: "buf_ok (outputBuffer w)" and wr: "writing w"
    using inv st ne by (auto simp: conn_inv_def)
  obtain c where c: "chan (conn_poller w) (conn_chan w) = Inr c" "map_of (chans (conn_poller w)) (conn_chan w) = Some c"
    using ok by (rule conn_chanE)
  have w: "isWriting c" using wr c(2) by (simp add: chan_is_def)
  have r: "sz_sub (length data) 0 = length data" using sz_sub_eq [of 0 "length data"] fit by simp
  obtain b' where b': "Buffer_append data (outputBuffer w) = Inr b'" "buf_ok b'" "content b' = content (outputBuffer w) @ data"
    using append_ok [OF bo fit] by blast
  show ?thesis
  proof (cases "data = []")
    case True
    with st c w r inv show ?thesis by (auto simp: sendInLoop_def Let_def)
  next
    case False
    have "sendInLoop kf wr data w = Inr (w\<lparr>outputBuffer := b'\<rparr>)"
      using st c w r b'(1) False by (auto simp: sendInLoop_def Let_def mem_read_def)
    with inv b' ne show ?thesis by (auto simp: conn_inv_def out_stream_def)
  qed
qed

lemma sendInLoop_direct:
  assumes inv: "conn_inv kf w" and st: "state w = kConnected \<or> state w = kDisconnecting"
    and e: "content (outputBuffer w) = []" and fit: "buf_used (outputBuffer w) + length data \<le> max_size"
    and wr: "write_ok wr (length data)"
  shows "\<exists>w'. sendInLoop kf wr data w = Inr w' \<and> conn_inv kf w' \<and> state w' = state w \<and>
    out_stream w' = out_stream w @ (if dropped wr w then [] else data) \<and> life w' = life w"
proof -
  have ok: "poller_ok kf (conn_poller w) (conn_chan w)" and bo: "buf_ok (outputBuffer w)" and nw: "\<not> writing w"
    using inv st e by (auto simp: conn_inv_def)
  obtain c where c: "chan (conn_poller w) (conn_chan w) = Inr c" "map_of (chans (conn_poller w)) (conn_chan w) = Some c"
    using ok by (rule conn_chanE)
  have w: "\<not> isWriting c" using nw c(2) by (simp add: chan_is_def)
  have rb: "readableBytes (outputBuffer w) = 0" using e length_content_readable [OF bo] by simp
  obtain n f where nf: "direct_write wr = (n, f)" by (cases "direct_write wr")
  have n: "n \<le> length data" using wr nf by (auto simp: write_ok_def direct_write_def split: write_result.splits)
  have r: "sz_sub (length data) n = length data - n" using fit n by (intro sz_sub_eq) simp_all
  define w1 where "w1 = after_direct wr n (length data - n) data w"
  have w1: "conn_inv kf w1" "state w1 = state w" "outputBuffer w1 = outputBuffer w" "sent w1 = sent w @ take n data"
    "conn_poller w1 = conn_poller w" "conn_chan w1 = conn_chan w" "life w1 = life w"
    using inv by (simp_all add: w1_def after_direct_inv)
  have eq: "sendInLoop kf wr data w =
      (if \<not> f \<and> length data - n > 0
       then bind_res (Buffer_append (drop n data) (outputBuffer w)) (\<lambda>ob. on_chan (enableWriting kf) (w1\<lparr>outputBuffer := ob\<rparr>))
       else Inr w1)"
    using st c w rb nf r n w1(3) by (auto simp: sendInLoop_def Let_def mem_read_def w1_def)
  show ?thesis
  proof (cases "\<not> f \<and> length data - n > 0")
    case True
    have "buf_used (outputBuffer w) + length (drop n data) \<le> max_size" using fit by simp
    from append_ok [OF bo this] obtain b' where
      b': "Buffer_append (drop n data) (outputBuffer w) = Inr b'" "buf_ok b'" "content b' = drop n data" using e by auto
    let ?w2 = "w1\<lparr>outputBuffer := b'\<rparr>"
    have ok2: "poller_ok kf (conn_poller ?w2) (conn_chan ?w2)" using ok w1(5,6) by simp
    from conn_enableWriting [OF ok2] obtain po where
      po: "on_chan (enableWriting kf) ?w2 = Inr (?w2\<lparr>conn_poller := po\<rparr>)" "poller_ok kf po (conn_chan ?w2)"
      "chan_is (\<lambda>c. ch_index c \<noteq> kNew) po (conn_chan ?w2)" "chan_is isWriting po (conn_chan ?w2)" by blast
    have "conn_inv kf (?w2\<lparr>conn_poller := po\<rparr>)"
      using inv b' po st True w1(1,2) by (auto simp: conn_inv_def)
    moreover have "\<not> dropped wr w" using True nf st by (auto simp: dropped_def)
    moreover have "out_stream (?w2\<lparr>conn_poller := po\<rparr>) = out_stream w @ data"
      using b'(3) e w1(4) by (simp add: out_stream_def)
    ultimately show ?thesis using eq True b'(1) po(1) w1(2,7) by (auto simp: life_def)
  next
    case False
    have "take n data = (if dropped wr w then [] else data)"
    proof (cases f)
      case True
      then have "n = 0" using nf by (auto simp: direct_write_def split: write_result.splits)
      with True nf e show ?thesis by (simp add: dropped_def)
    next
      case f: False
      with False n have "n = length data" by simp
      with f nf st show ?thesis by (auto simp: dropped_def)
    qed
    moreover have "sendInLoop kf wr data w = Inr w1" using eq False by auto
    ultimately show ?thesis using w1 e by (auto simp: out_stream_def)
  qed
qed

lemma sendInLoop_ok:
  assumes inv: "conn_inv kf w" and st: "state w \<noteq> kConnecting"
    and fit: "buf_used (outputBuffer w) + length data \<le> max_size" and wr: "write_ok wr (length data)"
  shows "\<exists>w'. sendInLoop kf wr data w = Inr w' \<and> conn_inv kf w' \<and> state w' = state w \<and>
    out_stream w' = out_stream w @ (if dropped wr w then [] else data) \<and> life w' = life w"
proof (cases "state w = kDisconnected")
  case True
  with inv show ?thesis by (simp add: sendInLoop_def dropped_def)
next
  case False
  with st have s: "state w = kConnected \<or> state w = kDisconnecting" by (cases "state w") auto
  show ?thesis
  proof (cases "content (outputBuffer w) = []")
    case True
    from sendInLoop_direct [OF inv s True fit wr] show ?thesis .
  next
    case ne: False
    with sendInLoop_queue [OF inv s ne fit, of wr] False show ?thesis by (auto simp: dropped_def life_def)
  qed
qed

lemma handleWrite_ok:
  assumes inv: "conn_inv kf w" and st: "state w \<noteq> kConnecting"
    and wr: "write_ok wr (length (content (outputBuffer w)))"
  shows "\<exists>w'. handleWrite kf wr w = Inr w' \<and> conn_inv kf w' \<and> state w' = state w \<and>
    out_stream w' = out_stream w \<and> life w' = life w \<and> (write_shut w' \<longrightarrow> write_shut w \<or> content (outputBuffer w') = [])"
proof -
  have ok: "poller_ok kf (conn_poller w) (conn_chan w)" and bo: "buf_ok (outputBuffer w)"
    using inv by (auto simp: conn_inv_def)
  obtain c where c: "chan (conn_poller w) (conn_chan w) = Inr c" "map_of (chans (conn_poller w)) (conn_chan w) = Some c"
    using ok by (rule conn_chanE)
  show ?thesis
  proof (cases "isWriting c \<and> (\<exists>n. wr = Wrote n \<and> n > 0)")
    case False
    with c inv show ?thesis by (auto simp: handleWrite_def split: write_result.split)
  next
    case True
    then obtain n where n: "wr = Wrote n" "n > 0" "isWriting c" by blast
    have nl: "n \<le> length (content (outputBuffer w))" using wr n by (simp add: write_ok_def)
    have "writing w" using n(3) c(2) by (simp add: chan_is_def)
    with inv st have s: "state w = kConnected \<or> state w = kDisconnecting" "registered w"
      by (cases "state w"; auto simp: conn_inv_def)+
    obtain ob where ob: "retrieve n (outputBuffer w) = Inr ob" "buf_ok ob" "content ob = drop n (content (outputBuffer w))"
      using retrieve_ok [OF bo nl] by blast
    let ?w1 = "w\<lparr>outputBuffer := ob, sent := sent w @ take n (content (outputBuffer w))\<rparr>"
    have str: "out_stream ?w1 = out_stream w" using ob(3) by (simp add: out_stream_def)
    show ?thesis
    proof (cases "content ob = []")
      case False
      then have "readableBytes ob \<noteq> 0" using length_content_readable [OF ob(2)] by (metis length_0_conv)
      then have "handleWrite kf wr w = Inr ?w1"
        using c n ob(1) mem_read_content [OF bo nl] by (simp add: handleWrite_def Let_def)
      moreover have "conn_inv kf ?w1"
        using inv s ob(2) False \<open>writing w\<close> by (auto simp: conn_inv_def)
      ultimately show ?thesis using str by (auto simp: life_def)
    next
      case True
      then have rb: "readableBytes ob = 0" using length_content_readable [OF ob(2)] by simp
      have "poller_ok kf (conn_poller ?w1) (conn_chan ?w1)" using ok by simp
      from conn_disableWriting [OF this] obtain po where
        po: "on_chan (disableWriting kf) ?w1 = Inr (?w1\<lparr>conn_poller := po\<rparr>)" "poller_ok kf po (conn_chan w)"
        "chan_is (\<lambda>c. ch_index c \<noteq> kNew) po (conn_chan w)" "\<not> chan_is isWriting po (conn_chan w)" by auto
      let ?w2 = "?w1\<lparr>conn_poller := po\<rparr>"
      let ?w3 = "if writeCompleteCallback ?w2 then conn_fx [Fx_Queue_WriteComplete] ?w2 else ?w2"
      have inv2: "conn_inv kf ?w2" using inv s po ob(2) True by (auto simp: conn_inv_def)
      then have inv3: "conn_inv kf ?w3" by simp
      have eq: "handleWrite kf wr w = (if state ?w3 = kDisconnecting then shutdownInLoop ?w3 else Inr ?w3)"
        using c n ob(1) rb po(1) mem_read_content [OF bo nl] by (simp add: handleWrite_def Let_def)
      have "out_stream ?w3 = out_stream w" "state ?w3 = state w" "life ?w3 = life w" "content (outputBuffer ?w3) = []"
        using str True by (simp_all add: out_stream_def life_def)
      with eq inv3 shutdownInLoop_ok [OF inv3] show ?thesis by (auto simp: life_def)
    qed
  qed
qed

lemma handleRead_ok:
  assumes inv: "conn_inv kf w" and st: "state w = kConnected \<or> state w = kDisconnecting"
    and kernel: "case readv (readFd_iov (inputBuffer w)) of Inl e \<Rightarrow> True
      | Inr d \<Rightarrow> length d \<le> sum_list (readFd_iov (inputBuffer w))"
    and fit: "length (buffer (inputBuffer w)) + extrabuf_size \<le> max_size"
    and mc: "\<And>b. buf_ok b \<Longrightarrow> \<exists>b'. mc b = Inr b' \<and> buf_ok b'"
  shows "\<exists>w'. handleRead kf readv mc w = Inr w' \<and> conn_inv kf w' \<and> out_stream w' = out_stream w \<and>
    (state w' = state w \<and> life w' = life w \<or> state w' = kDisconnected \<and> life w' = life w @ [Fx_Connection False, Fx_Close])"
proof (cases "readv (readFd_iov (inputBuffer w))")
  case (Inl e)
  then have "handleRead kf readv mc w = Inr w" by (simp add: handleRead_def readFd_def Let_def handleError_def)
  with inv show ?thesis by simp
next
  case (Inr d)
  have bi: "buf_ok (inputBuffer w)" using inv by (simp add: conn_inv_def)
  have "length d \<le> sum_list (readFd_iov (inputBuffer w))" using kernel Inr by simp
  from readFd_ok [of "inputBuffer w" readv d, OF bi Inr this fit] obtain ib where
    ib: "readFd readv (inputBuffer w) = Inr (int (length d), None, ib)" "buf_ok ib" by blast
  let ?w1 = "w\<lparr>inputBuffer := ib\<rparr>"
  have inv1: "conn_inv kf ?w1" using inv ib(2) by (simp add: conn_inv_def)
  show ?thesis
  proof (cases "d = []")
    case True
    with ib(1) have "handleRead kf readv mc w = handleClose kf ?w1" by (simp add: handleRead_def)
    with handleClose_ok [OF inv1] st show ?thesis by (auto simp: out_stream_def life_def)
  next
    case False
    obtain ib' where "mc ib = Inr ib'" "buf_ok ib'" using mc [OF ib(2)] by blast
    with ib(1) False have "handleRead kf readv mc w = Inr (conn_fx [Fx_Message] (?w1\<lparr>inputBuffer := ib'\<rparr>))"
      by (simp add: handleRead_def)
    moreover have "conn_inv kf (?w1\<lparr>inputBuffer := ib'\<rparr>)" using inv \<open>buf_ok ib'\<close> by (simp add: conn_inv_def)
    ultimately show ?thesis by (auto simp: out_stream_def life_def)
  qed
qed

lemma connectEstablished_ok:
  assumes inv: "conn_inv kf w" and st: "state w = kConnecting"
  shows "\<exists>w'. connectEstablished kf w = Inr w' \<and> conn_inv kf w' \<and> state w' = kConnected \<and> out_stream w' = out_stream w \<and>
    effects w' = effects w @ [Fx_Connection True] \<and> polling_reads w'"
proof -
  have "poller_ok kf (conn_poller w) (conn_chan w)" using inv by (simp add: conn_inv_def)
  from ep.enR [OF this] obtain po where "enableReading kf (conn_chan w) (conn_poller w) = Inr po"
    "poller_ok kf po (conn_chan w)" "chan_is (\<lambda>c. ch_index c \<noteq> kNew) po (conn_chan w)" "chan_is isReading po (conn_chan w)"
    "chan_is isWriting po (conn_chan w) = writing w" by blast
  with inv st show ?thesis
    by (auto simp: connectEstablished_def on_chan_def connected_def conn_inv_def out_stream_def)
qed

lemma startReadInLoop_ok:
  assumes inv: "conn_inv kf w" and st: "state w = kConnected \<or> state w = kDisconnecting"
  shows "\<exists>w'. startReadInLoop kf w = Inr w' \<and> conn_inv kf w' \<and> state w' = state w \<and> out_stream w' = out_stream w \<and>
    effects w' = effects w"
proof -
  have ok: "poller_ok kf (conn_poller w) (conn_chan w)" using inv by (simp add: conn_inv_def)
  obtain c where c: "chan (conn_poller w) (conn_chan w) = Inr c" using ok by (rule conn_chanE)
  from ep.enR [OF ok] obtain po where "enableReading kf (conn_chan w) (conn_poller w) = Inr po"
    "poller_ok kf po (conn_chan w)" "chan_is (\<lambda>c. ch_index c \<noteq> kNew) po (conn_chan w)"
    "chan_is isWriting po (conn_chan w) = writing w" by blast
  with inv st c show ?thesis
    by (auto simp: startReadInLoop_def on_chan_def conn_inv_def out_stream_def)
qed

lemma stopReadInLoop_ok:
  assumes inv: "conn_inv kf w" and st: "state w = kConnected \<or> state w = kDisconnecting"
  shows "\<exists>w'. stopReadInLoop kf w = Inr w' \<and> conn_inv kf w' \<and> state w' = state w \<and> out_stream w' = out_stream w \<and>
    effects w' = effects w"
proof -
  have ok: "poller_ok kf (conn_poller w) (conn_chan w)" using inv by (simp add: conn_inv_def)
  obtain c where c: "chan (conn_poller w) (conn_chan w) = Inr c" using ok by (rule conn_chanE)
  from ep.disR [OF ok] obtain po where "disableReading kf (conn_chan w) (conn_poller w) = Inr po"
    "poller_ok kf po (conn_chan w)" "chan_is (\<lambda>c. ch_index c \<noteq> kNew) po (conn_chan w)"
    "chan_is isWriting po (conn_chan w) = writing w" by blast
  with inv st c show ?thesis
    by (auto simp: stopReadInLoop_def on_chan_def conn_inv_def out_stream_def)
qed

lemma connectDestroyed_ok:
  assumes inv: "conn_inv kf w" and st: "state w = kConnected \<or> state w = kDisconnected"
  shows "\<exists>w'. connectDestroyed kf w = Inr w' \<and> state w' = kDisconnected \<and> \<not> registered w' \<and>
    effects w' = effects w @ (if state w = kConnected then [Fx_Connection False] else [])"
proof -
  have ok: "poller_ok kf (conn_poller w) (conn_chan w)" using inv by (simp add: conn_inv_def)
  show ?thesis
  proof (cases "state w = kConnected")
    case True
    from ep.disAll_rem [OF ok] obtain p1 p2 where "disableAll kf (conn_chan w) (conn_poller w) = Inr p1"
      "Channel_remove kf (conn_chan w) p1 = Inr p2" "\<not> chan_is (\<lambda>c. ch_index c \<noteq> kNew) p2 (conn_chan w)" by blast
    with True show ?thesis by (auto simp: connectDestroyed_def on_chan_def connected_def)
  next
    case False
    with st inv have "registered w" "\<not> writing w" "\<not> polling_reads w" by (auto simp: conn_inv_def)
    from ep.rem [OF ok this(1) this(3,2)] obtain p2 where "Channel_remove kf (conn_chan w) (conn_poller w) = Inr p2"
      "\<not> chan_is (\<lambda>c. ch_index c \<noteq> kNew) p2 (conn_chan w)" by blast
    with False st show ?thesis by (auto simp: connectDestroyed_def on_chan_def)
  qed
qed

section \<open>Reachable connections\<close>

text \<open>
  One step in the loop's thread. The second component of the state is what has been accepted for
  sending. \<open>send\<close> checks the state before, so \<^verbatim>\<open>sendInLoop\<close> never runs while connecting. The kernel's
  answers are arbitrary within its contract; the buffers stay within the largest vector size.
\<close>

inductive conn_step :: "kfault \<Rightarrow> TcpConnection \<times> char list \<Rightarrow> TcpConnection \<times> char list \<Rightarrow> bool" for kf where
  established: "state w = kConnecting \<Longrightarrow> connectEstablished kf w = Inr w' \<Longrightarrow> conn_step kf (w, acc) (w', acc)"
| send: "state w \<noteq> kConnecting \<Longrightarrow> buf_used (outputBuffer w) + length data \<le> max_size \<Longrightarrow> write_ok wr (length data) \<Longrightarrow>
    sendInLoop kf wr data w = Inr w' \<Longrightarrow>
    conn_step kf (w, acc) (w', acc @ (if dropped wr w then [] else data))"
| write_ready: "state w \<noteq> kConnecting \<Longrightarrow> write_ok wr (length (content (outputBuffer w))) \<Longrightarrow>
    handleWrite kf wr w = Inr w' \<Longrightarrow> conn_step kf (w, acc) (w', acc)"
| read_ready: "state w = kConnected \<or> state w = kDisconnecting \<Longrightarrow>
    (case readv (readFd_iov (inputBuffer w)) of Inl e \<Rightarrow> True
     | Inr d \<Rightarrow> length d \<le> sum_list (readFd_iov (inputBuffer w))) \<Longrightarrow>
    length (buffer (inputBuffer w)) + extrabuf_size \<le> max_size \<Longrightarrow>
    (\<And>b. buf_ok b \<Longrightarrow> \<exists>b'. mc b = Inr b' \<and> buf_ok b') \<Longrightarrow>
    handleRead kf readv mc w = Inr w' \<Longrightarrow> conn_step kf (w, acc) (w', acc)"
| hang_up: "state w = kConnected \<or> state w = kDisconnecting \<Longrightarrow> handleClose kf w = Inr w' \<Longrightarrow> conn_step kf (w, acc) (w', acc)"
| user_shutdown: "conn_step kf (w, acc) (conn_shutdown w, acc)"
| shutdown_in_loop: "state w \<noteq> kConnecting \<Longrightarrow> shutdownInLoop w = Inr w' \<Longrightarrow> conn_step kf (w, acc) (w', acc)"
| user_force_close: "conn_step kf (w, acc) (forceClose w, acc)"
| user_force_close_delay: "conn_step kf (w, acc) (forceCloseWithDelay w, acc)"
| force_close_in_loop: "forceCloseInLoop kf w = Inr w' \<Longrightarrow> conn_step kf (w, acc) (w', acc)"
| start_read: "state w = kConnected \<or> state w = kDisconnecting \<Longrightarrow> startReadInLoop kf w = Inr w' \<Longrightarrow> conn_step kf (w, acc) (w', acc)"
| stop_read: "state w = kConnected \<or> state w = kDisconnecting \<Longrightarrow> stopReadInLoop kf w = Inr w' \<Longrightarrow> conn_step kf (w, acc) (w', acc)"

inductive_cases conn_stepE: "conn_step kf s s'"

inductive conn_reach :: "kfault \<Rightarrow> TcpConnection \<times> char list \<Rightarrow> bool" for kf where
  start: "poller_inv po \<Longrightarrow> map_of (chans po) p = None \<Longrightarrow> map_of (channels po) fd = None \<Longrightarrow> kernel_ok kf fd \<Longrightarrow>
    TcpConnection_ctor nm fd p po wcc = Inr w \<Longrightarrow> conn_reach kf (w, [])"
| step: "conn_reach kf s \<Longrightarrow> conn_step kf s s' \<Longrightarrow> conn_reach kf s'"

lemma TcpConnection_ctor_inv:
  assumes "poller_inv po" "map_of (chans po) p = None" "map_of (channels po) fd = None" "kernel_ok kf fd"
    and "TcpConnection_ctor nm fd p po wcc = Inr w"
  shows "conn_inv kf w" "out_stream w = []" "state w = kConnecting" "effects w = []"
proof -
  from assms(5) obtain b where b: "Buffer_ctor kInitialSize = Inr b"
    and w: "w = \<lparr>conn_name = nm, state = kConnecting, reading = True, conn_chan = p,
            conn_poller = set_chan p (Channel_ctor fd) po, inputBuffer = b, outputBuffer = b,
            writeCompleteCallback = wcc, sent = [], write_shut = False, effects = []\<rparr>"
    by (auto simp: TcpConnection_ctor_def res_simps)
  have bo: "buf_ok b" "content b = []" using Buffer_ctor_ok [of kInitialSize] b by (auto simp: kInitialSize_def)
  have "poller_inv (set_chan p (Channel_ctor fd) po)" using poller_inv_create [OF assms(1,2)] .
  with bo w assms(3,4) show "conn_inv kf w"
    by (simp add: conn_inv_def poller_ok_def chan_is_def set_chan_def can_register_def Channel_ctor_def isWriting_def isReading_def)
  from w bo show "out_stream w = []" "state w = kConnecting" "effects w = []" by (simp_all add: out_stream_def)
qed

text \<open>The callbacks that a connection in a given state has made.\<close>

definition life_in :: "StateE \<Rightarrow> conn_effect list" where
  "life_in s = (case s of kConnecting \<Rightarrow> [] | kConnected \<Rightarrow> [Fx_Connection True] | kDisconnecting \<Rightarrow> [Fx_Connection True]
     | kDisconnected \<Rightarrow> [Fx_Connection True, Fx_Connection False, Fx_Close])"

definition reach_inv :: "kfault \<Rightarrow> TcpConnection \<times> char list \<Rightarrow> bool" where
  "reach_inv kf s \<longleftrightarrow> conn_inv kf (fst s) \<and> out_stream (fst s) = snd s \<and> life (fst s) = life_in (state (fst s))"

lemma forceClose_inv:
  assumes "conn_inv kf w" "life w = life_in (state w)"
  shows "conn_inv kf (forceClose w)" "conn_inv kf (forceCloseWithDelay w)" "conn_inv kf (conn_shutdown w)"
    "out_stream (forceClose w) = out_stream w" "out_stream (forceCloseWithDelay w) = out_stream w"
    "out_stream (conn_shutdown w) = out_stream w"
    "life (forceClose w) = life_in (state (forceClose w))"
    "life (forceCloseWithDelay w) = life_in (state (forceCloseWithDelay w))"
    "life (conn_shutdown w) = life_in (state (conn_shutdown w))"
  using assms
  by (auto simp: forceClose_def forceCloseWithDelay_def conn_shutdown_def conn_inv_def out_stream_def life_def life_in_def)

lemma conn_step_inv: "conn_step kf s s' \<Longrightarrow> reach_inv kf s \<Longrightarrow> reach_inv kf s'"
proof (induction rule: conn_step.induct)
  case (established w w' acc)
  then show ?case using connectEstablished_ok [of kf w] by (auto simp: reach_inv_def life_def life_in_def)
next
  case (send w data wr w' acc)
  from send.prems have "conn_inv kf w" by (simp add: reach_inv_def)
  from sendInLoop_ok [OF this send.hyps(1-3)] send show ?case by (auto simp: reach_inv_def)
next
  case (write_ready w wr w' acc)
  from write_ready.prems have "conn_inv kf w" by (simp add: reach_inv_def)
  from handleWrite_ok [OF this write_ready.hyps(1,2)] write_ready show ?case by (auto simp: reach_inv_def)
next
  case (read_ready w readv mc w' acc)
  from read_ready.prems have "conn_inv kf w" by (simp add: reach_inv_def)
  from handleRead_ok [of kf w readv mc, OF this read_ready.hyps(1-4)] read_ready.hyps(1,5) read_ready.prems show ?case
    by (auto simp: reach_inv_def life_in_def)
next
  case (hang_up w w' acc)
  then show ?case using handleClose_ok [of kf w] by (auto simp: reach_inv_def life_def life_in_def)
next
  case (user_shutdown w acc)
  then show ?case using forceClose_inv [of kf w] by (simp add: reach_inv_def)
next
  case (shutdown_in_loop w w' acc)
  then show ?case using shutdownInLoop_ok [of kf w] by (auto simp: reach_inv_def life_def)
next
  case (user_force_close w acc)
  then show ?case using forceClose_inv [of kf w] by (simp add: reach_inv_def)
next
  case (user_force_close_delay w acc)
  then show ?case using forceClose_inv [of kf w] by (simp add: reach_inv_def)
next
  case (force_close_in_loop w w' acc)
  then show ?case using handleClose_ok [of kf w]
    by (auto simp: reach_inv_def forceCloseInLoop_def life_def life_in_def split: if_splits)
next
  case (start_read w w' acc)
  then show ?case using startReadInLoop_ok [of kf w] by (auto simp: reach_inv_def life_def)
next
  case (stop_read w w' acc)
  then show ?case using stopReadInLoop_ok [of kf w] by (auto simp: reach_inv_def life_def)
qed

lemma conn_reach_inv: "conn_reach kf s \<Longrightarrow> reach_inv kf s"
proof (induction rule: conn_reach.induct)
  case (start po p fd nm wcc w)
  from TcpConnection_ctor_inv [OF start] show ?case by (simp add: reach_inv_def life_def life_in_def)
next
  case (step s s')
  then show ?case by (blast intro: conn_step_inv)
qed

section \<open>Dispatch of events\<close>

text \<open>epoll reports urgent data and half-closed peers only when asked to, and the channels never ask.\<close>

definition reportable :: "int \<Rightarrow> bool" where
  "reportable fl \<longleftrightarrow> and fl POLLPRI = 0 \<and> and fl POLLRDHUP = 0"

lemma reportable_read:
  assumes "reportable fl"
  shows "and fl (or POLLIN (or POLLPRI POLLRDHUP)) = and fl POLLIN"
  using assms by (simp add: reportable_def bit.conj_disj_distrib)

lemma handleWrite_closed:
  assumes "conn_inv kf w" "state w = kDisconnected"
  shows "handleWrite kf wr w = Inr w"
proof -
  have ok: "poller_ok kf (conn_poller w) (conn_chan w)" and nw: "\<not> writing w" using assms by (auto simp: conn_inv_def)
  obtain c where "chan (conn_poller w) (conn_chan w) = Inr c" "map_of (chans (conn_poller w)) (conn_chan w) = Some c"
    using ok by (rule conn_chanE)
  with nw show ?thesis by (simp add: handleWrite_def chan_is_def)
qed

text \<open>The write handler after the others: on any connection that has been established.\<close>

lemma write_callbacks_ok:
  assumes "conn_inv kf w" "state w \<noteq> kConnecting" "write_ok wr (length (content (outputBuffer w)))"
    "set cbs \<subseteq> {Cb_Write, Cb_Error}" "length (filter ((=) Cb_Write) cbs) \<le> 1"
  shows "\<exists>w'. run_callbacks kf readv mc wr cbs w = Inr w'"
  using assms
proof (induction cbs arbitrary: w)
  case (Cons cb cbs)
  show ?case
  proof (cases cb)
    case Cb_Write
    with Cons.prems(5) have "filter ((=) Cb_Write) cbs = []" by simp
    then have rest: "set cbs \<subseteq> {Cb_Error}" using Cons.prems(4) by (auto simp: filter_empty_conv)
    have errs: "run_callbacks kf readv mc wr cbs v = Inr v" for v
      using rest by (induction cbs arbitrary: v) (auto simp: handleError_def)
    from handleWrite_ok [OF Cons.prems(1-3)] errs Cb_Write show ?thesis by auto
  qed (use Cons in \<open>auto simp: handleError_def\<close>)
qed simp

section \<open>Properties\<close>

text \<open>
  C2. The byte stream is exact: in every reachable state, the bytes the kernel has taken followed by
  those in the output buffer are the messages accepted for sending, in order, without loss,
  duplication or reordering; and as long as the connection is up, the loop polls for writability
  exactly while bytes are waiting. Messages are dropped only after the connection is closed or when
  the direct write reports a broken pipe or a reset.
\<close>

theorem conn_stream_exact:
  assumes "conn_reach kf (w, acc)"
  shows "sent w @ content (outputBuffer w) = acc \<and>
    (state w = kConnected \<or> state w = kDisconnecting \<longrightarrow> (writing w \<longleftrightarrow> content (outputBuffer w) \<noteq> []))"
  using conn_reach_inv [OF assms] by (simp add: reach_inv_def out_stream_def conn_inv_def)

lemma demo_ctor: "\<exists>w. TcpConnection_ctor ''c'' 5 7 \<lparr>chans = [], channels = [], events_size = 16, interest = []\<rparr> True = Inr w"
  using Buffer_ctor_ok [of kInitialSize] by (auto simp: TcpConnection_ctor_def kInitialSize_def)

lemma demo_conn_reach:
  "\<exists>w. conn_reach no_fault (w, []) \<and> state w = kConnected \<and> polling_reads w \<and> conn_inv no_fault w"
proof -
  obtain w where w: "TcpConnection_ctor ''c'' 5 7 \<lparr>chans = [], channels = [], events_size = 16, interest = []\<rparr> True = Inr w"
    using demo_ctor by blast
  have r: "conn_reach no_fault (w, [])"
    by (rule conn_reach.start [OF _ _ _ _ w]) (simp_all add: poller_inv_def kernel_ok_def no_fault_def)
  have "conn_inv no_fault w" "state w = kConnecting"
    using TcpConnection_ctor_inv [OF _ _ _ _ w, of no_fault] by (simp_all add: poller_inv_def kernel_ok_def no_fault_def)
  from connectEstablished_ok [OF this] obtain w' where w': "connectEstablished no_fault w = Inr w'" "state w' = kConnected"
    "polling_reads w'" "conn_inv no_fault w'" by blast
  from conn_reach.step [OF r conn_step.established [OF \<open>state w = kConnecting\<close> w'(1)]] w' show ?thesis by blast
qed

theorem conn_stream_exact_witness:
  "\<exists>w. conn_reach no_fault (w, []) \<and> sent w @ content (outputBuffer w) = []"
proof -
  obtain w where w: "conn_reach no_fault (w, [])" using demo_conn_reach by blast
  with conn_stream_exact [OF w] show ?thesis by blast
qed







text \<open>
  Destroying a connection that is being shut down fails an assertion: \<^verbatim>\<open>connectDestroyed\<close> switches the
  channel off only in the state \<^verbatim>\<open>kConnected\<close>, so a server that is destroyed while a connection is
  disconnecting removes a channel that is still being polled.
\<close>

theorem destroy_while_disconnecting_asserts:
  assumes "conn_inv kf w" and "state w = kDisconnecting" and "polling_reads w"
  shows "connectDestroyed kf w = Inl Assert_Failed"
proof -
  have "poller_ok kf (conn_poller w) (conn_chan w)" using assms(1) by (simp add: conn_inv_def)
  from ep.rem_busy [OF this] assms(2,3) show ?thesis by (simp add: connectDestroyed_def on_chan_def)
qed

theorem destroy_while_disconnecting_asserts_witness:
  "\<exists>w. conn_reach no_fault (w, []) \<and> connectDestroyed no_fault w = Inl Assert_Failed"
proof -
  obtain w where w: "conn_reach no_fault (w, [])" "state w = kConnected" "polling_reads w" "conn_inv no_fault w"
    using demo_conn_reach by blast
  have r: "conn_reach no_fault (conn_shutdown w, [])" using conn_reach.step [OF w(1) conn_step.user_shutdown] .
  moreover have "connectDestroyed no_fault (conn_shutdown w) = Inl Assert_Failed"
    by (rule destroy_while_disconnecting_asserts)
      (use conn_reach_inv [OF r] w in \<open>auto simp: reach_inv_def conn_shutdown_def\<close>)
  ultimately show ?thesis by blast
qed

text \<open>
  \<^verbatim>\<open>startRead\<close> does not look at the state: a request to resume reading that runs after the connection
  was closed switches the channel on again, and destroying the connection then fails an assertion.
\<close>

theorem start_read_after_close_asserts:
  assumes "conn_inv kf w" and "state w = kDisconnected"
  shows "\<exists>w'. startReadInLoop kf w = Inr w' \<and> polling_reads w' \<and> connectDestroyed kf w' = Inl Assert_Failed"
proof -
  have ok: "poller_ok kf (conn_poller w) (conn_chan w)" and nr: "\<not> polling_reads w"
    using assms by (auto simp: conn_inv_def)
  obtain c where c: "chan (conn_poller w) (conn_chan w) = Inr c" "map_of (chans (conn_poller w)) (conn_chan w) = Some c"
    using ok by (rule conn_chanE)
  have "\<not> isReading c" using nr c(2) by (simp add: chan_is_def)
  moreover from ep.enR [OF ok] obtain po where po: "enableReading kf (conn_chan w) (conn_poller w) = Inr po"
    "poller_ok kf po (conn_chan w)" "chan_is isReading po (conn_chan w)" by blast
  moreover from ep.rem_busy [OF po(2)] po(3) have "Channel_remove kf (conn_chan w) po = Inl Assert_Failed" by blast
  ultimately show ?thesis using assms(2) c by (simp add: startReadInLoop_def connectDestroyed_def on_chan_def)
qed

theorem start_read_after_close_asserts_witness:
  "\<exists>w w'. conn_reach no_fault (w, []) \<and> startReadInLoop no_fault w = Inr w' \<and> connectDestroyed no_fault w' = Inl Assert_Failed"
proof -
  obtain w where w: "conn_reach no_fault (w, [])" "state w = kConnected" "conn_inv no_fault w" using demo_conn_reach by blast
  from handleClose_ok [OF w(3)] w(2) obtain v where v: "handleClose no_fault w = Inr v" "conn_inv no_fault v" "state v = kDisconnected"
    by blast
  have "conn_reach no_fault (v, [])" using conn_reach.step [OF w(1) conn_step.hang_up [OF _ v(1)]] w(2) by blast
  with start_read_after_close_asserts [OF v(2,3)] show ?thesis by blast
qed

end
