(* ===== verification/NetInet.thy ===== *)
theory NetInet
  imports NetEndian
begin

text \<open>
  Socket addresses and the thin layer over the socket calls (\<^verbatim>\<open>network/InetAddress\<close>,
  \<^verbatim>\<open>network/SocketsOps\<close>, \<^verbatim>\<open>network/Socket\<close>, the byte conversion of \<^verbatim>\<open>network/util\<close>). An
  \<^verbatim>\<open>InetAddress\<close> is a union of \<^verbatim>\<open>sockaddr_in\<close> and \<^verbatim>\<open>sockaddr_in6\<close>, so it is modelled as the 28 bytes it
  occupies, with the offsets that the source asserts; what a constructor leaves unwritten is the
  parameter \<open>raw\<close>. \<^verbatim>\<open>inet_ntop\<close>, \<^verbatim>\<open>inet_pton\<close> and \<^verbatim>\<open>gethostbyname_r\<close> are parameters, and the results of
  the system calls are arguments. The lemmas show that ports and addresses survive the byte order
  conversions and the text form, on either byte order and over any uninitialised memory.
\<close>

section \<open>Addresses in memory\<close>

definition AF_INET :: nat where "AF_INET = 2"
definition AF_INET6 :: nat where "AF_INET6 = 10"
definition INET_ADDRSTRLEN :: nat where "INET_ADDRSTRLEN = 16"
definition INET6_ADDRSTRLEN :: nat where "INET6_ADDRSTRLEN = 46"

lemmas af_defs = AF_INET_def AF_INET6_def INET_ADDRSTRLEN_def INET6_ADDRSTRLEN_def

type_synonym InetAddress = "char list"

text \<open>\<open>put off bs m\<close> writes the bytes \<open>bs\<close> at the offset \<open>off\<close>; \<open>bytes_at off n m\<close> reads \<open>n\<close> bytes.\<close>

definition put :: "nat \<Rightarrow> char list \<Rightarrow> char list \<Rightarrow> char list" where
  "put off bs m = take off m @ bs @ drop (off + length bs) m"

definition bytes_at :: "nat \<Rightarrow> nat \<Rightarrow> char list \<Rightarrow> char list" where
  "bytes_at off n m = take n (drop off m)"

definition zeros :: "nat \<Rightarrow> char list" where
  "zeros n = replicate n (CHR 0x00)"

text \<open>
  Offsets: family 0 (2 bytes), port 2 (2 bytes); \<^verbatim>\<open>sin_addr\<close> 4 (4 bytes); \<^verbatim>\<open>sin6_addr\<close> 8 (16 bytes),
  \<^verbatim>\<open>sin6_scope_id\<close> 24 (4 bytes). The sizes are 16 and 28.
\<close>

definition family :: "byte_order \<Rightarrow> InetAddress \<Rightarrow> nat" where
  "family bo a = mem_val bo (bytes_at 0 2 a)"

definition portNetEndian :: "byte_order \<Rightarrow> InetAddress \<Rightarrow> 16 word" where
  "portNetEndian bo a = of_nat (mem_val bo (bytes_at 2 2 a))"

definition inet_port :: "byte_order \<Rightarrow> InetAddress \<Rightarrow> 16 word" where
  "inet_port bo a = networkToHost16 bo (portNetEndian bo a)"

definition ipv4NetEndian :: "byte_order \<Rightarrow> InetAddress \<Rightarrow> 32 word res" where
  "ipv4NetEndian bo a = cxx_assert (family bo a = AF_INET) (Inr (of_nat (mem_val bo (bytes_at 4 4 a))))"

definition put_family :: "byte_order \<Rightarrow> nat \<Rightarrow> char list \<Rightarrow> char list" where
  "put_family bo f m = put 0 (mem_bytes bo 2 f) m"

definition put_port :: "byte_order \<Rightarrow> 16 word \<Rightarrow> char list \<Rightarrow> char list" where
  "put_port bo p m = put 2 (mem_bytes bo 2 (unat (hostToNetwork16 bo p))) m"

definition kInaddrAny :: "32 word" where "kInaddrAny = 0"
definition kInaddrLoopback :: "32 word" where "kInaddrLoopback = 0x7f000001"
definition in6addr_any :: "char list" where "in6addr_any = zeros 16"
definition in6addr_loopback :: "char list" where "in6addr_loopback = zeros 15 @ [CHR 0x01]"

definition InetAddress_port :: "byte_order \<Rightarrow> char list \<Rightarrow> 16 word \<Rightarrow> bool \<Rightarrow> bool \<Rightarrow> InetAddress" where
  "InetAddress_port bo raw portArg loopbackOnly ipv6 =
     (if ipv6
      then let m0 = put 0 (zeros 28) raw;
               m1 = put_family bo AF_INET6 m0;
               m2 = put 8 (if loopbackOnly then in6addr_loopback else in6addr_any) m1
           in put_port bo portArg m2
      else let m0 = put 0 (zeros 16) raw;
               m1 = put_family bo AF_INET m0;
               ip = (if loopbackOnly then kInaddrLoopback else kInaddrAny);
               m2 = put 4 (mem_bytes bo 4 (unat (hostToNetwork32 bo ip))) m1
           in put_port bo portArg m2)"

text \<open>\<open>pton af text\<close> is the address in network byte order, \<^const>\<open>None\<close> when the text is refused.\<close>

definition fromIpPort4 :: "byte_order \<Rightarrow> (nat \<Rightarrow> string \<Rightarrow> char list option) \<Rightarrow> string \<Rightarrow> 16 word \<Rightarrow> char list \<Rightarrow> char list" where
  "fromIpPort4 bo pton ip port m =
     (let m1 = put_port bo port (put_family bo AF_INET m)
      in case pton AF_INET ip of None \<Rightarrow> m1 | Some b \<Rightarrow> put 4 b m1)"

definition fromIpPort6 :: "byte_order \<Rightarrow> (nat \<Rightarrow> string \<Rightarrow> char list option) \<Rightarrow> string \<Rightarrow> 16 word \<Rightarrow> char list \<Rightarrow> char list" where
  "fromIpPort6 bo pton ip port m =
     (let m1 = put_port bo port (put_family bo AF_INET6 m)
      in case pton AF_INET6 ip of None \<Rightarrow> m1 | Some b \<Rightarrow> put 8 b m1)"

definition InetAddress_ip ::
    "byte_order \<Rightarrow> (nat \<Rightarrow> string \<Rightarrow> char list option) \<Rightarrow> char list \<Rightarrow> string \<Rightarrow> 16 word \<Rightarrow> bool \<Rightarrow> InetAddress" where
  "InetAddress_ip bo pton raw ip portArg ipv6 =
     (if ipv6 \<or> CHR '':'' \<in> set (c_str ip)
      then fromIpPort6 bo pton (c_str ip) portArg (put 0 (zeros 28) raw)
      else fromIpPort4 bo pton (c_str ip) portArg (put 0 (zeros 16) raw))"

definition setSockAddrInet6 :: "char list \<Rightarrow> InetAddress" where
  "setSockAddrInet6 addr6 = addr6"

definition setScopeId :: "byte_order \<Rightarrow> 32 word \<Rightarrow> InetAddress \<Rightarrow> InetAddress" where
  "setScopeId bo scope_id a =
     (if family bo a = AF_INET6 then put 24 (mem_bytes bo 4 (unat scope_id)) a else a)"

text \<open>
  \<^verbatim>\<open>resolve\<close>: \<open>ret\<close> and \<open>he\<close> are what \<^verbatim>\<open>gethostbyname_r\<close> returned, the latter as address type, length and
  first address.
\<close>

definition resolve :: "int \<Rightarrow> (nat \<times> nat \<times> char list) option \<Rightarrow> InetAddress \<Rightarrow> (bool \<times> InetAddress) res" where
  "resolve ret he out =
     (case he of
        Some (h_addrtype, h_length, h_addr) \<Rightarrow>
          if ret = 0
          then cxx_assert (h_addrtype = AF_INET \<and> h_length = 4) (Inr (True, put 4 (take 4 h_addr) out))
          else Inr (False, out)
      | None \<Rightarrow> Inr (False, out))"

section \<open>Text form\<close>

text \<open>
  \<^verbatim>\<open>toIp\<close> into a buffer of \<open>sz\<close> bytes that starts out zeroed, as both callers have it: \<open>ntop af addr\<close> is
  the text of the address; a text that does not fit leaves the buffer alone. The result is the C
  string in the buffer.
\<close>

definition sockets_toIp :: "byte_order \<Rightarrow> (nat \<Rightarrow> char list \<Rightarrow> string) \<Rightarrow> nat \<Rightarrow> InetAddress \<Rightarrow> string res" where
  "sockets_toIp bo ntop sz a =
     (if family bo a = AF_INET
      then cxx_assert (sz \<ge> INET_ADDRSTRLEN)
             (let t = ntop AF_INET (bytes_at 4 4 a) in Inr (if length t < sz then t else []))
      else if family bo a = AF_INET6
      then cxx_assert (sz \<ge> INET6_ADDRSTRLEN)
             (let t = ntop AF_INET6 (bytes_at 8 16 a) in Inr (if length t < sz then t else []))
      else Inr [])"

definition snprintf_at :: "nat \<Rightarrow> string \<Rightarrow> string \<Rightarrow> string" where
  "snprintf_at sz s text = s @ take (sz - length s - 1) text"

definition sockets_toIpPort :: "byte_order \<Rightarrow> (nat \<Rightarrow> char list \<Rightarrow> string) \<Rightarrow> nat \<Rightarrow> InetAddress \<Rightarrow> string res" where
  "sockets_toIpPort bo ntop sz a =
     (let port = nat_to_string (unat (networkToHost16 bo (portNetEndian bo a))) in
      if family bo a = AF_INET6
      then bind_res (sockets_toIp bo ntop (sz - 1) a) (\<lambda>t.
           let buf = CHR ''['' # t in
           cxx_assert (sz > length buf) (Inr (snprintf_at sz buf ('']:'' @ port))))
      else bind_res (sockets_toIp bo ntop sz a) (\<lambda>buf.
           cxx_assert (sz > length buf) (Inr (snprintf_at sz buf ('':'' @ port)))))"

definition toIpPort :: "byte_order \<Rightarrow> (nat \<Rightarrow> char list \<Rightarrow> string) \<Rightarrow> InetAddress \<Rightarrow> string res" where
  "toIpPort bo ntop a = sockets_toIpPort bo ntop 64 a"

definition toIp :: "byte_order \<Rightarrow> (nat \<Rightarrow> char list \<Rightarrow> string) \<Rightarrow> InetAddress \<Rightarrow> string res" where
  "toIp bo ntop a = sockets_toIp bo ntop 64 a"

section \<open>Socket calls\<close>

definition createNonblockingOrDie :: "int \<Rightarrow> int res" where
  "createNonblockingOrDie sockfd = (if sockfd < 0 then Inl Fatal_Log else Inr sockfd)"

definition bindOrDie :: "int \<Rightarrow> unit res" where
  "bindOrDie ret = (if ret < 0 then Inl Fatal_Log else Inr ())"

definition listenOrDie :: "int \<Rightarrow> unit res" where
  "listenOrDie ret = (if ret < 0 then Inl Fatal_Log else Inr ())"

text \<open>The error numbers of Linux that \<^verbatim>\<open>accept\<close> is expected to give.\<close>

definition EPERM :: int where "EPERM = 1"
definition EINTR :: int where "EINTR = 4"
definition EAGAIN :: int where "EAGAIN = 11"
definition EMFILE :: int where "EMFILE = 24"
definition EPROTO :: int where "EPROTO = 71"
definition ECONNABORTED :: int where "ECONNABORTED = 103"

lemmas accept_errno_defs = EPERM_def EINTR_def EAGAIN_def EMFILE_def EPROTO_def ECONNABORTED_def

text \<open>\<^verbatim>\<open>sockets::accept\<close>: the descriptor and the error number of \<^verbatim>\<open>accept4\<close>.\<close>

definition sockets_accept :: "int \<Rightarrow> int \<Rightarrow> int res" where
  "sockets_accept connfd err =
     (if connfd < 0
      then if err \<in> {EAGAIN, ECONNABORTED, EINTR, EPROTO, EPERM, EMFILE} then Inr connfd else Inl Fatal_Log
      else Inr connfd)"

definition getSocketError :: "int \<Rightarrow> int \<Rightarrow> int \<Rightarrow> int" where
  "getSocketError ret err optval = (if ret < 0 then err else optval)"

text \<open>\<^verbatim>\<open>getLocalAddr\<close>/\<^verbatim>\<open>getPeerAddr\<close>: the address the kernel gave, or the zeroed one.\<close>

definition getLocalAddr :: "char list option \<Rightarrow> char list" where
  "getLocalAddr r = (case r of None \<Rightarrow> zeros 28 | Some a \<Rightarrow> a)"

definition getPeerAddr :: "char list option \<Rightarrow> char list" where
  "getPeerAddr r = (case r of None \<Rightarrow> zeros 28 | Some a \<Rightarrow> a)"

definition isSelfConnect :: "byte_order \<Rightarrow> char list option \<Rightarrow> char list option \<Rightarrow> bool" where
  "isSelfConnect bo local peer =
     (let localaddr = getLocalAddr local; peeraddr = getPeerAddr peer in
      if family bo localaddr = AF_INET
      then bytes_at 2 2 localaddr = bytes_at 2 2 peeraddr \<and> bytes_at 4 4 localaddr = bytes_at 4 4 peeraddr
      else if family bo localaddr = AF_INET6
      then bytes_at 2 2 localaddr = bytes_at 2 2 peeraddr \<and> bytes_at 8 16 localaddr = bytes_at 8 16 peeraddr
      else False)"

section \<open>Socket\<close>

text \<open>The option calls, as the arguments of \<^verbatim>\<open>setsockopt\<close> (level, option, value).\<close>

datatype sockopt = TCP_NODELAY | SO_REUSEADDR | SO_REUSEPORT | SO_KEEPALIVE

definition setTcpNoDelay :: "bool \<Rightarrow> sockopt \<times> int" where
  "setTcpNoDelay on = (TCP_NODELAY, if on then 1 else 0)"

definition setReuseAddr :: "bool \<Rightarrow> sockopt \<times> int" where
  "setReuseAddr on = (SO_REUSEADDR, if on then 1 else 0)"

definition setReusePort :: "bool \<Rightarrow> sockopt \<times> int" where
  "setReusePort on = (SO_REUSEPORT, if on then 1 else 0)"

definition setKeepAlive :: "bool \<Rightarrow> sockopt \<times> int" where
  "setKeepAlive on = (SO_KEEPALIVE, if on then 1 else 0)"

definition Socket_bindAddress :: "int \<Rightarrow> unit res" where
  "Socket_bindAddress ret = (if ret < 0 then Inl Fatal_Log else Inr ())"

definition Socket_listen :: "int \<Rightarrow> unit res" where
  "Socket_listen ret = (if ret < 0 then Inl Fatal_Log else Inr ())"

text \<open>\<^verbatim>\<open>accept\<close>: \<open>ret\<close> and \<open>addr\<close> are what \<^verbatim>\<open>::accept\<close> returned and wrote.\<close>

definition Socket_accept :: "int \<Rightarrow> char list \<Rightarrow> InetAddress \<Rightarrow> int \<times> InetAddress" where
  "Socket_accept ret addr peeraddr = (ret, if ret \<ge> 0 then setSockAddrInet6 addr else peeraddr)"

record tcp_info =
  tcpi_retransmits :: nat  tcpi_rto :: nat  tcpi_ato :: nat  tcpi_snd_mss :: nat
  tcpi_rcv_mss :: nat  tcpi_lost :: nat  tcpi_retrans :: nat  tcpi_rtt :: nat
  tcpi_rttvar :: nat  tcpi_snd_ssthresh :: nat  tcpi_snd_cwnd :: nat  tcpi_total_retrans :: nat

definition getTcpInfoString :: "tcp_info option \<Rightarrow> nat \<Rightarrow> string option" where
  "getTcpInfoString info len =
     (case info of None \<Rightarrow> None
      | Some t \<Rightarrow> Some (take (len - 1)
          (''unrecovered='' @ nat_to_string (tcpi_retransmits t) @
           '' rto='' @ nat_to_string (tcpi_rto t) @ '' ato='' @ nat_to_string (tcpi_ato t) @
           '' snd_mss='' @ nat_to_string (tcpi_snd_mss t) @ '' rcv_mss='' @ nat_to_string (tcpi_rcv_mss t) @
           '' lost='' @ nat_to_string (tcpi_lost t) @ '' retrans='' @ nat_to_string (tcpi_retrans t) @
           '' rtt='' @ nat_to_string (tcpi_rtt t) @ '' rttvar='' @ nat_to_string (tcpi_rttvar t) @
           '' sshthresh='' @ nat_to_string (tcpi_snd_ssthresh t) @ '' cwnd='' @ nat_to_string (tcpi_snd_cwnd t) @
           '' total_retrans='' @ nat_to_string (tcpi_total_retrans t))))"

section \<open>Network bytes\<close>

text \<open>\<^verbatim>\<open>memcpy\<close> of four bytes, \<^verbatim>\<open>ntohl\<close>, conversion to \<^verbatim>\<open>int32_t\<close>.\<close>

definition getInt32FromNetByte :: "byte_order \<Rightarrow> char list \<Rightarrow> int" where
  "getInt32FromNetByte bo buf = to_int32 (int (htobe bo 4 (mem_val bo (take 4 buf))))"


section \<open>Lemmas\<close>

lemma length_zeros [simp]: "length (zeros n) = n"
  by (simp add: zeros_def)

lemma length_put [simp]: "off + length bs \<le> length m \<Longrightarrow> length (put off bs m) = length m"
  by (simp add: put_def)

lemma bytes_at_put_same:
  "off + length bs \<le> length m \<Longrightarrow> n = length bs \<Longrightarrow> bytes_at off n (put off bs m) = bs"
  by (simp add: put_def bytes_at_def)

lemma bytes_at_put_below:
  "off' + n \<le> off \<Longrightarrow> off \<le> length m \<Longrightarrow> bytes_at off' n (put off bs m) = bytes_at off' n m"
  by (simp add: put_def bytes_at_def take_drop)

lemma bytes_at_put_above:
  assumes "off + length bs \<le> off'" "off + length bs \<le> length m"
  shows "bytes_at off' n (put off bs m) = bytes_at off' n m"
proof -
  have "take off m @ bs @ drop (off + length bs) m = (take off m @ bs) @ drop (off + length bs) m" by simp
  moreover have "length (take off m @ bs) = off + length bs" using assms(2) by simp
  moreover have "drop (off' - (off + length bs)) (drop (off + length bs) m) = drop off' m" using assms(1) by simp
  ultimately show ?thesis using assms unfolding put_def bytes_at_def by (metis drop_all drop_append append_Nil)
qed

lemmas bytes_at_put = bytes_at_put_same bytes_at_put_below bytes_at_put_above

lemma length_put_family [simp]: "2 \<le> length m \<Longrightarrow> length (put_family bo f m) = length m"
  by (simp add: put_family_def)

lemma length_put_port [simp]: "4 \<le> length m \<Longrightarrow> length (put_port bo p m) = length m"
  by (simp add: put_port_def)

lemma family_put_port [simp]: "4 \<le> length m \<Longrightarrow> family bo (put_port bo p m) = family bo m"
  by (simp add: family_def put_port_def bytes_at_put_below)

lemma family_put_addr [simp]: "2 \<le> off \<Longrightarrow> off \<le> length m \<Longrightarrow> family bo (put off bs m) = family bo m"
  by (simp add: family_def bytes_at_put_below)

lemma family_put_family [simp]: "2 \<le> length m \<Longrightarrow> f < 65536 \<Longrightarrow> family bo (put_family bo f m) = f"
  by (simp add: family_def put_family_def bytes_at_put_same mem_val_mem_bytes)

lemma port_put_port:
  assumes "4 \<le> length m"
  shows "inet_port bo (put_port bo p m) = p"
proof -
  have b: "htobe bo 2 (unat p) < 256 ^ 2" by (rule htobe_bound) (rule unat_word_bytes_inst)
  have "portNetEndian bo (put_port bo p m) = hostToNetwork16 bo p"
    using assms b by (simp add: portNetEndian_def put_port_def bytes_at_put_same mem_val_mem_bytes)
      (simp add: hostToNetwork16_def)
  then show ?thesis by (simp add: inet_port_def networkToHost16_def htobe_htobe [OF unat_word_bytes_inst(3)])
qed

lemma port_put_addr [simp]: "4 \<le> off \<Longrightarrow> off \<le> length m \<Longrightarrow> inet_port bo (put off bs m) = inet_port bo m"
  by (simp add: inet_port_def portNetEndian_def bytes_at_put_below)

text \<open>The address bytes are not touched by family and port.\<close>

lemma bytes_at_put_port [simp]: "4 \<le> off \<Longrightarrow> 4 \<le> length m \<Longrightarrow> bytes_at off n (put_port bo p m) = bytes_at off n m"
  by (simp add: put_port_def bytes_at_put_above)

lemma nat_to_string_length: "n < 10 ^ k \<Longrightarrow> 0 < k \<Longrightarrow> length (nat_to_string n) \<le> k"
proof (induction n arbitrary: k rule: nat_to_string.induct)
  case (1 n)
  show ?case
  proof (cases "n < 10")
    case True
    then show ?thesis using 1(3) by (subst nat_to_string.simps) simp
  next
    case False
    with 1(2,3) have "k \<noteq> 0" "k \<noteq> 1" by auto
    then obtain j where k: "k = Suc j" "0 < j" by (cases k) auto
    with 1(2) have "n div 10 < 10 ^ j" by (simp add: less_mult_imp_div_less mult.commute)
    with 1(1) [OF False] k(2) have "length (nat_to_string (n div 10)) \<le> j" by blast
    with False k(1) show ?thesis by (subst nat_to_string.simps) simp
  qed
qed

lemma port_text_length: "length (nat_to_string (unat (p :: 16 word))) \<le> 5"
proof (rule nat_to_string_length)
  have "unat p < 256 ^ 2" by (rule unat_word_bytes_inst)
  then show "unat p < 10 ^ 5" by simp
qed simp

text \<open>\<open>ip_field bo a\<close> is the address in network byte order, by family.\<close>

definition ip_field :: "byte_order \<Rightarrow> InetAddress \<Rightarrow> char list" where
  "ip_field bo a = (if family bo a = AF_INET6 then bytes_at 8 16 a else bytes_at 4 4 a)"

definition ip_len :: "nat \<Rightarrow> nat" where
  "ip_len af = (if af = AF_INET6 then INET6_ADDRSTRLEN else INET_ADDRSTRLEN)"

text \<open>
  What the C library promises of the text \<open>t\<close> of an address \<open>b\<close>: it fits the documented length, holds no
  zero byte, is read back, and has a colon exactly for IPv6.
\<close>

definition ntop_ok :: "(nat \<Rightarrow> char list \<Rightarrow> string) \<Rightarrow> (nat \<Rightarrow> string \<Rightarrow> char list option) \<Rightarrow> nat \<Rightarrow> char list \<Rightarrow> bool" where
  "ntop_ok ntop pton af b \<longleftrightarrow> length (ntop af b) < ip_len af \<and> CHR 0x00 \<notin> set (ntop af b) \<and>
     pton af (ntop af b) = Some b \<and> (CHR '':'' \<in> set (ntop af b) \<longleftrightarrow> af = AF_INET6)"

lemma toIp_eq:
  assumes "family bo a = AF_INET \<or> family bo a = AF_INET6"
    and "length (ntop (family bo a) (ip_field bo a)) < ip_len (family bo a)"
    and "46 \<le> sz"
  shows "sockets_toIp bo ntop sz a = Inr (ntop (family bo a) (ip_field bo a))"
  using assms by (auto simp: sockets_toIp_def ip_field_def ip_len_def af_defs Let_def)

lemma toIpPort_eq:
  assumes "family bo a = AF_INET \<or> family bo a = AF_INET6"
    and l: "length (ntop (family bo a) (ip_field bo a)) < ip_len (family bo a)"
  shows "toIpPort bo ntop a = Inr (
    let t = ntop (family bo a) (ip_field bo a) in
    (if family bo a = AF_INET6 then ''['' @ t @ '']'' else t) @ '':'' @ nat_to_string (unat (inet_port bo a)))"
  using toIp_eq [of bo a ntop 63] toIp_eq [of bo a ntop 64] assms(1) l port_text_length [of "inet_port bo a"]
  by (simp add: toIpPort_def sockets_toIpPort_def Let_def inet_port_def snprintf_at_def ip_len_def af_defs split: if_splits)

lemma getInt32_big_endian: "length buf \<ge> 4 \<Longrightarrow> getInt32FromNetByte bo buf = to_int32 (int (le_val (rev (take 4 buf))))"
  by (simp add: getInt32FromNetByte_def htobe_mem_val)

lemma le_bytes_numeral:
  "le_bytes (numeral k) v = char_of (v mod 256) # le_bytes (pred_numeral k) (v div 256)"
  by (subst numeral_eq_Suc) (simp only: le_bytes.simps)

lemma zeros_numeral: "zeros (numeral k) = CHR 0x00 # zeros (pred_numeral k)"
  unfolding zeros_def by (subst numeral_eq_Suc) (simp only: replicate.simps)

lemma zeros_0 [simp]: "zeros 0 = []"
  by (simp add: zeros_def)

lemma loopback_bytes: "be_bytes 4 (unat kInaddrLoopback) = [CHR 0x7f, CHR 0x00, CHR 0x00, CHR 0x01]"
  by (simp add: kInaddrLoopback_def le_bytes_numeral char_of_def bit_0)

lemma any_bytes: "be_bytes 4 (unat kInaddrAny) = zeros 4"
  by (simp add: kInaddrAny_def zeros_numeral le_bytes_numeral char_of_def) (simp add: zeros_def)

lemma in6_bytes:
  "in6addr_any = zeros 15 @ [CHR 0x00]" "in6addr_loopback = zeros 15 @ [CHR 0x01]"
  by (simp_all add: in6addr_any_def in6addr_loopback_def zeros_numeral) (simp add: zeros_def)

lemma InetAddress_port_fields:
  assumes "length raw = 28"
  shows "inet_port bo (InetAddress_port bo raw p loopback v6) = p"
    "family bo (InetAddress_port bo raw p loopback v6) = (if v6 then AF_INET6 else AF_INET)"
    "length (InetAddress_port bo raw p loopback v6) = 28"
    "ip_field bo (InetAddress_port bo raw p loopback v6) =
      (if v6 then zeros 15 @ [if loopback then CHR 0x01 else CHR 0x00]
       else if loopback then [CHR 0x7f, CHR 0x00, CHR 0x00, CHR 0x01] else zeros 4)"
proof -
  show port: "inet_port bo (InetAddress_port bo raw p loopback v6) = p"
    using assms by (simp add: InetAddress_port_def Let_def port_put_port in6_bytes)
  show fam: "family bo (InetAddress_port bo raw p loopback v6) = (if v6 then AF_INET6 else AF_INET)"
    using assms by (simp add: InetAddress_port_def Let_def in6_bytes AF_INET_def AF_INET6_def)
  show "length (InetAddress_port bo raw p loopback v6) = 28"
    using assms by (simp add: InetAddress_port_def Let_def in6_bytes)
  show "ip_field bo (InetAddress_port bo raw p loopback v6) =
      (if v6 then zeros 15 @ [if loopback then CHR 0x01 else CHR 0x00]
       else if loopback then [CHR 0x7f, CHR 0x00, CHR 0x00, CHR 0x01] else zeros 4)"
    unfolding ip_field_def fam using assms
    by (simp add: InetAddress_port_def Let_def in6_bytes bytes_at_put_same mem_bytes_htobe loopback_bytes any_bytes
        AF_INET_def AF_INET6_def)
qed

text \<open>
  An address built from a port number has that port, the family asked for and the wildcard or
  loopback address in network byte order, on a host of either byte order and whatever the memory of
  the object held before.
\<close>

theorem inet_port_ctor:
  assumes "length raw = 28"
  shows "inet_port bo (InetAddress_port bo raw p loopback v6) = p \<and>
    family bo (InetAddress_port bo raw p loopback v6) = (if v6 then AF_INET6 else AF_INET) \<and>
    ip_field bo (InetAddress_port bo raw p loopback v6) =
      (if v6 then zeros 15 @ [if loopback then CHR 0x01 else CHR 0x00]
       else if loopback then [CHR 0x7f, CHR 0x00, CHR 0x00, CHR 0x01] else zeros 4)"
  using InetAddress_port_fields [OF assms] by blast

theorem inet_port_ctor_witness:
  "inet_port Little_Endian (InetAddress_port Little_Endian (replicate 28 (CHR ''x'')) 8080 True False) = 8080"
  using inet_port_ctor [of "replicate 28 (CHR ''x'')" Little_Endian 8080 True False] by simp

lemma InetAddress_ip_fields:
  assumes "length raw = 28" "CHR 0x00 \<notin> set t" "CHR '':'' \<in> set t \<longleftrightarrow> af = AF_INET6"
    and "af = AF_INET \<or> af = AF_INET6" "pton af t = Some b" "length b = (if af = AF_INET6 then 16 else 4)"
  shows "family bo (InetAddress_ip bo pton raw t p False) = af"
    "ip_field bo (InetAddress_ip bo pton raw t p False) = b"
    "inet_port bo (InetAddress_ip bo pton raw t p False) = p"
  using assms
  by (auto simp: InetAddress_ip_def fromIpPort4_def fromIpPort6_def Let_def ip_field_def port_put_port
      bytes_at_put_same AF_INET_def AF_INET6_def)

text \<open>
  C34. The text form loses nothing: for an IPv4 or IPv6 address whose text the C library reads back,
  \<^verbatim>\<open>toIp\<close> gives that text, \<^verbatim>\<open>toIpPort\<close> gives it with the port (in brackets for IPv6) untruncated, and the
  address constructed from the text and the port, without being told the family, has the same
  family, address and port.
\<close>

theorem inet_text_roundtrip:
  assumes "length raw = 28" and "family bo a = AF_INET \<or> family bo a = AF_INET6" and "length a = 28"
    and ok: "ntop_ok ntop pton (family bo a) (ip_field bo a)"
  shows "\<exists>t. toIp bo ntop a = Inr t \<and>
    toIpPort bo ntop a = Inr ((if family bo a = AF_INET6 then ''['' @ t @ '']'' else t) @ '':'' @
      nat_to_string (unat (inet_port bo a))) \<and>
    (let a' = InetAddress_ip bo pton raw t (inet_port bo a) False in
     family bo a' = family bo a \<and> ip_field bo a' = ip_field bo a \<and> inet_port bo a' = inet_port bo a)"
proof (intro exI conjI)
  let ?t = "ntop (family bo a) (ip_field bo a)"
  have l: "length ?t < ip_len (family bo a)" and n: "CHR 0x00 \<notin> set ?t"
    and c: "CHR '':'' \<in> set ?t \<longleftrightarrow> family bo a = AF_INET6" and p: "pton (family bo a) ?t = Some (ip_field bo a)"
    using ok by (simp_all add: ntop_ok_def)
  show "toIp bo ntop a = Inr ?t" using toIp_eq [of bo a ntop 64] assms(2) l by (simp add: toIp_def)
  show "toIpPort bo ntop a = Inr ((if family bo a = AF_INET6 then ''['' @ ?t @ '']'' else ?t) @ '':'' @
      nat_to_string (unat (inet_port bo a)))"
    using toIpPort_eq [of bo a ntop] assms(2) l by (simp add: Let_def)
  have "length (ip_field bo a) = (if family bo a = AF_INET6 then 16 else 4)"
    using assms(3) by (simp add: ip_field_def bytes_at_def)
  from InetAddress_ip_fields [of raw ?t "family bo a" pton "ip_field bo a" bo "inet_port bo a", OF assms(1) n c assms(2) p this]
  show "let a' = InetAddress_ip bo pton raw ?t (inet_port bo a) False in
     family bo a' = family bo a \<and> ip_field bo a' = ip_field bo a \<and> inet_port bo a' = inet_port bo a"
    by (simp add: Let_def)
qed

definition demo_addr :: InetAddress where
  "demo_addr = InetAddress_port Little_Endian (zeros 28) 8080 True False"

theorem inet_text_roundtrip_witness:
  "\<exists>t. toIp Little_Endian (\<lambda>_ _. ''127.0.0.1'') demo_addr = Inr t \<and>
    inet_port Little_Endian (InetAddress_ip Little_Endian
      (\<lambda>_ _. Some [CHR 0x7f, CHR 0x00, CHR 0x00, CHR 0x01]) (zeros 28) t (inet_port Little_Endian demo_addr) False) =
    inet_port Little_Endian demo_addr"
proof -
  have l: "length demo_addr = 28" "family Little_Endian demo_addr = AF_INET"
    "ip_field Little_Endian demo_addr = [CHR 0x7f, CHR 0x00, CHR 0x00, CHR 0x01]"
    by (simp_all add: demo_addr_def InetAddress_port_fields)
  then have "ntop_ok (\<lambda>_ _. ''127.0.0.1'') (\<lambda>_ _. Some [CHR 0x7f, CHR 0x00, CHR 0x00, CHR 0x01])
      (family Little_Endian demo_addr) (ip_field Little_Endian demo_addr)"
    by (simp add: ntop_ok_def ip_len_def af_defs)
  with l inet_text_roundtrip [of "zeros 28" Little_Endian demo_addr "\<lambda>_ _. ''127.0.0.1''"
      "\<lambda>_ _. Some [CHR 0x7f, CHR 0x00, CHR 0x00, CHR 0x01]"]
  show ?thesis by (auto simp: Let_def)
qed

section \<open>Well-typed addresses\<close>

text \<open>
  The union is used at one of two types, or without a family (\<^verbatim>\<open>AF_UNSPEC\<close>), as the zeroed memory that stands
  for an address the kernel did not give. \<open>inet_made\<close> collects the addresses that the library can hold: those its constructors make
  over any memory, those it is given by the kernel, and those it changes.
\<close>

definition inet_typed :: "byte_order \<Rightarrow> InetAddress \<Rightarrow> bool" where
  "inet_typed bo a \<longleftrightarrow> length a = 28 \<and> family bo a \<in> {0, AF_INET, AF_INET6}"

text \<open>\<^verbatim>\<open>inet_pton\<close> gives 4 or 16 bytes by family, \<^verbatim>\<open>inet_ntop\<close> texts of at most the documented lengths.\<close>

definition libc_sizes :: "(nat \<Rightarrow> char list \<Rightarrow> string) \<Rightarrow> (nat \<Rightarrow> string \<Rightarrow> char list option) \<Rightarrow> bool" where
  "libc_sizes ntop pton \<longleftrightarrow> (\<forall>af b. length (ntop af b) < ip_len af) \<and>
     (\<forall>t b. pton AF_INET t = Some b \<longrightarrow> length b = 4) \<and> (\<forall>t b. pton AF_INET6 t = Some b \<longrightarrow> length b = 16)"

inductive inet_made :: "byte_order \<Rightarrow> (nat \<Rightarrow> string \<Rightarrow> char list option) \<Rightarrow> InetAddress \<Rightarrow> bool" for bo pton where
  port: "length raw = 28 \<Longrightarrow> inet_made bo pton (InetAddress_port bo raw p loopback v6)"
| ip: "length raw = 28 \<Longrightarrow> inet_made bo pton (InetAddress_ip bo pton raw t p v6)"
| kernel: "inet_typed bo a \<Longrightarrow> inet_made bo pton (getLocalAddr (Some a))"
| no_local: "inet_made bo pton (getLocalAddr None)"
| no_peer: "inet_made bo pton (getPeerAddr None)"
| accepted: "inet_made bo pton a \<Longrightarrow> inet_typed bo addr \<Longrightarrow> inet_made bo pton (snd (Socket_accept ret addr a))"
| scope: "inet_made bo pton a \<Longrightarrow> inet_made bo pton (setScopeId bo sc a)"
| resolved: "inet_made bo pton a \<Longrightarrow> 4 \<le> length h_addr \<Longrightarrow> resolve ret (Some (ty, len, h_addr)) a = Inr (b, a') \<Longrightarrow> inet_made bo pton a'"

lemma InetAddress_ip_typed:
  assumes "length raw = 28" and "libc_sizes ntop pton"
  shows "length (InetAddress_ip bo pton raw t p v6) = 28" "family bo (InetAddress_ip bo pton raw t p v6) \<in> {AF_INET, AF_INET6}"
  using assms
  by (auto simp: InetAddress_ip_def fromIpPort4_def fromIpPort6_def Let_def libc_sizes_def af_defs split: option.splits)

lemma zeroed_family: "family bo (zeros 28) = 0"
  by (cases bo) (simp_all add: family_def bytes_at_def zeros_def mem_val_def numeral_eq_Suc)

lemma inet_made_typed: "inet_made bo pton a \<Longrightarrow> libc_sizes ntop pton \<Longrightarrow> inet_typed bo a"
proof (induction rule: inet_made.induct)
  case (port raw p loopback v6)
  then show ?case using InetAddress_port_fields(2,3) [of raw bo p loopback v6] by (simp add: inet_typed_def)
next
  case (ip raw t p v6)
  then show ?case using InetAddress_ip_typed [of raw ntop pton bo t p v6] by (auto simp: inet_typed_def)
next
  case (scope a sc)
  then show ?case by (auto simp: setScopeId_def inet_typed_def)
next
  case (resolved a h_addr ret ty len b a')
  then have a: "inet_typed bo a" by simp
  show ?case
  proof (cases "ret = 0")
    case True
    with resolved(3) have "a' = put 4 (take 4 h_addr) a" by (auto simp: resolve_def cxx_assert_Inr_iff)
    with a resolved(2) show ?thesis by (simp add: inet_typed_def)
  qed (use resolved(3) a in \<open>simp add: resolve_def\<close>)
qed (auto simp: zeroed_family inet_typed_def getLocalAddr_def getPeerAddr_def Socket_accept_def setSockAddrInet6_def)

lemma no_family_text:
  assumes "family bo a = 0"
  shows "toIp bo ntop a = Inr []" "\<exists>t. toIpPort bo ntop a = Inr t"
  using assms by (simp_all add: toIp_def toIpPort_def sockets_toIpPort_def sockets_toIp_def af_defs Let_def)




end
