(* ===== verification/CFormat.thy ===== *)
theory CFormat
  imports Dt_Prelude
begin

text \<open>
  \<^verbatim>\<open>sprintf(buf, fmt, i)\<close> and \<^verbatim>\<open>sscanf(s, fmt, &i)\<close> with one \<^verbatim>\<open>int\<close> argument, as the unit manager uses them
  to build socket addresses from \<^verbatim>\<open>config_zmq_s_format\<close> and to read the port back. The conversions
  \<^verbatim>\<open>%i\<close>, \<^verbatim>\<open>%d\<close> and \<^verbatim>\<open>%%\<close> are modelled. A conversion without an argument left and a lone \<^verbatim>\<open>%\<close> at the end
  are undefined in C; so is output that does not fit the buffer with its terminating zero. The main
  lemma is that scanning what was printed gives the number back.
\<close>

section \<open>Printing\<close>

fun sprintf_go :: "string \<Rightarrow> int option \<Rightarrow> string res" where
  "sprintf_go [] arg = Inr []"
| "sprintf_go [c] arg = (if c = CHR ''%'' then Inl Undefined_Behaviour else Inr [c])"
| "sprintf_go (c # d # cs) arg =
     (if c \<noteq> CHR ''%'' then bind_res (sprintf_go (d # cs) arg) (\<lambda>r. Inr (c # r))
      else if d = CHR ''%'' then bind_res (sprintf_go cs arg) (\<lambda>r. Inr (CHR ''%'' # r))
      else if d = CHR ''i'' \<or> d = CHR ''d''
      then (case arg of None \<Rightarrow> Inl Undefined_Behaviour
            | Some v \<Rightarrow> bind_res (sprintf_go cs None) (\<lambda>r. Inr (to_string v @ r)))
      else Inl Unmodelled)"

text \<open>The text written to a buffer of \<open>n\<close> bytes.\<close>

definition sprintf_i :: "nat \<Rightarrow> string \<Rightarrow> int \<Rightarrow> string res" where
  "sprintf_i n fmt v =
     bind_res (sprintf_go (c_str fmt) (Some v))
       (\<lambda>out. if length out < n then Inr out else Inl Undefined_Behaviour)"

text \<open>\<^verbatim>\<open>snprintf\<close> with size \<open>n\<close> truncates instead.\<close>

definition snprintf_i :: "nat \<Rightarrow> string \<Rightarrow> int \<Rightarrow> string res" where
  "snprintf_i n fmt v = bind_res (sprintf_go (c_str fmt) (Some v)) (\<lambda>out. Inr (take (n - 1) out))"

section \<open>Scanning\<close>

definition hex_val :: "char \<Rightarrow> nat option" where
  "hex_val c =
     (let n = of_char c :: nat in
      if 48 \<le> n \<and> n \<le> 57 then Some (n - 48)
      else if 97 \<le> n \<and> n \<le> 102 then Some (n - 87)
      else if 65 \<le> n \<and> n \<le> 70 then Some (n - 55) else None)"

definition base_digit :: "nat \<Rightarrow> char \<Rightarrow> bool" where
  "base_digit b c = (case hex_val c of None \<Rightarrow> False | Some v \<Rightarrow> v < b)"

definition base_val :: "nat \<Rightarrow> string \<Rightarrow> nat" where
  "base_val b ds = foldl (\<lambda>a c. b * a + the (hex_val c)) 0 ds"

text \<open>The base of a \<^verbatim>\<open>%i\<close> conversion follows the prefix of the number; \<^verbatim>\<open>%d\<close> is always decimal.\<close>

definition scan_base :: "char \<Rightarrow> string \<Rightarrow> nat \<times> string" where
  "scan_base conv s =
     (if conv = CHR ''d'' then (10, s)
      else case s of
             c # d # r \<Rightarrow> if c = CHR ''0'' \<and> (d = CHR ''x'' \<or> d = CHR ''X'') then (16, r)
                         else if c = CHR ''0'' then (8, s) else (10, s)
           | c # r \<Rightarrow> if c = CHR ''0'' then (8, s) else (10, s)
           | [] \<Rightarrow> (10, s))"

text \<open>A number and the input after it, or no match; a value that \<^verbatim>\<open>int\<close> cannot hold is undefined.\<close>

definition scan_int :: "char \<Rightarrow> string \<Rightarrow> (int \<times> string) option res" where
  "scan_int conv s =
     (let (neg, t) = parse_sign (dropWhile is_space s);
          (b, u) = scan_base conv t;
          ds = takeWhile (base_digit b) u;
          v = int (base_val b ds);
          z = (if neg then - v else v)
      in if ds = [] then Inr None
         else if is_int32 z then Inr (Some (z, drop (length ds) u))
         else Inl Undefined_Behaviour)"

text \<open>The value assigned to the argument, if any: matching stops at the first mismatch.\<close>

fun sscanf_go :: "string \<Rightarrow> string \<Rightarrow> int option \<Rightarrow> int option res" where
  "sscanf_go [] s got = Inr got"
| "sscanf_go [c] s got = (if c = CHR ''%'' then Inl Undefined_Behaviour else Inr got)"
| "sscanf_go (c # d # cs) s got =
     (if c \<noteq> CHR ''%''
      then (if is_space c then sscanf_go (d # cs) (dropWhile is_space s) got
            else case s of [] \<Rightarrow> Inr got
                 | x # xs \<Rightarrow> if x = c then sscanf_go (d # cs) xs got else Inr got)
      else if d = CHR ''%''
      then (case dropWhile is_space s of [] \<Rightarrow> Inr got
            | x # xs \<Rightarrow> if x = CHR ''%'' then sscanf_go cs xs got else Inr got)
      else if d = CHR ''i'' \<or> d = CHR ''d''
      then (if got \<noteq> None then Inl Undefined_Behaviour
            else bind_res (scan_int d s)
                   (\<lambda>m. case m of None \<Rightarrow> Inr got | Some (z, r) \<Rightarrow> sscanf_go cs r (Some z)))
      else Inl Unmodelled)"

definition sscanf_i :: "string \<Rightarrow> string \<Rightarrow> int option res" where
  "sscanf_i s fmt = sscanf_go (c_str fmt) (c_str s) None"

section \<open>Formats with one conversion\<close>

text \<open>A text that is printed and matched literally.\<close>

definition literal :: "string \<Rightarrow> bool" where
  "literal s \<longleftrightarrow> list_all (\<lambda>c. c \<noteq> CHR ''%'' \<and> c \<noteq> CHR 0x00 \<and> \<not> is_space c) s"

text \<open>A format \<open>pre %i suf\<close> whose number ends where \<open>suf\<close> begins.\<close>

definition one_conv :: "string \<Rightarrow> string \<Rightarrow> string \<Rightarrow> bool" where
  "one_conv fmt pre suf \<longleftrightarrow>
     (fmt = pre @ ''%i'' @ suf \<or> fmt = pre @ ''%d'' @ suf) \<and> literal pre \<and> literal suf \<and>
     suf \<noteq> [] \<and> hex_val (hd suf) = None \<and> hd suf \<noteq> CHR ''x'' \<and> hd suf \<noteq> CHR ''X''"

definition printable :: "string \<Rightarrow> bool" where
  "printable s \<longleftrightarrow> list_all (\<lambda>c. c \<noteq> CHR ''%'' \<and> c \<noteq> CHR 0x00) s"

lemma literal_printable: "literal s \<Longrightarrow> printable s"
  by (auto simp: literal_def printable_def list_all_iff)

lemma printable_append [simp]: "printable (s @ t) \<longleftrightarrow> printable s \<and> printable t"
  by (simp add: printable_def)

lemma printable_no_zero: "printable s \<Longrightarrow> CHR 0x00 \<notin> set s"
  by (auto simp: printable_def list_all_iff)

lemma sprintf_go_plain:
  "printable s \<Longrightarrow> sprintf_go (s @ t) arg = bind_res (sprintf_go t arg) (\<lambda>r. Inr (s @ r))"
proof (induction s)
  case Nil
  then show ?case by (cases "sprintf_go t arg") simp_all
next
  case (Cons c s)
  then show ?case
    by (cases "s @ t"; cases "sprintf_go t arg") (auto simp: printable_def)
qed

lemma sprintf_go_conv:
  assumes "printable pre" "printable suf" "d = CHR ''i'' \<or> d = CHR ''d''"
  shows "sprintf_go (pre @ CHR ''%'' # d # suf) (Some v) = Inr (pre @ to_string v @ suf)"
  using assms sprintf_go_plain [of suf "[]" None] by (auto simp: sprintf_go_plain)

lemma sprintf_i_conv:
  assumes "printable pre" "printable suf" "d = CHR ''i'' \<or> d = CHR ''d''"
    and "length pre + length (to_string v) + length suf < n"
  shows "sprintf_i n (pre @ CHR ''%'' # d # suf) v = Inr (pre @ to_string v @ suf)"
proof -
  have "CHR 0x00 \<notin> set (pre @ CHR ''%'' # d # suf)"
    using assms(1-3) printable_no_zero by auto
  then have "c_str (pre @ CHR ''%'' # d # suf) = pre @ CHR ''%'' # d # suf" by simp
  with assms sprintf_go_conv [OF assms(1-3), of v] show ?thesis
    unfolding sprintf_i_def by simp
qed

lemma sscanf_go_literal:
  "literal pre \<Longrightarrow> fmt \<noteq> [] \<Longrightarrow> sscanf_go (pre @ fmt) (pre @ s) got = sscanf_go fmt s got"
proof (induction pre)
  case (Cons c pre)
  then obtain x xs where "pre @ fmt = x # xs" by (cases "pre @ fmt") auto
  with Cons show ?case by (auto simp: literal_def)
qed simp

text \<open>Literal text after the conversion cannot change the value that was read.\<close>

lemma sscanf_go_rest: "literal suf \<Longrightarrow> sscanf_go suf s got = Inr got"
  by (induction suf s got rule: sscanf_go.induct) (auto simp: literal_def split: list.splits)

lemma hex_val_digit: "is_digit c \<Longrightarrow> hex_val c = Some (digit_val c)"
  by (simp add: hex_val_def is_digit_def digit_val_def)

lemma base_digit_ten: "is_digit c \<Longrightarrow> base_digit 10 c"
  by (auto simp: base_digit_def hex_val_digit digit_val_def is_digit_def)

lemma base_val_ten: "\<forall>c \<in> set ds. is_digit c \<Longrightarrow> base_val 10 ds = digits_val ds"
proof -
  assume "\<forall>c \<in> set ds. is_digit c"
  then have "foldl (\<lambda>a c. 10 * a + the (hex_val c)) k ds = foldl (\<lambda>a c. 10 * a + digit_val c) k ds" for k
    by (induction ds arbitrary: k) (auto simp: hex_val_digit)
  then show ?thesis by (simp add: base_val_def digits_val_def)
qed

lemma base_digit_stop: "hex_val c = None \<Longrightarrow> \<not> base_digit b c"
  by (simp add: base_digit_def)

lemma nat_to_string_zero: "nat_to_string 0 = ''0''"
  by (subst nat_to_string.simps) (simp add: digit_char_def char_of_eq_iff)

text \<open>Reading a printed non-negative number back.\<close>

lemma scan_int_printed:
  assumes "int n \<le> 2147483647" and "conv = CHR ''i'' \<or> conv = CHR ''d''"
    and "rest \<noteq> []" "hex_val (hd rest) = None" "hd rest \<noteq> CHR ''x''" "hd rest \<noteq> CHR ''X''"
  shows "scan_int conv (nat_to_string n @ rest) = Inr (Some (int n, rest))"
proof -
  obtain c cs where c: "nat_to_string n = c # cs" "is_digit c" by (rule nat_to_string_Cons)
  have sign: "parse_sign (dropWhile is_space (nat_to_string n @ rest)) = (False, nat_to_string n @ rest)"
    using c digit_not_special [OF c(2)] by (simp add: parse_sign_def)
  have stop: "takeWhile (base_digit b) rest = []" for b
    using assms(3,4) base_digit_stop [of "hd rest" b] by (cases rest) simp_all
  have dec: "takeWhile (base_digit 10) (nat_to_string n @ rest) = nat_to_string n"
    using nat_to_string_digits [of n] stop [of 10] by (subst takeWhile_append2) (auto intro: base_digit_ten)
  have val: "base_val 10 (nat_to_string n) = n"
    using base_val_ten [OF nat_to_string_digits] by simp
  show ?thesis
  proof (cases "n = 0 \<and> conv = CHR ''i''")
    case True
    then have z: "nat_to_string n @ rest = CHR ''0'' # rest" by (simp add: nat_to_string_zero)
    have base: "scan_base conv (CHR ''0'' # rest) = (8, CHR ''0'' # rest)"
      using True assms(3,5,6) by (cases rest) (simp_all add: scan_base_def)
    have "hex_val CHR ''0'' = Some 0" by (simp add: hex_val_def)
    then have "takeWhile (base_digit 8) (CHR ''0'' # rest) = ''0''" "base_val 8 ''0'' = 0"
      using stop [of 8] by (simp_all add: base_digit_def base_val_def)
    with True sign z base show ?thesis by (simp add: scan_int_def is_int32_def)
  next
    case False
    have "scan_base conv (nat_to_string n @ rest) = (10, nat_to_string n @ rest)"
    proof (cases "n = 0")
      case True
      with False assms(2) show ?thesis by (simp add: scan_base_def)
    next
      case False
      with nat_to_string_hd [of n] c have "c \<noteq> CHR ''0''" by simp
      with c show ?thesis by (simp add: scan_base_def split: list.split)
    qed
    with sign dec val assms(1) show ?thesis by (simp add: scan_int_def is_int32_def)
  qed
qed

text \<open>The round trip: whatever text follows, the port printed into the address is read back.\<close>

lemma sscanf_sprintf:
  assumes fmt: "one_conv fmt pre suf" and v: "0 \<le> v" "v \<le> 2147483647" and ext: "CHR 0x00 \<notin> set ext"
  shows "sscanf_i (pre @ to_string v @ suf @ ext) fmt = Inr (Some v)"
proof -
  from fmt obtain d where d: "fmt = pre @ CHR ''%'' # d # suf" "d = CHR ''i'' \<or> d = CHR ''d''"
    by (auto simp: one_conv_def)
  have lit: "literal pre" "literal suf" "suf \<noteq> []" "hex_val (hd suf) = None"
    "hd suf \<noteq> CHR ''x''" "hd suf \<noteq> CHR ''X''"
    using fmt by (auto simp: one_conv_def)
  have nz: "CHR 0x00 \<notin> set pre" "CHR 0x00 \<notin> set suf"
    using lit(1,2) printable_no_zero literal_printable by blast+
  have ts: "to_string v = nat_to_string (nat v)" using v by (simp add: to_string_def)
  have "CHR 0x00 \<notin> set (nat_to_string (nat v))"
    by (rule nat_to_string_nondigit) (simp add: is_digit_def)
  with nz ext have "c_str (pre @ to_string v @ suf @ ext) = pre @ nat_to_string (nat v) @ suf @ ext"
    by (simp add: ts)
  moreover have "c_str fmt = pre @ CHR ''%'' # d # suf"
    using d nz by auto
  moreover have "scan_int d (nat_to_string (nat v) @ suf @ ext) = Inr (Some (v, suf @ ext))"
    using scan_int_printed [of "nat v" d "suf @ ext"] v d(2) lit by simp
  ultimately show ?thesis
    using d(2) sscanf_go_literal [OF lit(1), of "CHR ''%'' # d # suf"] sscanf_go_rest [OF lit(2)]
    by (auto simp: sscanf_i_def)
qed

end
