(* ===== verification/NetServer.thy ===== *)
theory NetServer
  imports NetThreads NetConnection NetInet CFormat "HOL-Library.List_Lexorder" "HOL-Library.Char_ord"
begin

text \<open>
  The acceptor and the TCP server (\<^verbatim>\<open>network/Acceptor\<close>, \<^verbatim>\<open>network/TcpServer\<close>). The acceptor has its
  channel in the poller of the base loop. The server keeps its connections by name; work for other
  threads goes through the queues of their loops, so that accepting, closing and destroying a
  connection interleave. The lemmas show that connection names are unique, that the erase of a
  closed connection always finds it, and that every connection is destroyed at most once.
\<close>

section \<open>Acceptor\<close>

text \<open>\<open>acc_closed\<close> is the history of the descriptors closed by the acceptor.\<close>

record acceptor =
  acc_fd :: int
  acc_chan :: nat
  acc_poller :: poller
  acc_listening :: bool
  idleFd :: int
  acc_options :: "(sockopt \<times> int) list"
  acc_closed :: "int list"

text \<open>
  The constructor: \<open>sockfd\<close>, \<open>idle\<close> and \<open>bound\<close> are the results of \<^verbatim>\<open>socket\<close>, \<^verbatim>\<open>open("/dev/null")\<close> and \<^verbatim>\<open>bind\<close>.
\<close>

definition Acceptor_ctor :: "int \<Rightarrow> int \<Rightarrow> int \<Rightarrow> nat \<Rightarrow> poller \<Rightarrow> bool \<Rightarrow> acceptor res" where
  "Acceptor_ctor sockfd idle bound p po reuseport =
     bind_res (createNonblockingOrDie sockfd) (\<lambda>fd.
     cxx_assert (idle \<ge> 0)
       (bind_res (Socket_bindAddress bound) (\<lambda>_.
          Inr \<lparr>acc_fd = fd, acc_chan = p, acc_poller = set_chan p (Channel_ctor fd) po, acc_listening = False,
               idleFd = idle, acc_options = [setReuseAddr True, setReusePort reuseport], acc_closed = []\<rparr>)))"

definition acc_on_chan :: "(nat \<Rightarrow> poller \<Rightarrow> poller res) \<Rightarrow> acceptor \<Rightarrow> acceptor res" where
  "acc_on_chan op a = bind_res (op (acc_chan a) (acc_poller a)) (\<lambda>po. Inr (a\<lparr>acc_poller := po\<rparr>))"

text \<open>The destructor, the ends of the channel and of the socket included.\<close>

definition Acceptor_dtor :: "kfault \<Rightarrow> acceptor \<Rightarrow> acceptor res" where
  "Acceptor_dtor kf a =
     bind_res (acc_on_chan (disableAll kf) a) (\<lambda>a1.
     bind_res (acc_on_chan (Channel_remove kf) a1) (\<lambda>a2.
     bind_res (acc_on_chan Channel_dtor a2) (\<lambda>a3.
       Inr (a3\<lparr>acc_closed := acc_closed a3 @ [idleFd a3, acc_fd a3]\<rparr>))))"

definition Acceptor_listen :: "kfault \<Rightarrow> int \<Rightarrow> acceptor \<Rightarrow> acceptor res" where
  "Acceptor_listen kf ret a =
     bind_res (Socket_listen ret) (\<lambda>_. acc_on_chan (enableReading kf) (a\<lparr>acc_listening := True\<rparr>))"

text \<open>
  \<^verbatim>\<open>handleRead\<close>: \<open>connfd\<close>, \<open>peer\<close> and \<open>err\<close> are what \<^verbatim>\<open>accept\<close> gave; when the process is out of descriptors,
  \<open>again\<close> is the result of the second \<^verbatim>\<open>accept\<close>, on the descriptor set free, and \<open>reopened\<close> that of
  \<^verbatim>\<open>open\<close>. The first result is the call of the new-connection callback.
\<close>

definition Acceptor_handleRead ::
    "bool \<Rightarrow> int \<Rightarrow> char list \<Rightarrow> int \<Rightarrow> int \<Rightarrow> int \<Rightarrow> InetAddress \<Rightarrow> acceptor \<Rightarrow> (int \<times> InetAddress) option \<times> acceptor" where
  "Acceptor_handleRead has_callback ret peer err again reopened peerAddr a =
     (case Socket_accept ret peer peerAddr of (connfd, peerAddr') \<Rightarrow>
        if connfd \<ge> 0
        then if has_callback then (Some (connfd, peerAddr'), a)
             else (None, a\<lparr>acc_closed := acc_closed a @ [connfd]\<rparr>)
        else if err = EMFILE
        then (None, a\<lparr>acc_closed := acc_closed a @ [idleFd a, again], idleFd := reopened\<rparr>)
        else (None, a))"

section \<open>The server\<close>

text \<open>The work that is handed to a loop, by connection.\<close>

datatype job = Job_Established nat | Job_Remove nat | Job_Destroyed nat

text \<open>\<^verbatim>\<open>runInLoop\<close> and \<^verbatim>\<open>queueInLoop\<close> calls: the loop and the work.\<close>

datatype loop_call = Run_In_Loop nat job | Queue_In_Loop nat job

record conn_obj =
  co_name :: string
  co_loop :: nat
  co_fd :: int

record TcpServer =
  srv_ipPort :: string
  srv_name :: string
  srv_acceptor :: acceptor
  srv_pool :: pool
  nextConnId :: int
  connections :: "(string, nat) umap"
  srv_objs :: "(nat, conn_obj) umap"

definition TcpServer_ctor :: "nat \<Rightarrow> string \<Rightarrow> string \<Rightarrow> acceptor res \<Rightarrow> TcpServer res" where
  "TcpServer_ctor loop ipPort nameArg acc =
     bind_res acc (\<lambda>a. Inr \<lparr>srv_ipPort = ipPort, srv_name = nameArg, srv_acceptor = a, srv_pool = Pool_ctor loop nameArg,
       nextConnId = 1, connections = [], srv_objs = []\<rparr>)"

definition srv_loop :: "TcpServer \<Rightarrow> nat" where
  "srv_loop s = baseLoop (srv_pool s)"

definition srv_obj :: "TcpServer \<Rightarrow> nat \<Rightarrow> conn_obj res" where
  "srv_obj s i = (case map_of (srv_objs s) i of None \<Rightarrow> Inl Undefined_Behaviour | Some c \<Rightarrow> Inr c)"

text \<open>The connections are visited in the order of their names.\<close>

definition TcpServer_dtor :: "TcpServer \<Rightarrow> loop_call list res" where
  "TcpServer_dtor s =
     foldr (\<lambda>(nm, i) r. bind_res (srv_obj s i) (\<lambda>c. bind_res r (\<lambda>cs. Inr (Run_In_Loop (co_loop c) (Job_Destroyed i) # cs))))
       (sort_key fst (connections s)) (Inr [])"

definition srv_setThreadNum :: "int \<Rightarrow> TcpServer \<Rightarrow> TcpServer res" where
  "srv_setThreadNum n s = cxx_assert (0 \<le> n) (Inr (s\<lparr>srv_pool := setThreadNum n (srv_pool s)\<rparr>))"

text \<open>\<^verbatim>\<open>start\<close>, called in the thread of the server's loop: \<^verbatim>\<open>runInLoop\<close> runs \<^verbatim>\<open>listen\<close> at once.\<close>

definition TcpServer_start ::
    "kfault \<Rightarrow> int \<Rightarrow> (nat \<Rightarrow> char list) \<Rightarrow> (nat \<Rightarrow> nat) \<Rightarrow> bool \<Rightarrow> TcpServer \<Rightarrow> (TcpServer \<times> nat list) res" where
  "TcpServer_start kf listened raw new cb s =
     bind_res (Pool_start raw new cb (srv_pool s)) (\<lambda>(pl, cbs).
     cxx_assert (\<not> acc_listening (srv_acceptor s))
       (bind_res (Acceptor_listen kf listened (srv_acceptor s)) (\<lambda>a.
          Inr (s\<lparr>srv_pool := pl, srv_acceptor := a\<rparr>, cbs))))"

text \<open>\<^verbatim>\<open>snprintf(buf, 64, "-%s#%d", ipPort, nextConnId)\<close>, appended to the server's name.\<close>

definition conn_label :: "TcpServer \<Rightarrow> int \<Rightarrow> string" where
  "conn_label s k = srv_name s @ take 63 (''-'' @ c_str (srv_ipPort s) @ ''#'' @ to_string k)"

text \<open>\<open>i\<close> is the new connection object. Incrementing the largest \<^verbatim>\<open>int\<close> is undefined.\<close>

definition newConnection :: "nat \<Rightarrow> int \<Rightarrow> TcpServer \<Rightarrow> (TcpServer \<times> loop_call list) res" where
  "newConnection i sockfd s =
     bind_res (getNextLoop (srv_pool s)) (\<lambda>(ioLoop, pl).
       if nextConnId s \<ge> 2147483647 then Inl Undefined_Behaviour
       else let connName = conn_label s (nextConnId s) in
            Inr (s\<lparr>srv_pool := pl, nextConnId := nextConnId s + 1,
                   connections := umap_set connName i (connections s),
                   srv_objs := umap_set i \<lparr>co_name = connName, co_loop = ioLoop, co_fd = sockfd\<rparr> (srv_objs s)\<rparr>,
                 [Run_In_Loop ioLoop (Job_Established i)]))"

definition removeConnection :: "nat \<Rightarrow> TcpServer \<Rightarrow> loop_call list" where
  "removeConnection i s = [Run_In_Loop (srv_loop s) (Job_Remove i)]"

definition removeConnectionInLoop :: "nat \<Rightarrow> TcpServer \<Rightarrow> (TcpServer \<times> loop_call list) res" where
  "removeConnectionInLoop i s =
     bind_res (srv_obj s i) (\<lambda>c.
       cxx_assert (map_of (connections s) (co_name c) \<noteq> None)
         (Inr (s\<lparr>connections := umap_erase (co_name c) (connections s)\<rparr>,
               [Queue_In_Loop (co_loop c) (Job_Destroyed i)])))"

section \<open>Server and loops together\<close>

text \<open>
  The server, the work waiting in the queues of the loops, the state of each connection, and the
  connections whose \<^verbatim>\<open>connectDestroyed\<close> has run.
\<close>

record net =
  srv :: TcpServer
  jobs :: "(nat \<times> job) list"
  phase :: "(nat, StateE) umap"
  destroyed :: "nat list"

definition phase_of :: "net \<Rightarrow> nat \<Rightarrow> StateE option" where
  "phase_of n i = map_of (phase n) i"

text \<open>Work run by a loop. The connection's part is as in \<^verbatim>\<open>TcpConnection\<close>: its assertions on the state.\<close>

definition push_calls :: "loop_call list \<Rightarrow> net \<Rightarrow> net" where
  "push_calls cs n = n\<lparr>jobs := jobs n @ map (\<lambda>c. case c of Run_In_Loop l j \<Rightarrow> (l, j) | Queue_In_Loop l j \<Rightarrow> (l, j)) cs\<rparr>"

definition run_job :: "job \<Rightarrow> net \<Rightarrow> net res" where
  "run_job j n =
     (case j of
        Job_Established i \<Rightarrow> cxx_assert (phase_of n i = Some kConnecting)
          (Inr (n\<lparr>phase := umap_set i kConnected (phase n)\<rparr>))
      | Job_Remove i \<Rightarrow> bind_res (removeConnectionInLoop i (srv n)) (\<lambda>(s, cs). Inr (push_calls cs (n\<lparr>srv := s\<rparr>)))
      | Job_Destroyed i \<Rightarrow>
          (case phase_of n i of
             Some kConnected \<Rightarrow> Inr (n\<lparr>phase := umap_set i kDisconnected (phase n), destroyed := destroyed n @ [i]\<rparr>)
           | Some kDisconnected \<Rightarrow> cxx_assert (i \<notin> set (destroyed n)) (Inr (n\<lparr>destroyed := destroyed n @ [i]\<rparr>))
           | _ \<Rightarrow> Inl Assert_Failed))"

text \<open>The calls made in the thread of loop \<open>cur\<close>: \<^verbatim>\<open>runInLoop\<close> on the own loop runs the work at once.\<close>

fun make_calls :: "nat \<Rightarrow> loop_call list \<Rightarrow> net \<Rightarrow> net res" where
  "make_calls cur [] n = Inr n"
| "make_calls cur (Run_In_Loop l j # cs) n =
     bind_res (if l = cur then run_job j n else Inr (push_calls [Run_In_Loop l j] n)) (make_calls cur cs)"
| "make_calls cur (Queue_In_Loop l j # cs) n = make_calls cur cs (push_calls [Queue_In_Loop l j] n)"

text \<open>
  The base loop accepts a connection; a connection is shut down by its owner; a loop sees its
  connection \<open>i\<close> close; a loop runs its first waiting work.
\<close>

definition net_accept :: "nat \<Rightarrow> int \<Rightarrow> net \<Rightarrow> net res" where
  "net_accept i fd n =
     bind_res (newConnection i fd (srv n)) (\<lambda>(s, cs).
       make_calls (srv_loop s) cs (n\<lparr>srv := s, phase := umap_set i kConnecting (phase n)\<rparr>))"

definition net_shutdown :: "nat \<Rightarrow> net \<Rightarrow> net" where
  "net_shutdown i n = (if phase_of n i = Some kConnected then n\<lparr>phase := umap_set i kDisconnecting (phase n)\<rparr> else n)"

definition net_close :: "nat \<Rightarrow> net \<Rightarrow> net res" where
  "net_close i n =
     bind_res (srv_obj (srv n) i) (\<lambda>c.
     cxx_assert (phase_of n i = Some kConnected \<or> phase_of n i = Some kDisconnecting)
       (make_calls (co_loop c) (removeConnection i (srv n)) (n\<lparr>phase := umap_set i kDisconnected (phase n)\<rparr>)))"

definition net_run :: "nat \<Rightarrow> net \<Rightarrow> net res" where
  "net_run l n =
     (case dropWhile (\<lambda>(l', j). l' \<noteq> l) (jobs n) of
        [] \<Rightarrow> Inr n
      | (_, j) # post \<Rightarrow> run_job j (n\<lparr>jobs := takeWhile (\<lambda>(l', j). l' \<noteq> l) (jobs n) @ post\<rparr>))"

lemma phase_of_jobs [simp]: "phase_of (n\<lparr>jobs := js\<rparr>) i = phase_of n i"
  by (simp add: phase_of_def)

section \<open>Names of connections\<close>

lemma nat_to_string_inj: "nat_to_string a = nat_to_string b \<Longrightarrow> a = b"
  by (metis digits_val_nat_to_string)

lemma conn_label_inj:
  assumes l: "length (c_str (srv_ipPort s)) \<le> 51" and k: "1 \<le> k" "k \<le> 2147483647" and j: "1 \<le> j" "j \<le> 2147483647"
    and eq: "conn_label s k = conn_label s j"
  shows "k = j"
proof -
  have len: "length (to_string m) \<le> 10" if "1 \<le> m" "m \<le> 2147483647" for m
  proof -
    have "nat m < 10 ^ 10" using that by simp
    from nat_to_string_length [OF this] show ?thesis using that by (simp add: to_string_def)
  qed
  have full: "conn_label s m = srv_name s @ ''-'' @ c_str (srv_ipPort s) @ ''#'' @ to_string m"
    if "1 \<le> m" "m \<le> 2147483647" for m
    using len [OF that] l by (simp add: conn_label_def)
  have "to_string k = to_string j" using eq full [OF k] full [OF j] by simp
  then have "nat_to_string (nat k) = nat_to_string (nat j)" using k j by (simp add: to_string_def)
  then show ?thesis using nat_to_string_inj k j by fastforce
qed

section \<open>The invariant\<close>

fun job_id :: "job \<Rightarrow> nat" where
  "job_id (Job_Established i) = i"
| "job_id (Job_Remove i) = i"
| "job_id (Job_Destroyed i) = i"

text \<open>The waiting work for one connection.\<close>

definition tok :: "net \<Rightarrow> nat \<Rightarrow> (nat \<times> job) list" where
  "tok n i = filter (\<lambda>(l, j). job_id j = i) (jobs n)"

text \<open>The life of a connection: at each point, what waits for it and whether the server has it.\<close>

definition obj_inv :: "net \<Rightarrow> nat \<Rightarrow> conn_obj \<Rightarrow> bool" where
  "obj_inv n i c \<longleftrightarrow>
     (let reg = map_of (connections (srv n)) (co_name c) in
      case phase_of n i of
        None \<Rightarrow> False
      | Some kConnecting \<Rightarrow> tok n i = [(co_loop c, Job_Established i)] \<and> reg = Some i \<and> i \<notin> set (destroyed n)
      | Some kConnected \<Rightarrow> tok n i = [] \<and> reg = Some i \<and> i \<notin> set (destroyed n)
      | Some kDisconnecting \<Rightarrow> tok n i = [] \<and> reg = Some i \<and> i \<notin> set (destroyed n)
      | Some kDisconnected \<Rightarrow>
          tok n i = [(srv_loop (srv n), Job_Remove i)] \<and> reg = Some i \<and> i \<notin> set (destroyed n) \<or>
          tok n i = [(co_loop c, Job_Destroyed i)] \<and> reg = None \<and> i \<notin> set (destroyed n) \<or>
          tok n i = [] \<and> reg = None \<and> i \<in> set (destroyed n))"

definition net_inv :: "net \<Rightarrow> bool" where
  "net_inv n \<longleftrightarrow> pool_ok (srv_pool (srv n)) \<and> length (c_str (srv_ipPort (srv n))) \<le> 51 \<and> 1 \<le> nextConnId (srv n) \<and>
     (\<forall>i c. map_of (srv_objs (srv n)) i = Some c \<longrightarrow> obj_inv n i c \<and> co_loop c \<in> set (loops_of (srv_pool (srv n))) \<and>
        (\<exists>k. 1 \<le> k \<and> k < nextConnId (srv n) \<and> k \<le> 2147483647 \<and> co_name c = conn_label (srv n) k)) \<and>
     (\<forall>i j c d. map_of (srv_objs (srv n)) i = Some c \<longrightarrow> map_of (srv_objs (srv n)) j = Some d \<longrightarrow>
        co_name c = co_name d \<longrightarrow> i = j) \<and>
     (\<forall>nm i. map_of (connections (srv n)) nm = Some i \<longrightarrow> (\<exists>c. map_of (srv_objs (srv n)) i = Some c \<and> co_name c = nm)) \<and>
     (\<forall>l j. (l, j) \<in> set (jobs n) \<longrightarrow> map_of (srv_objs (srv n)) (job_id j) \<noteq> None) \<and>
     (\<forall>i. i \<in> set (destroyed n) \<longrightarrow> map_of (srv_objs (srv n)) i \<noteq> None) \<and> distinct (destroyed n)"

lemma net_inv_obj: "net_inv n \<Longrightarrow> map_of (srv_objs (srv n)) i = Some c \<Longrightarrow> obj_inv n i c"
  by (simp add: net_inv_def)

lemma obj_inv_cong:
  assumes "tok n' i = tok n i" "phase_of n' i = phase_of n i" "srv_loop (srv n') = srv_loop (srv n)"
    "map_of (connections (srv n')) (co_name c) = map_of (connections (srv n)) (co_name c)"
    "i \<in> set (destroyed n') \<longleftrightarrow> i \<in> set (destroyed n)"
  shows "obj_inv n' i c \<longleftrightarrow> obj_inv n i c"
  unfolding obj_inv_def assms ..

lemma obj_inv_reg: "obj_inv n i c \<Longrightarrow> map_of (connections (srv n)) (co_name c) \<in> {None, Some i}"
  by (auto simp: obj_inv_def Let_def split: option.splits StateE.splits)

text \<open>A step that touches one connection only.\<close>

lemma net_inv_update:
  assumes inv: "net_inv n" and c: "map_of (srv_objs (srv n)) i = Some c"
    and same: "srv_ipPort (srv n') = srv_ipPort (srv n)" "srv_name (srv n') = srv_name (srv n)"
      "srv_pool (srv n') = srv_pool (srv n)" "nextConnId (srv n') = nextConnId (srv n)" "srv_objs (srv n') = srv_objs (srv n)"
    and con: "\<And>nm. nm \<noteq> co_name c \<Longrightarrow> map_of (connections (srv n')) nm = map_of (connections (srv n)) nm"
      "map_of (connections (srv n')) (co_name c) \<in> {None, Some i}"
    and other: "\<And>k. k \<noteq> i \<Longrightarrow> tok n' k = tok n k" "\<And>k. k \<noteq> i \<Longrightarrow> phase_of n' k = phase_of n k"
      "\<And>k. k \<noteq> i \<Longrightarrow> k \<in> set (destroyed n') \<longleftrightarrow> k \<in> set (destroyed n)"
    and d: "distinct (destroyed n')" and new: "obj_inv n' i c"
  shows "net_inv n'"
proof -
  have lab: "conn_label (srv n') k = conn_label (srv n) k" for k by (simp add: conn_label_def same)
  have loop: "srv_loop (srv n') = srv_loop (srv n)" by (simp add: srv_loop_def same)
  have objs: "obj_inv n' k e" if k: "map_of (srv_objs (srv n)) k = Some e" for k e
  proof (cases "k = i")
    case False
    with k c inv have "co_name e \<noteq> co_name c" unfolding net_inv_def by blast
    with obj_inv_cong [of n' k n e] net_inv_obj [OF inv k] other [OF False] loop con(1) show ?thesis by simp
  qed (use k c new in simp)
  have "map_of (srv_objs (srv n)) (job_id j) \<noteq> None" if "(l, j) \<in> set (jobs n')" for l j
  proof (cases "job_id j = i")
    case False
    have "(l, j) \<in> set (tok n' (job_id j))" using that by (simp add: tok_def)
    with other(1) [OF False] have "(l, j) \<in> set (jobs n)" by (simp add: tok_def)
    with inv show ?thesis unfolding net_inv_def by blast
  qed (use c in simp)
  moreover have "map_of (srv_objs (srv n)) k \<noteq> None" if "k \<in> set (destroyed n')" for k
    using that c other(3) [of k] inv unfolding net_inv_def by (cases "k = i") auto
  moreover have "\<exists>e. map_of (srv_objs (srv n)) k = Some e \<and> co_name e = nm"
    if "map_of (connections (srv n')) nm = Some k" for nm k
    using that con c inv unfolding net_inv_def by (cases "nm = co_name c") auto
  ultimately show ?thesis using inv objs d unfolding net_inv_def same lab by simp
qed

lemma tok_rotate:
  assumes "\<And>i c. map_of objs i = Some c \<Longrightarrow> length (filter (\<lambda>(l, j). job_id j = i) (pre @ (l, j) # post)) \<le> 1"
    and "map_of objs (job_id j) \<noteq> None"
  shows "filter (\<lambda>(l, j). job_id j = i) (pre @ (l, j) # post) = filter (\<lambda>(l, j). job_id j = i) ((l, j) # pre @ post)"
proof (cases "job_id j = i")
  case True
  from assms(2) obtain c where "map_of objs (job_id j) = Some c" by auto
  from assms(1) [OF this] True show ?thesis by (simp add: le_Suc_eq)
qed simp

lemma obj_inv_tok: "obj_inv n i c \<Longrightarrow> length (tok n i) \<le> 1"
  by (auto simp: obj_inv_def Let_def split: option.splits StateE.splits)

lemma net_inv_rotate:
  assumes "net_inv n" "jobs n = pre @ (l, j) # post"
  shows "net_inv (n\<lparr>jobs := (l, j) # pre @ post\<rparr>)"
proof -
  from assms have "map_of (srv_objs (srv n)) (job_id j) \<noteq> None" unfolding net_inv_def by auto
  then obtain c where c: "map_of (srv_objs (srv n)) (job_id j) = Some c" by auto
  have t: "tok (n\<lparr>jobs := (l, j) # pre @ post\<rparr>) i = tok n i" for i
    using tok_rotate [of "srv_objs (srv n)" pre l j post i] c net_inv_obj [OF assms(1)] obj_inv_tok [of n] assms(2)
    by (fastforce simp: tok_def)
  let ?n = "n\<lparr>jobs := (l, j) # pre @ post\<rparr>"
  have o: "obj_inv ?n (job_id j) c"
    using obj_inv_cong [of ?n "job_id j" n c] net_inv_obj [OF assms(1) c] by (simp add: t)
  have "distinct (destroyed n)" using assms(1) by (simp add: net_inv_def)
  with o obj_inv_reg [OF net_inv_obj [OF assms(1) c]] show ?thesis
    by (intro net_inv_update [OF assms(1) c]) (simp_all add: t)
qed

text \<open>Running a piece of work that waits.\<close>

lemma run_job_inv:
  assumes inv: "net_inv (n\<lparr>jobs := (l, j) # jobs n\<rparr>)"
  shows "\<exists>n'. run_job j n = Inr n' \<and> net_inv n'"
proof -
  let ?m = "n\<lparr>jobs := (l, j) # jobs n\<rparr>"
  define i where "i = job_id j"
  from inv have "map_of (srv_objs (srv n)) i \<noteq> None" unfolding net_inv_def i_def by simp
  then obtain c where c: "map_of (srv_objs (srv ?m)) i = Some c" by auto
  have oi: "obj_inv ?m i c" by (rule net_inv_obj [OF inv c])
  have tm: "tok ?m k = (if k = i then (l, j) # tok n i else tok n k)" for k by (simp add: tok_def i_def)
  have dd: "distinct (destroyed n)" using inv by (simp add: net_inv_def)
  show ?thesis
  proof (cases j)
    case (Job_Established x)
    then have x: "x = i" by (simp add: i_def)
    let ?n' = "n\<lparr>phase := umap_set i kConnected (phase n)\<rparr>"
    have ph: "phase_of n i = Some kConnecting" and t: "tok n i = []" and reg: "map_of (connections (srv n)) (co_name c) = Some i"
      and nd: "i \<notin> set (destroyed n)"
      using oi tm [of i] by (auto simp: obj_inv_def Let_def Job_Established split: option.splits StateE.splits)
    have o: "obj_inv ?n' i c" using t reg nd by (simp add: obj_inv_def phase_of_def tok_def)
    have "net_inv ?n'"
      by (rule net_inv_update [OF inv c]) (use tm reg dd o in \<open>auto simp: phase_of_def tok_def\<close>)
    then show ?thesis using ph by (simp add: run_job_def Job_Established x)
  next
    case (Job_Remove x)
    then have x: "x = i" by (simp add: i_def)
    have ph: "phase_of n i = Some kDisconnected" and t: "tok n i = []" and reg: "map_of (connections (srv n)) (co_name c) = Some i"
      and nd: "i \<notin> set (destroyed n)"
      using oi tm [of i] by (auto simp: obj_inv_def Let_def Job_Remove split: option.splits StateE.splits)
    let ?s = "(srv n)\<lparr>connections := umap_erase (co_name c) (connections (srv n))\<rparr>"
    let ?n' = "n\<lparr>srv := ?s, jobs := jobs n @ [(co_loop c, Job_Destroyed i)]\<rparr>"
    have tn: "tok ?n' k = (if k = i then [(co_loop c, Job_Destroyed i)] else tok ?m k)" for k
      using t tm [of k] by (simp add: tok_def)
    have o: "obj_inv ?n' i c" using ph nd tn [of i] by (simp add: obj_inv_def phase_of_def)
    have "net_inv ?n'"
      by (rule net_inv_update [OF inv c]) (use tn dd o in \<open>auto simp: phase_of_def\<close>)
    then show ?thesis using c reg
      by (simp add: run_job_def Job_Remove x removeConnectionInLoop_def srv_obj_def push_calls_def)
  next
    case (Job_Destroyed x)
    then have x: "x = i" by (simp add: i_def)
    let ?n' = "n\<lparr>destroyed := destroyed n @ [i]\<rparr>"
    have ph: "phase_of n i = Some kDisconnected" and t: "tok n i = []" and reg: "map_of (connections (srv n)) (co_name c) = None"
      and nd: "i \<notin> set (destroyed n)"
      using oi tm [of i] by (auto simp: obj_inv_def Let_def Job_Destroyed split: option.splits StateE.splits)
    have tn: "tok ?n' k = tok n k" for k by (simp add: tok_def)
    have pn: "phase_of ?n' k = phase_of n k" for k by (simp add: phase_of_def)
    have o: "obj_inv ?n' i c" using t reg ph tn by (simp add: obj_inv_def pn)
    have "net_inv ?n'"
      by (rule net_inv_update [OF inv c]) (use tm tn dd o reg nd in \<open>auto simp: phase_of_def\<close>)
    then show ?thesis using ph nd by (simp add: run_job_def Job_Destroyed x)
  qed
qed

text \<open>A single \<^verbatim>\<open>runInLoop\<close>: at once or later.\<close>

lemma make_call_inv:
  assumes "net_inv (n\<lparr>jobs := jobs n @ [(l, j)]\<rparr>)"
  shows "\<exists>n'. make_calls cur [Run_In_Loop l j] n = Inr n' \<and> net_inv n'"
proof (cases "l = cur")
  case True
  have "net_inv (n\<lparr>jobs := (l, j) # jobs n\<rparr>)"
    using net_inv_rotate [OF assms, of "jobs n" l j "[]"] by simp
  from run_job_inv [OF this] True show ?thesis by auto
qed (use assms in \<open>simp add: push_calls_def\<close>)

lemma net_run_inv:
  assumes "net_inv n"
  shows "\<exists>n'. net_run l n = Inr n' \<and> net_inv n'"
proof (cases "dropWhile (\<lambda>(l', j). l' \<noteq> l) (jobs n)")
  case Nil
  then have "net_run l n = Inr n" unfolding net_run_def Nil by simp
  with assms show ?thesis by simp
next
  case (Cons a post)
  obtain l' j where a: "a = (l', j)" by (cases a)
  let ?pre = "takeWhile (\<lambda>(l', j). l' \<noteq> l) (jobs n)"
  have "jobs n = ?pre @ (l', j) # post" using Cons a by (metis takeWhile_dropWhile_id)
  from net_inv_rotate [OF assms this]
  have "net_inv ((n\<lparr>jobs := ?pre @ post\<rparr>)\<lparr>jobs := (l', j) # jobs (n\<lparr>jobs := ?pre @ post\<rparr>)\<rparr>)" by simp
  from run_job_inv [OF this] Cons a show ?thesis by (simp add: net_run_def)
qed

lemma net_close_inv:
  assumes inv: "net_inv n" and ph: "phase_of n i = Some kConnected \<or> phase_of n i = Some kDisconnecting"
    and c: "map_of (srv_objs (srv n)) i = Some c"
  shows "\<exists>n'. net_close i n = Inr n' \<and> net_inv n'"
proof -
  let ?n = "n\<lparr>phase := umap_set i kDisconnected (phase n)\<rparr>"
  let ?m = "?n\<lparr>jobs := jobs ?n @ [(srv_loop (srv n), Job_Remove i)]\<rparr>"
  have t: "tok n i = []" and reg: "map_of (connections (srv n)) (co_name c) = Some i" and nd: "i \<notin> set (destroyed n)"
    using net_inv_obj [OF inv c] ph by (auto simp: obj_inv_def Let_def)
  have tm: "tok ?m k = (if k = i then [(srv_loop (srv n), Job_Remove i)] else tok n k)" for k
    using t by (simp add: tok_def)
  have o: "obj_inv ?m i c" using tm [of i] reg nd by (simp add: obj_inv_def phase_of_def)
  have dd: "distinct (destroyed n)" using inv by (simp add: net_inv_def)
  have "net_inv ?m"
    by (rule net_inv_update [OF inv c]) (use tm reg dd o in \<open>auto simp: phase_of_def\<close>)
  from make_call_inv [OF this, of "co_loop c"] c ph show ?thesis
    by (auto simp: net_close_def srv_obj_def removeConnection_def)
qed

lemma net_shutdown_inv:
  assumes inv: "net_inv n"
  shows "net_inv (net_shutdown i n)"
proof (cases "phase_of n i = Some kConnected \<and> map_of (srv_objs (srv n)) i \<noteq> None")
  case True
  then obtain c where c: "map_of (srv_objs (srv n)) i = Some c" by auto
  let ?n = "n\<lparr>phase := umap_set i kDisconnecting (phase n)\<rparr>"
  have t: "tok ?n k = tok n k" for k by (simp add: tok_def)
  have x: "tok n i = []" "map_of (connections (srv n)) (co_name c) = Some i" "i \<notin> set (destroyed n)"
    using net_inv_obj [OF inv c] True by (auto simp: obj_inv_def Let_def)
  then have o: "obj_inv ?n i c" by (simp add: obj_inv_def phase_of_def t)
  have "distinct (destroyed n)" using inv by (simp add: net_inv_def)
  then have "net_inv ?n" by (intro net_inv_update [OF inv c]) (use x o t in \<open>auto simp: phase_of_def\<close>)
  with True show ?thesis by (simp add: net_shutdown_def)
next
  case False
  show ?thesis
  proof (cases "phase_of n i = Some kConnected")
    case True
    let ?n = "n\<lparr>phase := umap_set i kDisconnecting (phase n)\<rparr>"
    have "obj_inv ?n k e = obj_inv n k e" if "map_of (srv_objs (srv n)) k = Some e" for k e
      using False True that obj_inv_cong [of ?n k n e] by (cases "k = i") (auto simp: tok_def phase_of_def)
    with inv True show ?thesis by (simp add: net_shutdown_def net_inv_def)
  qed (use inv in \<open>simp add: net_shutdown_def\<close>)
qed

lemma getNextLoop_base: "getNextLoop p = Inr (l, p') \<Longrightarrow> baseLoop p' = baseLoop p"
  by (auto simp: getNextLoop_def Let_def cxx_assert_def split: if_splits)

lemma net_inv_fresh:
  assumes inv: "net_inv n" and fresh: "map_of (srv_objs (srv n)) i = None"
  shows "tok n i = []" "i \<notin> set (destroyed n)"
proof -
  have "job_id j \<noteq> i" if "(l, j) \<in> set (jobs n)" for l j using inv fresh that unfolding net_inv_def by fastforce
  then show "tok n i = []" by (auto simp: tok_def filter_empty_conv)
  show "i \<notin> set (destroyed n)" using inv fresh unfolding net_inv_def by blast
qed

lemma label_fresh:
  assumes inv: "net_inv n" and lim: "nextConnId (srv n) < 2147483647" and e: "map_of (srv_objs (srv n)) k = Some e"
  shows "co_name e \<noteq> conn_label (srv n) (nextConnId (srv n))"
proof -
  from inv e obtain m where m: "1 \<le> m" "m < nextConnId (srv n)" "m \<le> 2147483647" "co_name e = conn_label (srv n) m"
    unfolding net_inv_def by blast
  have "length (c_str (srv_ipPort (srv n))) \<le> 51" "1 \<le> nextConnId (srv n)" using inv by (simp_all add: net_inv_def)
  with conn_label_inj [of "srv n" m "nextConnId (srv n)"] m lim show ?thesis by auto
qed

text \<open>The state in which the new connection is entered and its first piece of work waits.\<close>

definition entered :: "nat \<Rightarrow> int \<Rightarrow> nat \<Rightarrow> pool \<Rightarrow> net \<Rightarrow> net" where
  "entered i fd io pl n =
     (let s = srv n; nm = conn_label s (nextConnId s) in
      n\<lparr>srv := s\<lparr>srv_pool := pl, nextConnId := nextConnId s + 1, connections := umap_set nm i (connections s),
               srv_objs := umap_set i \<lparr>co_name = nm, co_loop = io, co_fd = fd\<rparr> (srv_objs s)\<rparr>,
        phase := umap_set i kConnecting (phase n), jobs := jobs n @ [(io, Job_Established i)]\<rparr>)"

lemma entered_inv:
  assumes inv: "net_inv n" and fresh: "map_of (srv_objs (srv n)) i = None" and lim: "nextConnId (srv n) < 2147483647"
    and pl: "pool_ok pl" "io \<in> set (loops_of (srv_pool (srv n)))" "loops_of pl = loops_of (srv_pool (srv n))"
      "baseLoop pl = baseLoop (srv_pool (srv n))"
  shows "net_inv (entered i fd io pl n)"
proof -
  let ?m = "entered i fd io pl n" and ?nm = "conn_label (srv n) (nextConnId (srv n))"
  have t: "tok ?m k = (if k = i then [(io, Job_Established i)] else tok n k)" for k
    using net_inv_fresh [OF inv fresh] by (simp add: tok_def entered_def Let_def)
  have ph: "phase_of ?m k = (if k = i then Some kConnecting else phase_of n k)" for k
    by (simp add: phase_of_def entered_def Let_def)
  have objs: "map_of (srv_objs (srv ?m)) = (map_of (srv_objs (srv n)))(i \<mapsto> \<lparr>co_name = ?nm, co_loop = io, co_fd = fd\<rparr>)"
    and con: "map_of (connections (srv ?m)) = (map_of (connections (srv n)))(?nm \<mapsto> i)"
    and rest: "srv_pool (srv ?m) = pl" "nextConnId (srv ?m) = nextConnId (srv n) + 1" "destroyed ?m = destroyed n"
      "srv_ipPort (srv ?m) = srv_ipPort (srv n)" "jobs ?m = jobs n @ [(io, Job_Established i)]"
    and lab: "\<And>k. conn_label (srv ?m) k = conn_label (srv n) k" and loop: "srv_loop (srv ?m) = srv_loop (srv n)"
    using pl(4) by (simp_all add: entered_def Let_def conn_label_def srv_loop_def)
  note lf = label_fresh [OF inv lim]
  have old: "obj_inv ?m k e" if k: "map_of (srv_objs (srv n)) k = Some e" for k e
  proof -
    have "k \<noteq> i" using k fresh by auto
    with lf [OF k] obj_inv_cong [of ?m k n e] net_inv_obj [OF inv k] t ph con rest loop show ?thesis by simp
  qed
  have new: "obj_inv ?m i \<lparr>co_name = ?nm, co_loop = io, co_fd = fd\<rparr>"
    using t [of i] ph [of i] con net_inv_fresh [OF inv fresh] rest by (simp add: obj_inv_def)
  have kold: "\<exists>k'. 1 \<le> k' \<and> k' < nextConnId (srv n) + 1 \<and> k' \<le> 2147483647 \<and> co_name e = conn_label (srv n) k'"
    and lold: "co_loop e \<in> set (loops_of pl)"
    if k: "map_of (srv_objs (srv n)) k = Some e" for k e
  proof -
    from inv k obtain k' where "1 \<le> k'" "k' < nextConnId (srv n)" "k' \<le> 2147483647" "co_name e = conn_label (srv n) k'"
      and l: "co_loop e \<in> set (loops_of (srv_pool (srv n)))" unfolding net_inv_def by blast
    then show "\<exists>k'. 1 \<le> k' \<and> k' < nextConnId (srv n) + 1 \<and> k' \<le> 2147483647 \<and> co_name e = conn_label (srv n) k'"
      by (intro exI [of _ k']) simp
    show "co_loop e \<in> set (loops_of pl)" using l pl(3) by simp
  qed
  have knew: "1 \<le> nextConnId (srv n)" and ip: "length (c_str (srv_ipPort (srv n))) \<le> 51" and dd: "distinct (destroyed n)"
    using inv by (simp_all add: net_inv_def)
  have inj: "k = k'" if "map_of (srv_objs (srv n)) k = Some c" "map_of (srv_objs (srv n)) k' = Some d" "co_name c = co_name d" for k k' c d
    using inv that unfolding net_inv_def by blast
  have reg: "\<exists>c. map_of (srv_objs (srv n)) k = Some c \<and> co_name c = nm" if "map_of (connections (srv n)) nm = Some k" for nm k
    using inv that unfolding net_inv_def by blast
  have jb: "map_of (srv_objs (srv n)) (job_id j) \<noteq> None" if "(l, j) \<in> set (jobs n)" for l j
    using inv that unfolding net_inv_def by blast
  have ds: "map_of (srv_objs (srv n)) k \<noteq> None" if "k \<in> set (destroyed n)" for k
    using inv that unfolding net_inv_def by blast
  have 1: "obj_inv ?m k e \<and> co_loop e \<in> set (loops_of pl) \<and>
      (\<exists>k. 1 \<le> k \<and> k < nextConnId (srv n) + 1 \<and> k \<le> 2147483647 \<and> co_name e = conn_label (srv n) k)"
    if "map_of (srv_objs (srv ?m)) k = Some e" for k e
  proof (cases "k = i")
    case True
    with that have "e = \<lparr>co_name = ?nm, co_loop = io, co_fd = fd\<rparr>" by (simp add: objs)
    with True new pl(2,3) knew lim show ?thesis by (auto intro!: exI [of _ "nextConnId (srv n)"])
  next
    case False
    with that have k: "map_of (srv_objs (srv n)) k = Some e" by (simp add: objs)
    show ?thesis using old [OF k] lold [OF k] kold [OF k] by blast
  qed
  have 2: "k = k'" if "map_of (srv_objs (srv ?m)) k = Some c" "map_of (srv_objs (srv ?m)) k' = Some d" "co_name c = co_name d" for k k' c d
    using that inj [of k c k' d] lf [of k c] lf [of k' d] by (auto simp: objs split: if_splits)
  have 3: "\<exists>c. map_of (srv_objs (srv ?m)) k = Some c \<and> co_name c = nm" if "map_of (connections (srv ?m)) nm = Some k" for nm k
    using that reg [of nm k] fresh by (auto simp: objs con split: if_splits)
  have 4: "map_of (srv_objs (srv ?m)) (job_id j) \<noteq> None" if "(l, j) \<in> set (jobs ?m)" for l j
    using that jb [of l j] by (auto simp: objs rest)
  have 5: "map_of (srv_objs (srv ?m)) k \<noteq> None" if "k \<in> set (destroyed ?m)" for k
    using that ds [of k] by (auto simp: objs rest)
  show ?thesis
    unfolding net_inv_def using 1 2 3 4 5 pl(1) ip knew dd lab rest by simp
qed

lemma make_established_srv:
  "make_calls cur [Run_In_Loop l (Job_Established i)] n = Inr n' \<Longrightarrow> srv n' = srv n"
  by (auto simp: run_job_def push_calls_def cxx_assert_def split: if_splits)

lemma net_accept_inv:
  assumes inv: "net_inv n" and fresh: "map_of (srv_objs (srv n)) i = None" and lim: "nextConnId (srv n) < 2147483647"
  shows "\<exists>n'. net_accept i fd n = Inr n' \<and> net_inv n' \<and>
    (\<exists>c. map_of (srv_objs (srv n')) i = Some c \<and> co_loop c \<in> set (loops_of (srv_pool (srv n))) \<and> co_fd c = fd)"
proof -
  from inv tp.next_valid [of "srv_pool (srv n)"] obtain io pl where
    nx: "getNextLoop (srv_pool (srv n)) = Inr (io, pl)" "pool_ok pl" "io \<in> set (loops_of (srv_pool (srv n)))"
      "loops_of pl = loops_of (srv_pool (srv n))" unfolding net_inv_def by blast
  define m where "m = (entered i fd io pl n)\<lparr>jobs := jobs n\<rparr>"
  have e: "entered i fd io pl n = m\<lparr>jobs := jobs m @ [(io, Job_Established i)]\<rparr>"
    by (simp add: m_def entered_def Let_def)
  have "net_inv (m\<lparr>jobs := jobs m @ [(io, Job_Established i)]\<rparr>)"
    using entered_inv [OF inv fresh lim nx(2,3,4) getNextLoop_base [OF nx(1)], of fd] by (simp only: e)
  from make_call_inv [OF this, of "srv_loop (srv m)"] obtain n' where
    n': "make_calls (srv_loop (srv m)) [Run_In_Loop io (Job_Established i)] m = Inr n'" "net_inv n'" by blast
  have "net_accept i fd n = Inr n'"
    using n'(1) nx(1) lim by (simp add: net_accept_def newConnection_def Let_def m_def entered_def del: make_calls.simps)
  with n'(2) make_established_srv [OF n'(1)] nx(3) show ?thesis by (auto simp: m_def entered_def Let_def)
qed

section \<open>Reachable states\<close>

definition net_start :: "TcpServer \<Rightarrow> net" where
  "net_start s = \<lparr>srv = s, jobs = [], phase = [], destroyed = []\<rparr>"

inductive net_step :: "net \<Rightarrow> net \<Rightarrow> bool" where
  accept: "map_of (srv_objs (srv n)) i = None \<Longrightarrow> nextConnId (srv n) < 2147483647 \<Longrightarrow>
    net_accept i fd n = Inr n' \<Longrightarrow> net_step n n'"
| shutdown: "net_step n (net_shutdown i n)"
| close: "phase_of n i = Some kConnected \<or> phase_of n i = Some kDisconnecting \<Longrightarrow>
    map_of (srv_objs (srv n)) i = Some c \<Longrightarrow> net_close i n = Inr n' \<Longrightarrow> net_step n n'"
| run: "net_run l n = Inr n' \<Longrightarrow> net_step n n'"

inductive_cases net_stepE: "net_step n n'"

text \<open>A server built, given its number of threads and started; its address text is at most 51 characters long.\<close>

inductive net_reach :: "net \<Rightarrow> bool" where
  start: "length (c_str ipPort) \<le> 51 \<Longrightarrow> TcpServer_ctor loop ipPort nm acc = Inr s0 \<Longrightarrow> k \<le> 2147483647 \<Longrightarrow>
    srv_setThreadNum k s0 = Inr s1 \<Longrightarrow> TcpServer_start kf listened raw new cb s1 = Inr (s, cbs) \<Longrightarrow> net_reach (net_start s)"
| step: "net_reach n \<Longrightarrow> net_step n n' \<Longrightarrow> net_reach n'"

lemma net_step_inv: "net_step n n' \<Longrightarrow> net_inv n \<Longrightarrow> net_inv n'"
proof (induction rule: net_step.induct)
  case (accept n i fd n')
  with net_accept_inv [of n i fd] show ?case by auto
next
  case (close n i c n')
  with net_close_inv [of n i c] show ?case by auto
next
  case (run l n n')
  with net_run_inv [of n l] show ?case by auto
qed (rule net_shutdown_inv)

lemma pool_threads_length: "pool_threads len raw new i n = Inr ls \<Longrightarrow> length ls = n"
proof (induction n arbitrary: i ls)
  case (Suc n)
  then show ?case by (auto simp: res_simps split: if_splits)
qed simp

lemma start_inv:
  assumes "length (c_str ipPort) \<le> 51" "TcpServer_ctor loop ipPort nm acc = Inr s0" "k \<le> 2147483647"
    "srv_setThreadNum k s0 = Inr s1" "TcpServer_start kf listened raw new cb s1 = Inr (s, cbs)"
  shows "net_inv (net_start s)"
proof -
  from assms(2,4) obtain a where s1: "s1 = \<lparr>srv_ipPort = ipPort, srv_name = nm, srv_acceptor = a,
      srv_pool = setThreadNum k (Pool_ctor loop nm), nextConnId = 1, connections = [], srv_objs = []\<rparr>" "0 \<le> k"
    by (auto simp: TcpServer_ctor_def srv_setThreadNum_def res_simps)
  from assms(5) obtain pl a' where st: "Pool_start raw new cb (srv_pool s1) = Inr (pl, cbs)"
    and s: "s = s1\<lparr>srv_pool := pl, srv_acceptor := a'\<rparr>"
    by (auto simp: TcpServer_start_def res_simps)
  from st s1 obtain ls where ls: "pool_threads (length nm + 32) raw new 0 (nat k) = Inr ls"
    "pool_started pl" "pool_loops pl = ls" "pool_next pl = 0"
    by (auto simp: Pool_start_def res_simps setThreadNum_def Pool_ctor_def)
  have "length ls < 2147483648" using pool_threads_length [OF ls(1)] assms(3) s1(2) by simp
  with ls have "pool_ok pl" by (simp add: pool_ok_def)
  with s s1 assms(1) show ?thesis by (simp add: net_inv_def net_start_def)
qed

lemma net_reach_inv: "net_reach n \<Longrightarrow> net_inv n"
  by (induction rule: net_reach.induct) (simp_all add: start_inv net_step_inv)

text \<open>
  C3. No interleaving of accepting, shutting down, closing and running queued work makes the server
  fail: in every reachable state each loop can run its next piece of work (the erase of a closed
  connection finds it, \<^verbatim>\<open>connectEstablished\<close> and \<^verbatim>\<open>connectDestroyed\<close> meet the state they assert), each
  open connection can close and, until the counter is exhausted, a new connection is accepted on one
  of the pool's loops. The map holds exactly the connections not yet removed, each under a name of
  its own; no connection is destroyed twice, and a closed connection for which nothing waits has been
  destroyed.
\<close>

theorem server_connections_safe:
  assumes "net_reach n"
  shows "(\<forall>l. \<exists>n'. net_run l n = Inr n') \<and>
    (\<forall>i c. map_of (srv_objs (srv n)) i = Some c \<longrightarrow>
       (phase_of n i = Some kConnected \<or> phase_of n i = Some kDisconnecting \<longrightarrow>
          map_of (connections (srv n)) (co_name c) = Some i \<and> (\<exists>n'. net_close i n = Inr n')) \<and>
       (phase_of n i = Some kDisconnected \<and> tok n i = [] \<longrightarrow>
          i \<in> set (destroyed n) \<and> map_of (connections (srv n)) (co_name c) = None)) \<and>
    (\<forall>i fd. map_of (srv_objs (srv n)) i = None \<and> nextConnId (srv n) < 2147483647 \<longrightarrow>
       (\<exists>n' c. net_accept i fd n = Inr n' \<and> map_of (srv_objs (srv n')) i = Some c \<and>
          co_loop c \<in> set (loops_of (srv_pool (srv n))))) \<and>
    (\<forall>i j c d. map_of (srv_objs (srv n)) i = Some c \<and> map_of (srv_objs (srv n)) j = Some d \<and>
       co_name c = co_name d \<longrightarrow> i = j) \<and>
    distinct (destroyed n)"
proof -
  note inv = net_reach_inv [OF assms]
  have "\<forall>l. \<exists>n'. net_run l n = Inr n'" using net_run_inv [OF inv] by blast
  moreover have "(phase_of n i = Some kConnected \<or> phase_of n i = Some kDisconnecting \<longrightarrow>
          map_of (connections (srv n)) (co_name c) = Some i \<and> (\<exists>n'. net_close i n = Inr n')) \<and>
       (phase_of n i = Some kDisconnected \<and> tok n i = [] \<longrightarrow>
          i \<in> set (destroyed n) \<and> map_of (connections (srv n)) (co_name c) = None)"
    if c: "map_of (srv_objs (srv n)) i = Some c" for i c
    using net_close_inv [OF inv _ c] net_inv_obj [OF inv c] by (auto simp: obj_inv_def Let_def)
  moreover have "\<exists>n' c. net_accept i fd n = Inr n' \<and> map_of (srv_objs (srv n')) i = Some c \<and>
          co_loop c \<in> set (loops_of (srv_pool (srv n)))"
    if "map_of (srv_objs (srv n)) i = None" "nextConnId (srv n) < 2147483647" for i fd
    using net_accept_inv [OF inv that, of fd] by blast
  moreover have "\<forall>i j c d. map_of (srv_objs (srv n)) i = Some c \<and> map_of (srv_objs (srv n)) j = Some d \<and>
       co_name c = co_name d \<longrightarrow> i = j" "distinct (destroyed n)"
    using inv unfolding net_inv_def by blast+
  ultimately show ?thesis by blast
qed

text \<open>A server on two loop threads, listening.\<close>

definition demo_acceptor :: acceptor where
  "demo_acceptor = \<lparr>acc_fd = 5, acc_chan = 9, acc_poller = set_chan 9 (Channel_ctor 5) demo_poller, acc_listening = False,
     idleFd = 6, acc_options = [], acc_closed = []\<rparr>"

definition demo_tcp :: "(TcpServer \<times> nat list) res" where
  "demo_tcp = bind_res (TcpServer_ctor 1 ''127.0.0.1:8000'' ''ZMQBus'' (Inr demo_acceptor))
     (\<lambda>s0. bind_res (srv_setThreadNum 2 s0) (TcpServer_start no_fault 0 (\<lambda>_. [CHR 0x00]) (\<lambda>i. 100 + i) False))"

theorem server_connections_safe_witness:
  "\<exists>s cbs n. demo_tcp = Inr (s, cbs) \<and> net_accept 0 7 (net_start s) = Inr n \<and> (\<exists>n'. net_run 100 n = Inr n')"
proof -
  have "case demo_tcp of Inl _ \<Rightarrow> False | Inr (s, cbs) \<Rightarrow> srv_objs s = [] \<and> nextConnId s = 1" by code_simp
  then obtain s cbs where s: "demo_tcp = Inr (s, cbs)" "srv_objs s = []" "nextConnId s = 1"
    by (auto split: sum.splits)
  then obtain s0 s1 where "TcpServer_ctor 1 ''127.0.0.1:8000'' ''ZMQBus'' (Inr demo_acceptor) = Inr s0"
    "srv_setThreadNum 2 s0 = Inr s1" "TcpServer_start no_fault 0 (\<lambda>_. [CHR 0x00]) (\<lambda>i. 100 + i) False s1 = Inr (s, cbs)"
    unfolding demo_tcp_def by (auto simp: res_simps)
  then have r: "net_reach (net_start s)"
    by (intro net_reach.start [where ipPort = "''127.0.0.1:8000''" and k = 2]) (auto simp: c_str_def)
  have a: "map_of (srv_objs (srv (net_start s))) 0 = None" "nextConnId (srv (net_start s)) < 2147483647"
    using s by (simp_all add: net_start_def)
  from server_connections_safe [OF r] a obtain n where n: "net_accept 0 7 (net_start s) = Inr n" by blast
  have "net_reach n" by (rule net_reach.step [OF r net_step.accept [OF a n]])
  from server_connections_safe [OF this] have "\<exists>n'. net_run 100 n = Inr n'" by blast
  with s n show ?thesis by blast
qed

section \<open>The acceptor's life\<close>

lemma Channel_dtor_ok:
  assumes "poller_inv s" "map_of (chans s) p = Some c" "\<not> event_handling c" "\<not> addedToLoop c"
    "map_of (channels s) (ch_fd c) = None"
  shows "\<exists>s'. Channel_dtor p s = Inr s' \<and> map_of (chans s') = (map_of (chans s))(p := None) \<and> interest s' = interest s \<and>
    channels s' = channels s"
  using assms by (simp add: Channel_dtor_def chan_def Poller_hasChannel_def)

text \<open>A channel switched off and removed: unregistered, and ready to be destroyed.\<close>

definition chan_gone :: "int \<Rightarrow> poller \<Rightarrow> nat \<Rightarrow> bool" where
  "chan_gone fd s p \<longleftrightarrow> poller_inv s \<and> map_of (channels s) fd = None \<and> map_of (interest s) fd = None \<and>
     chan_is (\<lambda>c. \<not> event_handling c \<and> \<not> addedToLoop c \<and> ch_fd c = fd \<and> ch_index c = kNew) s p"

lemma channel_off:
  assumes ok: "poller_ok kf s p" and e: "chan_is (\<lambda>c. \<not> event_handling c \<and> ch_fd c = fd) s p"
  shows "\<exists>s1 s2. disableAll kf p s = Inr s1 \<and> Channel_remove kf p s1 = Inr s2 \<and> chan_gone fd s2 p"
proof -
  from ok e obtain c where c: "map_of (chans s) p = Some c" "poller_inv s" "can_register s p c" "kernel_ok kf fd"
    "\<not> event_handling c" "ch_fd c = fd"
    by (auto simp: poller_ok_def chan_is_def split: option.splits)
  from Channel_update_inv [of s p c kf 0] c obtain s1 where s1:
    "disableAll kf p s = Inr s1" "poller_inv s1" "map_of (chans s1) p = Some (updated c 0)"
    by (auto simp: disableAll_def chan_def NoneEvent_def)
  have "isNoneEvent (updated c 0)" by (simp add: isNoneEvent_def NoneEvent_def)
  from Channel_remove_inv [OF s1(2,3) this, of kf] c obtain s2 where s2:
    "Channel_remove kf p s1 = Inr s2" "map_of (chans s2) p = Some ((updated c 0)\<lparr>addedToLoop := False, ch_index := kNew\<rparr>)"
    "map_of (channels s2) fd = None" "map_of (interest s2) fd = None" "poller_inv s2" by auto
  then have "chan_gone fd s2 p" using c by (simp add: chan_gone_def chan_is_def updated_def)
  with s1 s2 show ?thesis by blast
qed

lemma chan_gone_dtor:
  assumes "chan_gone fd s p"
  shows "\<exists>s'. Channel_dtor p s = Inr s' \<and> poller_inv s' \<and> map_of (chans s') p = None \<and>
    map_of (channels s') fd = None \<and> map_of (interest s') fd = None"
proof -
  from assms obtain c where c: "map_of (chans s) p = Some c" "\<not> event_handling c" "\<not> addedToLoop c" "ch_fd c = fd"
    "poller_inv s" "map_of (channels s) fd = None" "map_of (interest s) fd = None"
    by (auto simp: chan_gone_def chan_is_def split: option.splits)
  with Channel_dtor_ok [OF c(5,1,2,3)] obtain s' where "Channel_dtor p s = Inr s'" "map_of (chans s') p = None"
    "interest s' = interest s" "channels s' = channels s" by auto
  with c poller_inv_destroy [of s p s'] show ?thesis by auto
qed

lemma channel_off_and_gone:
  assumes "poller_ok kf s p" and "chan_is (\<lambda>c. \<not> event_handling c \<and> ch_fd c = fd) s p"
  shows "\<exists>s1 s2 s3. disableAll kf p s = Inr s1 \<and> Channel_remove kf p s1 = Inr s2 \<and> Channel_dtor p s2 = Inr s3 \<and>
    map_of (interest s3) fd = None \<and> map_of (channels s3) fd = None \<and> map_of (chans s3) p = None"
  using channel_off [OF assms] chan_gone_dtor by blast

lemma enableReading_keeps:
  assumes ok: "poller_ok kf s p" and e: "chan_is (\<lambda>c. \<not> event_handling c \<and> ch_fd c = fd) s p"
  shows "\<exists>s'. enableReading kf p s = Inr s' \<and> poller_ok kf s' p \<and> chan_is isReading s' p \<and>
    chan_is (\<lambda>c. \<not> event_handling c \<and> ch_fd c = fd) s' p"
proof -
  from ok e obtain c where c: "map_of (chans s) p = Some c" "poller_inv s" "can_register s p c" "kernel_ok kf fd"
    "\<not> event_handling c" "ch_fd c = fd"
    by (auto simp: poller_ok_def chan_is_def split: option.splits)
  have m: "mask_ok (or (ch_events c) ReadEvent)" using in_step_cases(2) [OF c(2,1)] by simp
  from Channel_update_inv [of s p c kf, OF c(2,1,3) _ m] c have
    "\<exists>s'. enableReading kf p s = Inr s' \<and> map_of (chans s') p = Some (updated c (or (ch_events c) ReadEvent))"
    by (auto simp: enableReading_def chan_def)
  moreover obtain s' where "enableReading kf p s = Inr s'" "poller_ok kf s' p" "chan_is isReading s' p"
    using ep.enR [OF ok] by blast
  ultimately show ?thesis using c by (auto simp: chan_is_def updated_def)
qed

text \<open>
  Over a consistent poller that does not use the new descriptor, an acceptor can be built,
  destroyed at once, or made to listen and destroyed then, and no assertion fails; while it listens it
  polls for connections; its destruction takes the descriptor off the interest list and closes the
  spare descriptor and the socket.
\<close>

theorem acceptor_lifecycle:
  assumes "poller_inv po" and "map_of (chans po) p = None" and "map_of (channels po) fd = None" and "kernel_ok kf fd"
    and "0 \<le> fd" and "0 \<le> idle" and "0 \<le> bound" and "0 \<le> ret"
  shows "\<exists>a l. Acceptor_ctor fd idle bound p po reuse = Inr a \<and> Acceptor_listen kf ret a = Inr l \<and>
    acc_listening l \<and> chan_is isReading (acc_poller l) p \<and>
    (\<forall>x\<in>{a, l}. \<exists>d. Acceptor_dtor kf x = Inr d \<and> acc_closed d = [idle, fd] \<and>
       map_of (interest (acc_poller d)) fd = None \<and> map_of (chans (acc_poller d)) p = None)"
proof -
  let ?po = "set_chan p (Channel_ctor fd) po"
  define a where "a = \<lparr>acc_fd = fd, acc_chan = p, acc_poller = ?po, acc_listening = False, idleFd = idle,
     acc_options = [setReuseAddr True, setReusePort reuse], acc_closed = []\<rparr>"
  have c: "Acceptor_ctor fd idle bound p po reuse = Inr a"
    using assms by (simp add: Acceptor_ctor_def createNonblockingOrDie_def Socket_bindAddress_def a_def)
  have ok: "poller_ok kf ?po p" and e: "chan_is (\<lambda>c. \<not> event_handling c \<and> ch_fd c = fd) ?po p"
    using poller_inv_create [OF assms(1,2), of fd] assms(3,4)
    by (auto simp: poller_ok_def chan_is_def can_register_def set_chan_def Channel_ctor_def)
  from enableReading_keeps [OF ok e] obtain s where s: "enableReading kf p ?po = Inr s" "poller_ok kf s p"
    "chan_is isReading s p" "chan_is (\<lambda>c. \<not> event_handling c \<and> ch_fd c = fd) s p" by blast
  let ?l = "a\<lparr>acc_listening := True, acc_poller := s\<rparr>"
  have l: "Acceptor_listen kf ret a = Inr ?l"
    using assms(8) s(1) by (simp add: Acceptor_listen_def Socket_listen_def acc_on_chan_def a_def)
  have d1: "\<exists>d. Acceptor_dtor kf a = Inr d \<and> acc_closed d = [idle, fd] \<and>
       map_of (interest (acc_poller d)) fd = None \<and> map_of (chans (acc_poller d)) p = None"
    using channel_off_and_gone [OF ok e] by (auto simp: Acceptor_dtor_def acc_on_chan_def a_def)
  have d2: "\<exists>d. Acceptor_dtor kf ?l = Inr d \<and> acc_closed d = [idle, fd] \<and>
       map_of (interest (acc_poller d)) fd = None \<and> map_of (chans (acc_poller d)) p = None"
    using channel_off_and_gone [OF s(2,4)] by (auto simp: Acceptor_dtor_def acc_on_chan_def a_def)
  from c l d1 d2 s(3) show ?thesis by (intro exI [of _ a] exI [of _ ?l]) auto
qed

theorem acceptor_lifecycle_witness:
  "\<exists>a l. Acceptor_ctor 5 6 0 9 \<lparr>chans = [], channels = [], events_size = 16, interest = []\<rparr> False = Inr a \<and>
    Acceptor_listen no_fault 0 a = Inr l \<and> acc_listening l"
  using acceptor_lifecycle [of "\<lparr>chans = [], channels = [], events_size = 16, interest = []\<rparr>" 9 5 no_fault 6 0 0 False]
  by (auto simp: poller_inv_def kernel_ok_def no_fault_def)

text \<open>When descriptors run out, one waiting connection is accepted on the spare descriptor and closed, and the spare is opened again.\<close>

lemma acceptor_out_of_descriptors:
  "Acceptor_handleRead cb (-1) peer EMFILE again reopened pa a =
     (None, a\<lparr>acc_closed := acc_closed a @ [idleFd a, again], idleFd := reopened\<rparr>)"
  by (simp add: Acceptor_handleRead_def Socket_accept_def)

text \<open>Starting a server a second time fails the assertion of the pool.\<close>

lemma start_twice_asserts:
  assumes "TcpServer_start kf r raw new cb s = Inr (s', cbs)"
  shows "TcpServer_start kf r' raw' new' cb' s' = Inl Assert_Failed"
  using assms by (auto simp: TcpServer_start_def Pool_start_def res_simps cxx_assert_def split: if_splits)

end
