(* ===== verification/NetClient.thy ===== *)
theory NetClient
  imports NetServer "HOL-Library.Multiset"
begin

text \<open>
  The connecting side (\<^verbatim>\<open>network/Connector\<close>, \<^verbatim>\<open>network/TcpClient\<close>). The connector is a state machine over a
  non-blocking \<^verbatim>\<open>connect\<close>: its channel waits for writability in the loop's poller, and part of its work
  goes through the loop's queue. The descriptors it opens, closes and hands over are recorded, so that
  the lemmas can show that none is lost or closed twice.
\<close>

section \<open>Connector\<close>

datatype States = CDisconnected | CConnecting | CConnected

definition kInitRetryDelayMs :: int where "kInitRetryDelayMs = 500"

text \<open>Work of the connector in the loop's queue.\<close>

datatype cjob = Startj | Stopj | Resetj

record Connector =
  cn_connect :: bool
  cn_state :: States
  cn_channel :: "nat option"
  cn_poller :: poller
  retryDelayMs :: int
  cn_queue :: "cjob list"
  cn_opened :: "int list"
  cn_closed :: "int list"
  cn_given :: "int list"

definition Connector_ctor :: "poller \<Rightarrow> Connector" where
  "Connector_ctor po = \<lparr>cn_connect = False, cn_state = CDisconnected, cn_channel = None, cn_poller = po,
     retryDelayMs = kInitRetryDelayMs, cn_queue = [], cn_opened = [], cn_closed = [], cn_given = []\<rparr>"

definition Connector_dtor :: "Connector \<Rightarrow> unit res" where
  "Connector_dtor s = cxx_assert (cn_channel s = None) (Inr ())"

definition cn_on_chan :: "(nat \<Rightarrow> poller \<Rightarrow> poller res) \<Rightarrow> Connector \<Rightarrow> Connector res" where
  "cn_on_chan op s =
     (case cn_channel s of None \<Rightarrow> Inl Null_Deref
      | Some p \<Rightarrow> bind_res (op p (cn_poller s)) (\<lambda>po. Inr (s\<lparr>cn_poller := po\<rparr>)))"

text \<open>The retry timer is commented out in the source: a retry only closes the socket.\<close>

definition cn_retry :: "int \<Rightarrow> Connector \<Rightarrow> Connector" where
  "cn_retry sockfd s = s\<lparr>cn_closed := cn_closed s @ [sockfd], cn_state := CDisconnected\<rparr>"

text \<open>\<open>p\<close> is the address of the new channel.\<close>

definition connecting :: "kfault \<Rightarrow> nat \<Rightarrow> int \<Rightarrow> Connector \<Rightarrow> Connector res" where
  "connecting kf p sockfd s =
     cxx_assert (cn_channel s = None)
       (cn_on_chan (enableWriting kf)
          (s\<lparr>cn_state := CConnecting, cn_channel := Some p, cn_poller := set_chan p (Channel_ctor sockfd) (cn_poller s)\<rparr>))"

definition EINPROGRESS :: int where "EINPROGRESS = 115"
definition EISCONN :: int where "EISCONN = 106"
definition EADDRINUSE :: int where "EADDRINUSE = 98"
definition EADDRNOTAVAIL :: int where "EADDRNOTAVAIL = 99"
definition ECONNREFUSED :: int where "ECONNREFUSED = 111"
definition ENETUNREACH :: int where "ENETUNREACH = 101"

text \<open>\<open>sockfd\<close> is the result of \<^verbatim>\<open>socket\<close>; \<open>savedErrno\<close> is 0 when \<^verbatim>\<open>connect\<close> succeeded.\<close>

definition cn_do_connect :: "kfault \<Rightarrow> nat \<Rightarrow> int \<Rightarrow> int \<Rightarrow> Connector \<Rightarrow> Connector res" where
  "cn_do_connect kf p sockfd savedErrno s =
     bind_res (createNonblockingOrDie sockfd) (\<lambda>fd.
       let s1 = s\<lparr>cn_opened := cn_opened s @ [fd]\<rparr> in
       if savedErrno \<in> {0, EINPROGRESS, EINTR, EISCONN} then connecting kf p fd s1
       else if savedErrno \<in> {EAGAIN, EADDRINUSE, EADDRNOTAVAIL, ECONNREFUSED, ENETUNREACH} then Inr (cn_retry fd s1)
       else Inr (s1\<lparr>cn_closed := cn_closed s1 @ [fd]\<rparr>))"

definition startInLoop :: "kfault \<Rightarrow> nat \<Rightarrow> int \<Rightarrow> int \<Rightarrow> Connector \<Rightarrow> Connector res" where
  "startInLoop kf p sockfd err s =
     cxx_assert (cn_state s = CDisconnected) (if cn_connect s then cn_do_connect kf p sockfd err s else Inr s)"

definition cn_start :: "kfault \<Rightarrow> bool \<Rightarrow> nat \<Rightarrow> int \<Rightarrow> int \<Rightarrow> Connector \<Rightarrow> Connector res" where
  "cn_start kf inLoop p sockfd err s =
     (let s1 = s\<lparr>cn_connect := True\<rparr>
      in if inLoop then startInLoop kf p sockfd err s1 else Inr (s1\<lparr>cn_queue := cn_queue s1 @ [Startj]\<rparr>))"

definition cn_stop :: "Connector \<Rightarrow> Connector" where
  "cn_stop s = s\<lparr>cn_connect := False, cn_queue := cn_queue s @ [Stopj]\<rparr>"

definition removeAndResetChannel :: "kfault \<Rightarrow> Connector \<Rightarrow> (int \<times> Connector) res" where
  "removeAndResetChannel kf s =
     bind_res (cn_on_chan (disableAll kf) s) (\<lambda>s1.
     bind_res (cn_on_chan (Channel_remove kf) s1) (\<lambda>s2.
     case cn_channel s2 of
       None \<Rightarrow> Inl Null_Deref
     | Some p \<Rightarrow> bind_res (chan (cn_poller s2) p) (\<lambda>c. Inr (ch_fd c, s2\<lparr>cn_queue := cn_queue s2 @ [Resetj]\<rparr>))))"

definition stopInLoop :: "kfault \<Rightarrow> Connector \<Rightarrow> Connector res" where
  "stopInLoop kf s =
     (if cn_state s = CConnecting
      then bind_res (removeAndResetChannel kf (s\<lparr>cn_state := CDisconnected\<rparr>)) (\<lambda>(fd, s1). Inr (cn_retry fd s1))
      else Inr s)"

definition resetChannel :: "Connector \<Rightarrow> Connector res" where
  "resetChannel s =
     (case cn_channel s of None \<Rightarrow> Inr s
      | Some p \<Rightarrow> bind_res (Channel_dtor p (cn_poller s)) (\<lambda>po. Inr (s\<lparr>cn_poller := po, cn_channel := None\<rparr>)))"

text \<open>\<open>err\<close> is the pending error of the socket, \<open>self\<close> whether it is connected to itself.\<close>

definition cn_handleWrite :: "kfault \<Rightarrow> int \<Rightarrow> bool \<Rightarrow> Connector \<Rightarrow> Connector res" where
  "cn_handleWrite kf err self s =
     (if cn_state s = CConnecting
      then bind_res (removeAndResetChannel kf s) (\<lambda>(fd, s1).
             if err \<noteq> 0 then Inr (cn_retry fd s1)
             else if self then Inr (cn_retry fd s1)
             else let s2 = s1\<lparr>cn_state := CConnected\<rparr> in
                  if cn_connect s2 then Inr (s2\<lparr>cn_given := cn_given s2 @ [fd]\<rparr>)
                  else Inr (s2\<lparr>cn_closed := cn_closed s2 @ [fd]\<rparr>))
      else cxx_assert (cn_state s = CDisconnected) (Inr s))"

definition cn_handleError :: "kfault \<Rightarrow> Connector \<Rightarrow> Connector res" where
  "cn_handleError kf s =
     (if cn_state s = CConnecting
      then bind_res (removeAndResetChannel kf s) (\<lambda>(fd, s1). Inr (cn_retry fd s1)) else Inr s)"

definition cn_restart :: "kfault \<Rightarrow> nat \<Rightarrow> int \<Rightarrow> int \<Rightarrow> Connector \<Rightarrow> Connector res" where
  "cn_restart kf p sockfd err s =
     startInLoop kf p sockfd err (s\<lparr>cn_state := CDisconnected, retryDelayMs := kInitRetryDelayMs, cn_connect := True\<rparr>)"

text \<open>The loop runs the connector's next piece of work.\<close>

definition cn_run :: "kfault \<Rightarrow> nat \<Rightarrow> int \<Rightarrow> int \<Rightarrow> Connector \<Rightarrow> Connector res" where
  "cn_run kf p sockfd err s =
     (case cn_queue s of
        [] \<Rightarrow> Inr s
      | j # q \<Rightarrow> let s1 = s\<lparr>cn_queue := q\<rparr> in
          (case j of Startj \<Rightarrow> startInLoop kf p sockfd err s1 | Stopj \<Rightarrow> stopInLoop kf s1 | Resetj \<Rightarrow> resetChannel s1))"

section \<open>TcpClient\<close>

text \<open>What the client asks of its connection.\<close>

datatype conn_call = Establish nat string int | Shutdown nat | Set_Close_Callback nat | Force_Close nat | Queue_Destroyed nat

record TcpClient =
  cl_connector :: Connector
  cl_name :: string
  cl_retry :: bool
  cl_connect :: bool
  cl_nextConnId :: int
  cl_connection :: "nat option"
  cl_calls :: "conn_call list"

definition TcpClient_ctor :: "poller \<Rightarrow> string \<Rightarrow> TcpClient" where
  "TcpClient_ctor po nameArg = \<lparr>cl_connector = Connector_ctor po, cl_name = nameArg, cl_retry = False, cl_connect = True,
     cl_nextConnId = 1, cl_connection = None, cl_calls = []\<rparr>"

definition enableRetry :: "TcpClient \<Rightarrow> TcpClient" where
  "enableRetry c = c\<lparr>cl_retry := True\<rparr>"

definition cl_call :: "conn_call list \<Rightarrow> TcpClient \<Rightarrow> TcpClient" where
  "cl_call cs c = c\<lparr>cl_calls := cl_calls c @ cs\<rparr>"

text \<open>The destructor: \<open>uniq\<close> says whether nobody else holds the connection.\<close>

definition TcpClient_dtor :: "bool \<Rightarrow> TcpClient \<Rightarrow> TcpClient" where
  "TcpClient_dtor uniq c =
     (case cl_connection c of
        Some i \<Rightarrow> cl_call ([Set_Close_Callback i] @ (if uniq then [Force_Close i] else [])) c
      | None \<Rightarrow> c\<lparr>cl_connector := cn_stop (cl_connector c)\<rparr>)"

definition cl_do_connect :: "kfault \<Rightarrow> bool \<Rightarrow> nat \<Rightarrow> int \<Rightarrow> int \<Rightarrow> TcpClient \<Rightarrow> TcpClient res" where
  "cl_do_connect kf inLoop p sockfd err c =
     bind_res (cn_start kf inLoop p sockfd err (cl_connector c)) (\<lambda>k. Inr (c\<lparr>cl_connect := True, cl_connector := k\<rparr>))"

definition cl_disconnect :: "TcpClient \<Rightarrow> TcpClient" where
  "cl_disconnect c =
     (let c1 = c\<lparr>cl_connect := False\<rparr>
      in case cl_connection c1 of None \<Rightarrow> c1 | Some i \<Rightarrow> cl_call [Shutdown i] c1)"

definition cl_stop :: "TcpClient \<Rightarrow> TcpClient" where
  "cl_stop c = c\<lparr>cl_connect := False, cl_connector := cn_stop (cl_connector c)\<rparr>"

text \<open>\<open>i\<close> is the new connection object, \<open>ipPort\<close> the text of the peer's address.\<close>

definition cl_newConnection :: "nat \<Rightarrow> int \<Rightarrow> string \<Rightarrow> TcpClient \<Rightarrow> TcpClient res" where
  "cl_newConnection i sockfd ipPort c =
     (if cl_nextConnId c \<ge> 2147483647 then Inl Undefined_Behaviour
      else let connName = cl_name c @ take 31 ('':'' @ c_str ipPort @ ''#'' @ to_string (cl_nextConnId c))
           in Inr (cl_call [Establish i connName sockfd]
                 (c\<lparr>cl_nextConnId := cl_nextConnId c + 1, cl_connection := Some i\<rparr>)))"

definition cl_removeConnection :: "kfault \<Rightarrow> nat \<Rightarrow> int \<Rightarrow> int \<Rightarrow> nat \<Rightarrow> TcpClient \<Rightarrow> TcpClient res" where
  "cl_removeConnection kf p sockfd err i c =
     cxx_assert (cl_connection c = Some i)
       (let c1 = cl_call [Queue_Destroyed i] (c\<lparr>cl_connection := None\<rparr>) in
        if cl_retry c1 \<and> cl_connect c1
        then bind_res (cn_restart kf p sockfd err (cl_connector c1)) (\<lambda>k. Inr (c1\<lparr>cl_connector := k\<rparr>))
        else Inr c1)"

section \<open>The connector's invariant\<close>

text \<open>
  While connecting, the channel is registered and waits for writability; afterwards it is
  unregistered and exactly one piece of work waits to destroy it. \<open>cur\<close> is the descriptor in
  progress.
\<close>

definition cn_fd :: "Connector \<Rightarrow> int list" where
  "cn_fd s = (if cn_state s = CConnecting
     then (case cn_channel s of None \<Rightarrow> [] | Some p \<Rightarrow> (case map_of (chans (cn_poller s)) p of None \<Rightarrow> [] | Some c \<Rightarrow> [ch_fd c]))
     else [])"

definition cn_inv :: "kfault \<Rightarrow> Connector \<Rightarrow> bool" where
  "cn_inv kf s \<longleftrightarrow> poller_inv (cn_poller s) \<and>
     (case cn_channel s of
        None \<Rightarrow> cn_state s \<noteq> CConnecting \<and> count_list (cn_queue s) Resetj = 0
      | Some p \<Rightarrow>
          if cn_state s = CConnecting
          then poller_ok kf (cn_poller s) p \<and> chan_is (\<lambda>c. \<not> event_handling c) (cn_poller s) p \<and>
               chan_is isWriting (cn_poller s) p \<and> count_list (cn_queue s) Resetj = 0
          else (\<exists>fd. chan_gone fd (cn_poller s) p) \<and> count_list (cn_queue s) Resetj = 1) \<and>
     mset (cn_opened s) = mset (cn_closed s) + mset (cn_given s) + mset (cn_fd s)"

lemma channel_off_dealloc:
  assumes ch: "cn_channel s = Some p" and ok: "poller_ok kf (cn_poller s) p"
    and e: "chan_is (\<lambda>c. \<not> event_handling c \<and> ch_fd c = fd) (cn_poller s) p"
  shows "\<exists>po. removeAndResetChannel kf s = Inr (fd, s\<lparr>cn_poller := po, cn_queue := cn_queue s @ [Resetj]\<rparr>) \<and>
    chan_gone fd po p"
proof -
  from channel_off [OF ok e] obtain s1 s2 where s: "disableAll kf p (cn_poller s) = Inr s1"
    "Channel_remove kf p s1 = Inr s2" "chan_gone fd s2 p" by blast
  from s(3) obtain c where "map_of (chans s2) p = Some c" "ch_fd c = fd"
    by (auto simp: chan_gone_def chan_is_def split: option.splits)
  with s ch show ?thesis by (auto simp: removeAndResetChannel_def cn_on_chan_def chan_def)
qed

lemma cn_inv_connecting:
  assumes "cn_inv kf s" "cn_state s = CConnecting"
  obtains p fd where "cn_channel s = Some p" "poller_ok kf (cn_poller s) p"
    "chan_is (\<lambda>c. \<not> event_handling c \<and> ch_fd c = fd) (cn_poller s) p" "cn_fd s = [fd]" "count_list (cn_queue s) Resetj = 0"
    "mset (cn_opened s) = mset (cn_closed s) + mset (cn_given s) + {#fd#}"
proof -
  from assms obtain p where p: "cn_channel s = Some p" "poller_ok kf (cn_poller s) p"
    "chan_is (\<lambda>c. \<not> event_handling c) (cn_poller s) p" "count_list (cn_queue s) Resetj = 0"
    by (auto simp: cn_inv_def split: option.splits)
  from p(3) obtain c where c: "map_of (chans (cn_poller s)) p = Some c" "\<not> event_handling c"
    by (auto simp: chan_is_def split: option.splits)
  have f: "cn_fd s = [ch_fd c]" using assms(2) p(1) c by (simp add: cn_fd_def)
  with that [of p "ch_fd c"] p c assms(1) show thesis by (simp add: cn_inv_def chan_is_def)
qed

text \<open>The states after a channel was given up.\<close>

lemma cn_inv_given_up:
  assumes g: "chan_gone fd po p" and q: "count_list (cn_queue s) Resetj = 0"
    and m: "mset (cn_opened s) = mset (cn_closed s) + mset (cn_given s) + {#fd#}" and ch: "cn_channel s = Some p"
  shows "st \<noteq> CConnecting \<Longrightarrow> cn_inv kf (s\<lparr>cn_state := st, cn_poller := po, cn_queue := cn_queue s @ [Resetj],
      cn_closed := cn_closed s @ [fd]\<rparr>)"
    "cn_inv kf (s\<lparr>cn_state := CConnected, cn_poller := po, cn_queue := cn_queue s @ [Resetj], cn_given := cn_given s @ [fd]\<rparr>)"
  using assms by (auto simp: cn_inv_def cn_fd_def chan_gone_def)

lemma give_up_eqs:
  "cn_retry fd (s\<lparr>cn_poller := po, cn_queue := q\<rparr>) =
     s\<lparr>cn_state := CDisconnected, cn_poller := po, cn_queue := q, cn_closed := cn_closed s @ [fd]\<rparr>"
  "cn_retry fd (s\<lparr>cn_state := x, cn_poller := po, cn_queue := q\<rparr>) =
     s\<lparr>cn_state := CDisconnected, cn_poller := po, cn_queue := q, cn_closed := cn_closed s @ [fd]\<rparr>"
  "s\<lparr>cn_poller := po, cn_queue := q, cn_state := CConnected, cn_given := g\<rparr> =
     s\<lparr>cn_state := CConnected, cn_poller := po, cn_queue := q, cn_given := g\<rparr>"
  "s\<lparr>cn_poller := po, cn_queue := q, cn_state := CConnected, cn_closed := g\<rparr> =
     s\<lparr>cn_state := CConnected, cn_poller := po, cn_queue := q, cn_closed := g\<rparr>"
  by (simp_all add: cn_retry_def)

lemma handleWrite_inv:
  assumes inv: "cn_inv kf s" and st: "cn_state s = CConnecting"
  shows "\<exists>s'. cn_handleWrite kf err self s = Inr s' \<and> cn_inv kf s' \<and> cn_state s' \<noteq> CConnecting"
proof -
  from cn_inv_connecting [OF inv st] obtain p fd where p: "cn_channel s = Some p" "poller_ok kf (cn_poller s) p"
    "chan_is (\<lambda>c. \<not> event_handling c \<and> ch_fd c = fd) (cn_poller s) p" "count_list (cn_queue s) Resetj = 0"
    "mset (cn_opened s) = mset (cn_closed s) + mset (cn_given s) + {#fd#}" by metis
  from channel_off_dealloc [OF p(1,2,3)] obtain po where
    r: "removeAndResetChannel kf s = Inr (fd, s\<lparr>cn_poller := po, cn_queue := cn_queue s @ [Resetj]\<rparr>)" "chan_gone fd po p" by blast
  note fin = cn_inv_given_up [OF r(2) p(4,5,1), where kf = kf]
  show ?thesis
    unfolding cn_handleWrite_def r(1) using st
    by (auto simp: give_up_eqs Let_def intro!: fin)
qed

lemma handleError_inv:
  assumes inv: "cn_inv kf s"
  shows "\<exists>s'. cn_handleError kf s = Inr s' \<and> cn_inv kf s' \<and> cn_state s' \<noteq> CConnecting"
proof (cases "cn_state s = CConnecting")
  case True
  from cn_inv_connecting [OF inv True] obtain p fd where p: "cn_channel s = Some p" "poller_ok kf (cn_poller s) p"
    "chan_is (\<lambda>c. \<not> event_handling c \<and> ch_fd c = fd) (cn_poller s) p" "count_list (cn_queue s) Resetj = 0"
    "mset (cn_opened s) = mset (cn_closed s) + mset (cn_given s) + {#fd#}" by metis
  from channel_off_dealloc [OF p(1,2,3)] obtain po where
    r: "removeAndResetChannel kf s = Inr (fd, s\<lparr>cn_poller := po, cn_queue := cn_queue s @ [Resetj]\<rparr>)" "chan_gone fd po p" by blast
  show ?thesis unfolding cn_handleError_def r(1) using True
    by (auto simp: give_up_eqs intro!: cn_inv_given_up [OF r(2) p(4,5,1)])
qed (use inv in \<open>simp add: cn_handleError_def\<close>)

lemma stopInLoop_inv:
  assumes inv: "cn_inv kf s"
  shows "\<exists>s'. stopInLoop kf s = Inr s' \<and> cn_inv kf s' \<and> cn_state s' \<noteq> CConnecting"
proof (cases "cn_state s = CConnecting")
  case True
  from cn_inv_connecting [OF inv True] obtain p fd where p: "cn_channel s = Some p" "poller_ok kf (cn_poller s) p"
    "chan_is (\<lambda>c. \<not> event_handling c \<and> ch_fd c = fd) (cn_poller s) p" "count_list (cn_queue s) Resetj = 0"
    "mset (cn_opened s) = mset (cn_closed s) + mset (cn_given s) + {#fd#}" by metis
  from channel_off_dealloc [of "s\<lparr>cn_state := CDisconnected\<rparr>" p kf fd] p obtain po where
    r: "removeAndResetChannel kf (s\<lparr>cn_state := CDisconnected\<rparr>) =
      Inr (fd, s\<lparr>cn_state := CDisconnected, cn_poller := po, cn_queue := cn_queue s @ [Resetj]\<rparr>)" "chan_gone fd po p" by auto
  show ?thesis unfolding stopInLoop_def r(1) using True
    by (auto simp: give_up_eqs intro!: cn_inv_given_up [OF r(2) p(4,5,1)])
qed (use inv in \<open>simp add: stopInLoop_def\<close>)

lemma resetChannel_inv:
  assumes inv: "cn_inv kf s" and q: "cn_queue s = Resetj # qs"
  shows "\<exists>s'. resetChannel (s\<lparr>cn_queue := qs\<rparr>) = Inr s' \<and> cn_inv kf s' \<and> cn_channel s' = None"
proof -
  from inv q obtain p fd where p: "cn_channel s = Some p" "cn_state s \<noteq> CConnecting" "chan_gone fd (cn_poller s) p"
    "count_list qs Resetj = 0"
    by (auto simp: cn_inv_def split: option.splits if_splits)
  from chan_gone_dtor [OF p(3)] obtain po where "Channel_dtor p (cn_poller s) = Inr po" "poller_inv po" by blast
  with p inv show ?thesis by (auto simp: resetChannel_def cn_inv_def cn_fd_def)
qed

text \<open>What the kernel and the allocator give for a new attempt: an unused descriptor and a new channel object.\<close>

definition fresh_attempt :: "kfault \<Rightarrow> nat \<Rightarrow> int \<Rightarrow> Connector \<Rightarrow> bool" where
  "fresh_attempt kf p fd s \<longleftrightarrow> 0 \<le> fd \<and> kernel_ok kf fd \<and> map_of (chans (cn_poller s)) p = None \<and>
     map_of (channels (cn_poller s)) fd = None"

lemma enableWriting_keeps:
  assumes ok: "poller_ok kf s p" and e: "chan_is (\<lambda>c. \<not> event_handling c \<and> ch_fd c = fd) s p"
  shows "\<exists>s'. enableWriting kf p s = Inr s' \<and> poller_ok kf s' p \<and> chan_is isWriting s' p \<and>
    chan_is (\<lambda>c. \<not> event_handling c \<and> ch_fd c = fd) s' p"
proof -
  from ok e obtain c where c: "map_of (chans s) p = Some c" "poller_inv s" "can_register s p c" "kernel_ok kf fd"
    "\<not> event_handling c" "ch_fd c = fd"
    by (auto simp: poller_ok_def chan_is_def split: option.splits)
  have m: "mask_ok (or (ch_events c) WriteEvent)" using in_step_cases(2) [OF c(2,1)] by simp
  from Channel_update_inv [of s p c kf, OF c(2,1,3) _ m] c have
    "\<exists>s'. enableWriting kf p s = Inr s' \<and> map_of (chans s') p = Some (updated c (or (ch_events c) WriteEvent))"
    by (auto simp: enableWriting_def chan_def)
  moreover obtain s' where "enableWriting kf p s = Inr s'" "poller_ok kf s' p" "chan_is isWriting s' p"
    using ep.enW [OF ok] by blast
  ultimately show ?thesis using c by (auto simp: chan_is_def updated_def)
qed

lemma connecting_inv:
  assumes inv: "cn_inv kf s" and st: "cn_state s \<noteq> CConnecting" and ch: "cn_channel s = None" and fr: "fresh_attempt kf p fd s"
  shows "\<exists>s'. connecting kf p fd (s\<lparr>cn_opened := cn_opened s @ [fd]\<rparr>) = Inr s' \<and> cn_inv kf s' \<and>
    cn_state s' = CConnecting \<and> cn_fd s' = [fd]"
proof -
  let ?po = "set_chan p (Channel_ctor fd) (cn_poller s)"
  have pi: "poller_inv (cn_poller s)" using inv by (simp add: cn_inv_def)
  have ok: "poller_ok kf ?po p" and e: "chan_is (\<lambda>c. \<not> event_handling c \<and> ch_fd c = fd) ?po p"
    using poller_inv_create [OF pi, of p fd] fr
    by (auto simp: fresh_attempt_def poller_ok_def chan_is_def can_register_def set_chan_def Channel_ctor_def)
  from enableWriting_keeps [OF ok e] obtain po where po: "enableWriting kf p ?po = Inr po" "poller_ok kf po p"
    "chan_is isWriting po p" "chan_is (\<lambda>c. \<not> event_handling c \<and> ch_fd c = fd) po p" by blast
  let ?s = "s\<lparr>cn_opened := cn_opened s @ [fd], cn_state := CConnecting, cn_channel := Some p, cn_poller := po\<rparr>"
  have r: "connecting kf p fd (s\<lparr>cn_opened := cn_opened s @ [fd]\<rparr>) = Inr ?s"
    using ch po(1) by (simp add: connecting_def cn_on_chan_def)
  have f: "cn_fd ?s = [fd]" using po(4) by (auto simp: cn_fd_def chan_is_def split: option.splits)
  have "chan_is (\<lambda>c. \<not> event_handling c) po p" using po(4) by (auto simp: chan_is_def split: option.splits)
  with f po inv st ch have "cn_inv kf ?s" by (auto simp: cn_inv_def poller_ok_def cn_fd_def)
  with r f show ?thesis by auto
qed

lemma do_connect_inv:
  assumes inv: "cn_inv kf s" and st: "cn_state s \<noteq> CConnecting" and fr: "fresh_attempt kf p fd s"
    and c: "cn_do_connect kf p fd err s = Inr s'"
  shows "cn_inv kf s'"
proof (cases "err \<in> {0, EINPROGRESS, EINTR, EISCONN}")
  case True
  with c fr have c': "connecting kf p fd (s\<lparr>cn_opened := cn_opened s @ [fd]\<rparr>) = Inr s'"
    by (simp add: cn_do_connect_def createNonblockingOrDie_def fresh_attempt_def Let_def)
  then have "cn_channel s = None" by (auto simp: connecting_def res_simps)
  with connecting_inv [OF inv st _ fr] c' show ?thesis by auto
next
  case False
  with c fr have "s' = cn_retry fd (s\<lparr>cn_opened := cn_opened s @ [fd]\<rparr>) \<or>
      s' = s\<lparr>cn_opened := cn_opened s @ [fd], cn_closed := cn_closed s @ [fd]\<rparr>"
    by (auto simp: cn_do_connect_def createNonblockingOrDie_def fresh_attempt_def Let_def split: if_splits)
  then show ?thesis using inv st
    by (auto simp: cn_inv_def cn_fd_def cn_retry_def split: option.splits)
qed

section \<open>Reachable connectors\<close>

inductive cn_step :: "kfault \<Rightarrow> Connector \<Rightarrow> Connector \<Rightarrow> bool" for kf where
  start: "fresh_attempt kf p fd s \<Longrightarrow> cn_start kf inLoop p fd err s = Inr s' \<Longrightarrow> cn_step kf s s'"
| stop: "cn_step kf s (cn_stop s)"
| run: "fresh_attempt kf p fd s \<Longrightarrow> cn_run kf p fd err s = Inr s' \<Longrightarrow> cn_step kf s s'"
| event_write: "cn_state s = CConnecting \<Longrightarrow> cn_handleWrite kf err self s = Inr s' \<Longrightarrow> cn_step kf s s'"
| event_error: "cn_handleError kf s = Inr s' \<Longrightarrow> cn_step kf s s'"
| restart: "fresh_attempt kf p fd s \<Longrightarrow> cn_state s \<noteq> CConnecting \<Longrightarrow> cn_restart kf p fd err s = Inr s' \<Longrightarrow> cn_step kf s s'"

inductive_cases cn_stepE: "cn_step kf s s'"

inductive cn_reach :: "kfault \<Rightarrow> Connector \<Rightarrow> bool" for kf where
  init: "poller_inv po \<Longrightarrow> cn_reach kf (Connector_ctor po)"
| step: "cn_reach kf s \<Longrightarrow> cn_step kf s s' \<Longrightarrow> cn_reach kf s'"

text \<open>The fields that the invariant does not read.\<close>

lemma cn_inv_simps [simp]:
  "cn_inv kf (s\<lparr>cn_connect := b\<rparr>) = cn_inv kf s" "cn_inv kf (s\<lparr>retryDelayMs := d\<rparr>) = cn_inv kf s"
  "j \<noteq> Resetj \<Longrightarrow> cn_inv kf (s\<lparr>cn_queue := cn_queue s @ [j]\<rparr>) = cn_inv kf s"
  by (simp_all add: cn_inv_def cn_fd_def cong: option.case_cong if_cong)

lemma fresh_attempt_simps [simp]:
  "fresh_attempt kf p fd (s\<lparr>cn_connect := b\<rparr>) = fresh_attempt kf p fd s"
  "fresh_attempt kf p fd (s\<lparr>cn_state := st\<rparr>) = fresh_attempt kf p fd s"
  "fresh_attempt kf p fd (s\<lparr>retryDelayMs := d\<rparr>) = fresh_attempt kf p fd s"
  "fresh_attempt kf p fd (s\<lparr>cn_queue := q\<rparr>) = fresh_attempt kf p fd s"
  by (simp_all add: fresh_attempt_def)

lemma cn_inv_state:
  "cn_inv kf s \<Longrightarrow> cn_state s \<noteq> CConnecting \<Longrightarrow> st \<noteq> CConnecting \<Longrightarrow> cn_inv kf (s\<lparr>cn_state := st\<rparr>)"
  by (auto simp: cn_inv_def cn_fd_def split: option.splits)

lemma cn_inv_dequeue:
  "cn_inv kf s \<Longrightarrow> cn_queue s = j # q \<Longrightarrow> j \<noteq> Resetj \<Longrightarrow> cn_inv kf (s\<lparr>cn_queue := q\<rparr>)"
  by (auto simp: cn_inv_def cn_fd_def split: option.splits if_splits)

lemma startInLoop_inv:
  assumes "cn_inv kf s" "fresh_attempt kf p fd s" "startInLoop kf p fd err s = Inr s'"
  shows "cn_inv kf s'"
  using assms do_connect_inv [of kf s p fd err s'] by (auto simp: startInLoop_def res_simps split: if_splits)

lemma cn_run_inv:
  assumes inv: "cn_inv kf s" and fr: "fresh_attempt kf p fd s" and r: "cn_run kf p fd err s = Inr s'"
  shows "cn_inv kf s'"
proof (cases "cn_queue s")
  case (Cons j q)
  show ?thesis
  proof (cases j)
    case Startj
    with Cons r cn_inv_dequeue [OF inv Cons] startInLoop_inv [of kf "s\<lparr>cn_queue := q\<rparr>" p fd err s'] fr
    show ?thesis by (simp add: cn_run_def)
  next
    case Stopj
    with Cons r cn_inv_dequeue [OF inv Cons] stopInLoop_inv [of kf "s\<lparr>cn_queue := q\<rparr>"]
    show ?thesis by (auto simp: cn_run_def)
  next
    case Resetj
    with Cons r resetChannel_inv [OF inv, of q] show ?thesis by (auto simp: cn_run_def)
  qed
qed (use inv r in \<open>simp add: cn_run_def\<close>)

lemma cn_restart_inv:
  assumes "cn_inv kf s" "fresh_attempt kf p fd s" "cn_state s \<noteq> CConnecting" "cn_restart kf p fd err s = Inr s'"
  shows "cn_inv kf s'"
proof -
  have "cn_inv kf (s\<lparr>cn_state := CDisconnected, retryDelayMs := kInitRetryDelayMs, cn_connect := True\<rparr>)"
    using cn_inv_state [OF assms(1,3), of CDisconnected] by simp
  from startInLoop_inv [OF this _ assms(4) [unfolded cn_restart_def]] assms(2) show ?thesis by simp
qed

lemma cn_start_inv:
  assumes "cn_inv kf s" "fresh_attempt kf p fd s" "cn_start kf inLoop p fd err s = Inr s'"
  shows "cn_inv kf s'"
proof (cases inLoop)
  case True
  with assms startInLoop_inv [of kf "s\<lparr>cn_connect := True\<rparr>" p fd err s'] show ?thesis by (simp add: cn_start_def)
next
  case False
  with assms(3) have "s' = (s\<lparr>cn_connect := True\<rparr>)\<lparr>cn_queue := cn_queue (s\<lparr>cn_connect := True\<rparr>) @ [Startj]\<rparr>"
    by (simp add: cn_start_def Let_def)
  with assms(1) show ?thesis by (simp only: cn_inv_simps(1) cn_inv_simps(3) cjob.distinct not_False_eq_True)
qed

lemma cn_stop_inv: "cn_inv kf s \<Longrightarrow> cn_inv kf (cn_stop s)"
proof -
  assume "cn_inv kf s"
  then have "cn_inv kf ((s\<lparr>cn_connect := False\<rparr>)\<lparr>cn_queue := cn_queue (s\<lparr>cn_connect := False\<rparr>) @ [Stopj]\<rparr>)"
    by (simp only: cn_inv_simps(1) cn_inv_simps(3) cjob.distinct not_False_eq_True)
  then show ?thesis by (simp add: cn_stop_def)
qed

lemma cn_step_inv: "cn_step kf s s' \<Longrightarrow> cn_inv kf s \<Longrightarrow> cn_inv kf s'"
proof (induction rule: cn_step.induct)
  case (start p fd s inLoop err s')
  then show ?case by (blast intro: cn_start_inv)
next
  case (stop s)
  then show ?case by (rule cn_stop_inv)
next
  case (run p fd s err s')
  then show ?case by (blast intro: cn_run_inv)
next
  case (event_write s err self s')
  with handleWrite_inv [of kf s err self] show ?case by auto
next
  case (event_error s s')
  with handleError_inv [of kf s] show ?case by auto
next
  case (restart p fd s err s')
  then show ?case by (blast intro: cn_restart_inv)
qed

lemma cn_reach_inv: "cn_reach kf s \<Longrightarrow> cn_inv kf s"
proof (induction rule: cn_reach.induct)
  case (init po)
  then show ?case by (simp add: Connector_ctor_def cn_inv_def cn_fd_def)
qed (rule cn_step_inv)

text \<open>
  C23. The connector keeps account of its sockets: after any sequence of starts, stops, restarts,
  events and queued work, every descriptor it opened has been closed once, or handed to the
  new-connection callback once, or is the one being connected. The callbacks of the channel and the
  stop never fail an assertion, the queued destruction of the channel finds it unregistered, and
  when nothing is queued and no attempt is running the connector holds no channel, so that it can be
  destroyed.
\<close>

theorem connector_sockets_accounted:
  assumes "cn_reach kf s"
  shows "mset (cn_opened s) = mset (cn_closed s) + mset (cn_given s) + mset (cn_fd s) \<and>
    (cn_state s = CConnecting \<longrightarrow> (\<exists>fd. cn_fd s = [fd]) \<and> (\<forall>err self. \<exists>s'. cn_handleWrite kf err self s = Inr s')) \<and>
    (\<exists>s'. cn_handleError kf s = Inr s') \<and> (\<exists>s'. stopInLoop kf s = Inr s') \<and>
    (\<forall>q. cn_queue s = Resetj # q \<longrightarrow> (\<exists>s'. resetChannel (s\<lparr>cn_queue := q\<rparr>) = Inr s')) \<and>
    (cn_state s \<noteq> CConnecting \<and> cn_queue s = [] \<longrightarrow> Connector_dtor s = Inr ())"
proof (intro conjI impI allI)
  note inv = cn_reach_inv [OF assms]
  show "mset (cn_opened s) = mset (cn_closed s) + mset (cn_given s) + mset (cn_fd s)" using inv by (simp add: cn_inv_def)
  show "\<exists>fd. cn_fd s = [fd]" if "cn_state s = CConnecting" using cn_inv_connecting [OF inv that] by blast
  show "\<exists>s'. cn_handleWrite kf err self s = Inr s'" if "cn_state s = CConnecting" for err self
    using handleWrite_inv [OF inv that] by blast
  show "\<exists>s'. cn_handleError kf s = Inr s'" using handleError_inv [OF inv] by blast
  show "\<exists>s'. stopInLoop kf s = Inr s'" using stopInLoop_inv [OF inv] by blast
  show "\<exists>s'. resetChannel (s\<lparr>cn_queue := q\<rparr>) = Inr s'" if "cn_queue s = Resetj # q" for q
    using resetChannel_inv [OF inv that] by blast
  show "Connector_dtor s = Inr ()" if "cn_state s \<noteq> CConnecting \<and> cn_queue s = []"
    using inv that by (auto simp: cn_inv_def Connector_dtor_def split: option.splits)
qed

definition empty_poller :: poller where
  "empty_poller = \<lparr>chans = [], channels = [], events_size = 16, interest = []\<rparr>"

lemma poller_inv_empty: "poller_inv empty_poller"
  by (simp add: poller_inv_def empty_poller_def)

lemma demo_attempt: "\<exists>s. cn_start no_fault True 3 8 EINPROGRESS (Connector_ctor empty_poller) = Inr s \<and>
    cn_reach no_fault s \<and> cn_state s = CConnecting \<and> cn_opened s = [8]"
proof -
  have "\<exists>s. cn_start no_fault True 3 8 EINPROGRESS (Connector_ctor empty_poller) = Inr s \<and>
      cn_state s = CConnecting \<and> cn_opened s = [8]"
    by (simp add: cn_start_def startInLoop_def cn_do_connect_def createNonblockingOrDie_def connecting_def cn_on_chan_def
        Connector_ctor_def empty_poller_def set_chan_def Channel_ctor_def enableWriting_def chan_def Channel_update_def
        Poller_updateChannel_def Poller_update_def epoll_ctl_def no_fault_def index_defs Let_def)
  then obtain s where s: "cn_start no_fault True 3 8 EINPROGRESS (Connector_ctor empty_poller) = Inr s"
    "cn_state s = CConnecting" "cn_opened s = [8]" by blast
  have "fresh_attempt no_fault 3 8 (Connector_ctor empty_poller)"
    by (simp add: fresh_attempt_def kernel_ok_def no_fault_def Connector_ctor_def empty_poller_def)
  from cn_reach.step [OF cn_reach.init [OF poller_inv_empty] cn_step.start [OF this s(1)]] s show ?thesis by blast
qed

theorem connector_sockets_accounted_witness:
  "\<exists>s s'. cn_start no_fault True 3 8 EINPROGRESS (Connector_ctor empty_poller) = Inr s \<and> cn_fd s = [8] \<and>
    cn_handleWrite no_fault 0 False s = Inr s'"
proof -
  from demo_attempt obtain s where s: "cn_start no_fault True 3 8 EINPROGRESS (Connector_ctor empty_poller) = Inr s"
    "cn_reach no_fault s" "cn_state s = CConnecting" "cn_opened s = [8]" by blast
  note t = connector_sockets_accounted [OF s(2)]
  from t s(3) obtain fd s' where "cn_fd s = [fd]" "cn_handleWrite no_fault 0 False s = Inr s'" by blast
  moreover from t s(4) this(1) have "{#8#} = mset (cn_closed s) + mset (cn_given s) + {#fd#}" by simp
  then have "fd \<in># {#8#}" by (metis union_iff multi_member_last)
  then have "fd = 8" by simp
  ultimately show ?thesis using s(1) by blast
qed

section \<open>The client\<close>

text \<open>
  What follows the end of a client's connection: the connection is dropped and its destruction
  queued; with retrying on (and not switched off by \<^verbatim>\<open>disconnect\<close> or \<^verbatim>\<open>stop\<close>) a new attempt is under way on
  a fresh socket as soon as \<^verbatim>\<open>connect\<close> reports progress; without it the connector is left as it is, in
  the state of a made connection, and a later \<^verbatim>\<open>connect\<close> fails the assertion of \<^verbatim>\<open>startInLoop\<close>.
\<close>

theorem client_after_close:
  assumes "cn_inv kf (cl_connector c)" and "cn_state (cl_connector c) = CConnected" and "cn_channel (cl_connector c) = None"
    and "cl_connection c = Some i" and "fresh_attempt kf p fd (cl_connector c)"
  shows "\<exists>c'. cl_removeConnection kf p fd EINPROGRESS i c = Inr c' \<and> cl_connection c' = None \<and>
    last (cl_calls c') = Queue_Destroyed i \<and>
    (if cl_retry c \<and> cl_connect c
     then cn_state (cl_connector c') = CConnecting \<and> cn_fd (cl_connector c') = [fd] \<and> cn_inv kf (cl_connector c')
     else cl_connector c' = cl_connector c \<and> (\<forall>q gd err. cl_do_connect kf True q gd err c' = Inl Assert_Failed))"
proof (cases "cl_retry c \<and> cl_connect c")
  case True
  let ?k = "(cl_connector c)\<lparr>cn_state := CDisconnected, retryDelayMs := kInitRetryDelayMs, cn_connect := True\<rparr>"
  have "cn_inv kf ?k" using cn_inv_state [of kf "cl_connector c" CDisconnected] assms(1,2) by simp
  from connecting_inv [OF this _ _ _, of p fd] assms(3,5) obtain k where
    k: "connecting kf p fd (?k\<lparr>cn_opened := cn_opened ?k @ [fd]\<rparr>) = Inr k" "cn_inv kf k" "cn_state k = CConnecting" "cn_fd k = [fd]"
    by auto
  then have "cn_restart kf p fd EINPROGRESS (cl_connector c) = Inr k"
    using assms(5) by (simp add: cn_restart_def startInLoop_def cn_do_connect_def createNonblockingOrDie_def fresh_attempt_def Let_def)
  with True k assms(4) show ?thesis by (simp add: cl_removeConnection_def cl_call_def Let_def)
next
  case False
  with assms(2,4) show ?thesis
    by (auto simp: cl_removeConnection_def cl_call_def Let_def cl_do_connect_def cn_start_def startInLoop_def)
qed

definition demo_client :: "bool \<Rightarrow> TcpClient" where
  "demo_client b = (TcpClient_ctor empty_poller ''cli'')\<lparr>cl_retry := b, cl_connection := Some 4,
     cl_connector := (Connector_ctor empty_poller)\<lparr>cn_state := CConnected, cn_opened := [8], cn_given := [8]\<rparr>\<rparr>"

theorem client_after_close_witness:
  "\<exists>c'. cl_removeConnection no_fault 3 9 EINPROGRESS 4 (demo_client True) = Inr c' \<and> cn_fd (cl_connector c') = [9]"
proof -
  have "cn_inv no_fault (cl_connector (demo_client True))" "fresh_attempt no_fault 3 9 (cl_connector (demo_client True))"
    using poller_inv_empty
    by (simp_all add: demo_client_def cn_inv_def Connector_ctor_def cn_fd_def fresh_attempt_def kernel_ok_def no_fault_def empty_poller_def)
  with client_after_close [of no_fault "demo_client True" 4 3 9] show ?thesis
    by (auto simp: demo_client_def TcpClient_ctor_def Connector_ctor_def)
qed

end
