(* ===== verification/PzmqData.thy ===== *)
theory PzmqData
  imports Dt_Prelude
begin

text \<open>
  Messages of the RPC layer (\<^verbatim>\<open>hybrid-comm/include/pzmq_data.h\<close>, \<^verbatim>\<open>hybrid-comm/src/pzmq_data.cpp\<close>).
  A \<open>pzmq_data\<close> holds the bytes of a zmq message. \<^verbatim>\<open>set_param\<close> packs two strings behind a one-byte
  length, \<^verbatim>\<open>get_param\<close> unpacks them. The length byte is read through a plain \<^verbatim>\<open>char\<close>, whose
  signedness is implementation-defined: it is the parameter \<open>sc\<close> (true where \<^verbatim>\<open>char\<close> is signed,
  as on x86-64). The lemmas give the round trip, its limits, and the failures on malformed
  messages.
\<close>

record pzmq_data =
  msg :: string

definition pzmq_data_ctor :: pzmq_data where
  "pzmq_data_ctor = \<lparr>msg = []\<rparr>"

definition get_string :: "pzmq_data \<Rightarrow> string" where
  "get_string d = take (length (msg d)) (msg d)"

definition pzmq_data_string :: "pzmq_data \<Rightarrow> string" where
  "pzmq_data_string d = take (length (msg d)) (msg d)"

definition pzmq_data_size :: "pzmq_data \<Rightarrow> nat" where
  "pzmq_data_size d = length (msg d)"

text \<open>The value of a \<^verbatim>\<open>char\<close> converted to \<^verbatim>\<open>int\<close>.\<close>

definition char_to_int :: "bool \<Rightarrow> char \<Rightarrow> int" where
  "char_to_int sc c = (let n = int (of_char c) in if sc \<and> n \<ge> 128 then n - 256 else n)"

text \<open>\<^verbatim>\<open>std::string(p + i, n)\<close> over the memory \<open>mem\<close> at \<open>p\<close>.\<close>

definition string_from :: "string \<Rightarrow> int \<Rightarrow> nat \<Rightarrow> string res" where
  "string_from mem i n =
     (if n > max_size then Inl Length_Error
      else if i < 0 then Inl Undefined_Behaviour
      else mem_read mem (nat i) n)"

definition get_param :: "bool \<Rightarrow> int \<Rightarrow> string \<Rightarrow> pzmq_data \<Rightarrow> string res" where
  "get_param sc index idata d =
     (let (mem, size) =
            (if length idata > 0 then (idata @ [CHR 0x00], to_int32 (int (length idata)))
             else (msg d, to_int32 (int (length (msg d)))))
      in case mem of
           [] \<Rightarrow> Inl Undefined_Behaviour
         | c # _ \<Rightarrow>
             let d0 = char_to_int sc c in
             if index mod 2 = 0 then string_from mem 1 (size_of_int d0)
             else string_from mem (d0 + 1) (size_of_int (size - d0 - 1)))"

definition set_param :: "string \<Rightarrow> string \<Rightarrow> string" where
  "set_param param0 param1 =
     (let data = '' '' @ param0 @ param1
      in data[0 := char_of (length param0 mod 256)])"

section \<open>Lemmas\<close>

lemma set_param_eq: "set_param p0 p1 = char_of (length p0) # p0 @ p1"
  by (simp add: set_param_def)

lemma set_param_not_Nil [simp]: "set_param p0 p1 \<noteq> []"
  by (simp add: set_param_eq)

lemma length_set_param: "length (set_param p0 p1) = Suc (length p0 + length p1)"
  by (simp add: set_param_eq)

text \<open>The largest first parameter whose length survives the length byte.\<close>

definition param0_limit :: "bool \<Rightarrow> nat" where
  "param0_limit sc = (if sc then 127 else 255)"

lemma char_to_int_length:
  "n \<le> param0_limit sc \<Longrightarrow> char_to_int sc (char_of n) = int n"
  by (auto simp: char_to_int_def param0_limit_def Let_def split: if_splits)

lemma get_param_packed:
  assumes len: "length p0 \<le> param0_limit sc" and tot: "length p0 + length p1 < 2147483647"
    and src: "idata = set_param p0 p1 \<or> idata = [] \<and> msg d = set_param p0 p1"
  shows "get_param sc 0 idata d = Inr p0" "get_param sc 1 idata d = Inr p1"
proof -
  have lim: "length p0 \<le> 255" using len by (simp add: param0_limit_def split: if_splits)
  have sz: "to_int32 (1 + (int (length p0) + int (length p1))) = 1 + (int (length p0) + int (length p1))"
    using tot by (intro to_int32_id) (simp add: is_int32_def)
  have c: "char_to_int sc (char_of (length p0)) = int (length p0)"
    using len by (rule char_to_int_length)
  have n0: "size_of_int (int (length p0)) = length p0"
    using lim by simp
  have n1: "size_of_int (int (length p1)) = length p1"
    using tot by simp
  have "string_from (char_of (length p0) # p0 @ p1 @ r) 1 (length p0) = Inr p0"
    "string_from (char_of (length p0) # p0 @ p1 @ r) (int (length p0) + 1) (length p1) = Inr p1" for r
    using lim tot by (simp_all add: string_from_def mem_read_def nat_add_distrib)
  from this [of "[CHR 0x00]"] this [of "[]"] src sz c n0 n1
  show "get_param sc 0 idata d = Inr p0" "get_param sc 1 idata d = Inr p1"
    by (auto simp: get_param_def set_param_eq Let_def)
qed

text \<open>Where \<^verbatim>\<open>char\<close> is signed, a first parameter of 128 to 255 bytes makes the length negative.\<close>

lemma get_param_negative_length:
  assumes "128 \<le> length p0" and "length p0 \<le> 255"
  shows "get_param True 0 [] \<lparr>msg = set_param p0 p1\<rparr> = Inl Length_Error"
proof -
  have "char_to_int True (char_of (length p0)) = int (length p0) - 256"
    using assms by (simp add: char_to_int_def Let_def)
  moreover have "size_of_int (int (length p0) - 256) > max_size"
  proof -
    have "(int (length p0) - 256) mod 18446744073709551616 =
        (int (length p0) - 256 + 18446744073709551616) mod 18446744073709551616"
      by (simp only: mod_add_self2)
    also have "\<dots> = int (length p0) - 256 + 18446744073709551616"
      using assms by (intro mod_pos_pos_trivial) simp_all
    finally show ?thesis using assms by (simp add: size_of_int_def)
  qed
  ultimately show ?thesis
    by (simp add: get_param_def set_param_eq Let_def string_from_def)
qed

section \<open>Properties\<close>

text \<open>
  C35. Packing and unpacking two parameters is a round trip, both for a received message and for
  a nested parameter passed as \<^verbatim>\<open>idata\<close>, as long as the first parameter is no longer than the
  length byte can express (127 bytes where \<^verbatim>\<open>char\<close> is signed, 255 otherwise).
\<close>

theorem param_roundtrip:
  assumes "length p0 \<le> param0_limit sc" and "length p0 + length p1 < 2147483647"
  shows "get_param sc 0 [] \<lparr>msg = set_param p0 p1\<rparr> = Inr p0 \<and>
    get_param sc 1 [] \<lparr>msg = set_param p0 p1\<rparr> = Inr p1 \<and>
    get_param sc 0 (set_param p0 p1) d = Inr p0 \<and>
    get_param sc 1 (set_param p0 p1) d = Inr p1"
  using get_param_packed [OF assms] by simp_all

theorem param_roundtrip_witness:
  "get_param True 1 [] \<lparr>msg = set_param ''bilibili'' ''sorbai''\<rparr> = Inr ''sorbai''"
  using param_roundtrip [of "''bilibili''" True "''sorbai''"] by (simp add: param0_limit_def)

text \<open>
  Where \<^verbatim>\<open>char\<close> is signed, a first parameter of 128 to 255 bytes cannot be read back: the length
  byte is sign-extended and constructing the string throws \<^verbatim>\<open>length_error\<close>.
\<close>

theorem param_long_first_throws:
  assumes "128 \<le> length p0" and "length p0 \<le> 255"
  shows "get_param True 0 [] \<lparr>msg = set_param p0 p1\<rparr> = Inl Length_Error"
  using assms by (rule get_param_negative_length)

theorem param_long_first_throws_witness:
  "get_param True 0 [] \<lparr>msg = set_param (replicate 200 CHR ''u'') ''x''\<rparr> = Inl Length_Error"
  by (rule param_long_first_throws) simp_all

end
