(* ===== verification/Pzmq.thy ===== *)
theory Pzmq
  imports PzmqData
begin

text \<open>
  The wrapper around libzmq (\<^verbatim>\<open>hybrid-comm/include/pzmq.hpp\<close>): one object is a publisher,
  subscriber, push, pull, RPC server or RPC client socket, according to its mode. libzmq and the
  file system are outside the sources: what they answer is the record \<open>zenv\<close> that the operations
  take, and the calls made to them are kept, in order, in the field \<open>zmq_log\<close> of the object.
  Handlers of RPC actions are values of a type \<open>'f\<close>; the thread that runs \<^verbatim>\<open>zmq_event_loop\<close> is
  modelled by that loop over a list of what the socket delivers.
\<close>

section \<open>State\<close>

definition ZMQ_PUB :: int where "ZMQ_PUB = 1"
definition ZMQ_SUB :: int where "ZMQ_SUB = 2"
definition ZMQ_REQ :: int where "ZMQ_REQ = 3"
definition ZMQ_REP :: int where "ZMQ_REP = 4"
definition ZMQ_PULL :: int where "ZMQ_PULL = 7"
definition ZMQ_PUSH :: int where "ZMQ_PUSH = 8"
definition ZMQ_RPC_FUN :: int where "ZMQ_RPC_FUN = or ZMQ_REP 0x80"
definition ZMQ_RPC_CALL :: int where "ZMQ_RPC_CALL = or ZMQ_REQ 0x80"

lemma zmq_modes [simp]: "ZMQ_RPC_FUN = 132" "ZMQ_RPC_CALL = 131"
  by (simp_all add: ZMQ_RPC_FUN_def ZMQ_RPC_CALL_def ZMQ_REP_def ZMQ_REQ_def)

lemmas zmq_mode_defs = ZMQ_PUB_def ZMQ_SUB_def ZMQ_PULL_def ZMQ_PUSH_def

text \<open>
  What libzmq and the file system answer: whether the \<open>k\<close>-th \<^verbatim>\<open>zmq_ctx_new\<close>/\<^verbatim>\<open>zmq_socket\<close> succeeds, the
  results of \<^verbatim>\<open>zmq_bind\<close> and \<^verbatim>\<open>zmq_connect\<close>, whether a file exists, and the reply to a request
  (\<^const>\<open>None\<close> when the receive timeout passes first).
\<close>

record zenv =
  ctx_new :: "nat \<Rightarrow> bool"
  socket_new :: "nat \<Rightarrow> bool"
  bind_ret :: "string \<Rightarrow> int"
  connect_ret :: "string \<Rightarrow> int"
  file_exists :: "string \<Rightarrow> bool"
  reply :: "string \<Rightarrow> string \<Rightarrow> string option"

datatype zcall =
    ZSocket int
  | ZSetOpt string int
  | ZBind string
  | ZConnect string
  | ZSpawn
  | ZSend string bool
  | ZRecv
  | ZClose
  | ZCtxDestroy
  | ZCtxShutdown
  | ZJoin
  | ZRemove string

datatype 'f action = List_Action | Action 'f

record 'f pzmq =
  rpc_url_head :: string
  zmq_socket :: bool
  zmq_fun :: "(string, 'f action) umap"
  flage :: bool
  zmq_thread :: bool
  mode :: "int option"
  rpc_server :: string
  zmq_url :: string
  timeout :: int
  zmq_log :: "zcall list"

definition rpc_url_head_length :: nat where
  "rpc_url_head_length = 6"

definition zcalls :: "zcall list \<Rightarrow> 'f pzmq \<Rightarrow> 'f pzmq" where
  "zcalls cs s = s\<lparr>zmq_log := zmq_log s @ cs\<rparr>"

definition is_bind :: "'f pzmq \<Rightarrow> bool" where
  "is_bind s = (if mode s = Some ZMQ_PUB \<or> mode s = Some ZMQ_PULL \<or> mode s = Some ZMQ_RPC_FUN
                then True else False)"

definition set_timeout :: "int \<Rightarrow> 'f pzmq \<Rightarrow> 'f pzmq" where
  "set_timeout ms s = s\<lparr>timeout := ms\<rparr>"

definition get_timeout :: "'f pzmq \<Rightarrow> int" where
  "get_timeout s = timeout s"

section \<open>Creating sockets\<close>

definition creat_pub :: "zenv \<Rightarrow> string \<Rightarrow> 'f pzmq \<Rightarrow> int \<times> 'f pzmq" where
  "creat_pub env url s = (bind_ret env (c_str url), zcalls [ZBind (c_str url)] s)"

definition creat_push :: "zenv \<Rightarrow> string \<Rightarrow> 'f pzmq \<Rightarrow> int \<times> 'f pzmq" where
  "creat_push env url s =
     (connect_ret env (c_str url),
      zcalls [ZSetOpt ''ZMQ_RECONNECT_IVL'' 100, ZSetOpt ''ZMQ_RECONNECT_IVL_MAX'' 1000,
              ZSetOpt ''ZMQ_SNDTIMEO'' (timeout s), ZConnect (c_str url)] s)"

text \<open>Starting the receiving thread; assigning over a running one destroys a joinable \<^verbatim>\<open>std::thread\<close>.\<close>

definition spawn_loop :: "int \<Rightarrow> 'f pzmq \<Rightarrow> (int \<times> 'f pzmq) res" where
  "spawn_loop ret s =
     (if zmq_thread s then Inl Terminate
      else Inr (ret, zcalls [ZSpawn] (s\<lparr>flage := False, zmq_thread := True\<rparr>)))"

definition creat_pull :: "zenv \<Rightarrow> string \<Rightarrow> 'f pzmq \<Rightarrow> (int \<times> 'f pzmq) res" where
  "creat_pull env url s = spawn_loop (bind_ret env (c_str url)) (zcalls [ZBind (c_str url)] s)"

definition subscriber_url :: "zenv \<Rightarrow> string \<Rightarrow> 'f pzmq \<Rightarrow> (int \<times> 'f pzmq) res" where
  "subscriber_url env url s =
     spawn_loop (connect_ret env (c_str url))
       (zcalls [ZSetOpt ''ZMQ_RECONNECT_IVL'' 100, ZSetOpt ''ZMQ_RECONNECT_IVL_MAX'' 1000,
                ZConnect (c_str url), ZSetOpt ''ZMQ_SUBSCRIBE'' 0] s)"

definition creat_rep :: "zenv \<Rightarrow> string \<Rightarrow> 'f pzmq \<Rightarrow> (int \<times> 'f pzmq) res" where
  "creat_rep env url s = spawn_loop (bind_ret env (c_str url)) (zcalls [ZBind (c_str url)] s)"

definition creat_req :: "zenv \<Rightarrow> string \<Rightarrow> 'f pzmq \<Rightarrow> (int \<times> 'f pzmq) res" where
  "creat_req env url s =
     (let connect = (\<lambda>s. Inr (connect_ret env (c_str url),
            zcalls [ZSetOpt ''ZMQ_SNDTIMEO'' (timeout s), ZSetOpt ''ZMQ_RCVTIMEO'' (timeout s),
                    ZConnect (c_str url)] s))
      in if rpc_url_head s \<noteq> []
         then bind_res (substr_from url rpc_url_head_length)
                (\<lambda>socket_file. if \<not> file_exists env (c_str socket_file) then Inr (-1, s)
                               else connect s)
         else connect s)"

definition creat :: "zenv \<Rightarrow> string \<Rightarrow> 'f pzmq \<Rightarrow> (int \<times> 'f pzmq) res" where
  "creat env url s =
     (let s1 = s\<lparr>zmq_url := url\<rparr> in
      case (retry (ctx_new env) 0, retry (socket_new env) 0, mode s) of
        (Some _, Some _, Some md) \<Rightarrow>
          let s2 = zcalls [ZSocket (and md 0x3f)] (s1\<lparr>zmq_socket := True\<rparr>) in
          if md = ZMQ_PUB then Inr (creat_pub env url s2)
          else if md = ZMQ_SUB then subscriber_url env url s2
          else if md = ZMQ_PUSH then Inr (creat_push env url s2)
          else if md = ZMQ_PULL then creat_pull env url s2
          else if md = ZMQ_RPC_FUN then creat_rep env url s2
          else if md = ZMQ_RPC_CALL then creat_req env url s2
          else Inr (0, s2)
      | (_, _, None) \<Rightarrow> Inl Undefined_Behaviour
      | _ \<Rightarrow> Inl Diverges)"

text \<open>The two constructors: a lazy RPC endpoint, and a socket of a given mode.\<close>

definition pzmq_init :: "int option \<Rightarrow> string \<Rightarrow> string \<Rightarrow> 'f pzmq" where
  "pzmq_init md server head =
     \<lparr>rpc_url_head = head, zmq_socket = False, zmq_fun = [], flage = True, zmq_thread = False,
      mode = md, rpc_server = server, zmq_url = [], timeout = 3000, zmq_log = []\<rparr>"

definition default_head :: string where
  "default_head = ''ipc:///tmp/rpc.''"

definition pzmq_server :: "string \<Rightarrow> 'f pzmq" where
  "pzmq_server server =
     pzmq_init None server (if str_find server ''://'' 0 \<noteq> None then [] else default_head)"

definition pzmq_socket :: "zenv \<Rightarrow> string \<Rightarrow> int \<Rightarrow> 'f pzmq res" where
  "pzmq_socket env url md =
     bind_res (str_at url 0) (\<lambda>c0.
       bind_res (if c0 \<noteq> CHR ''i'' then bind_res (str_at url 1) (\<lambda>c1. Inr (c1 \<noteq> CHR ''p'')) else Inr False)
         (\<lambda>clear. let s = pzmq_init (Some md) [] (if clear then [] else default_head)
                  in if md \<noteq> ZMQ_RPC_FUN then bind_res (creat env url s) (\<lambda>(_, s'). Inr s') else Inr s))"

definition send_data :: "string \<Rightarrow> 'f pzmq \<Rightarrow> 'f pzmq" where
  "send_data raw s = zcalls [ZSend raw False] s"

section \<open>Closing\<close>

definition close_zmq :: "zenv \<Rightarrow> 'f pzmq \<Rightarrow> 'f pzmq res" where
  "close_zmq env s =
     (let s1 = zcalls [ZClose, ZCtxDestroy] s;
          done = (\<lambda>s. Inr (s\<lparr>zmq_socket := False\<rparr>))
      in if is_bind s \<and> rpc_url_head s \<noteq> []
         then bind_res (substr_from (zmq_url s) rpc_url_head_length)
                (\<lambda>socket_file. if file_exists env (c_str socket_file)
                               then done (zcalls [ZRemove (c_str socket_file)] s1) else done s1)
         else done s1)"

definition pzmq_dtor :: "zenv \<Rightarrow> 'f pzmq \<Rightarrow> 'f pzmq res" where
  "pzmq_dtor env s =
     (if \<not> zmq_socket s then Inr s
      else let s1 = zcalls [ZCtxShutdown] (s\<lparr>flage := True\<rparr>);
               s2 = (if zmq_thread s1 then zcalls [ZJoin] (s1\<lparr>zmq_thread := False\<rparr>) else s1)
           in case close_zmq env s2 of Inl _ \<Rightarrow> Inl Terminate | Inr s3 \<Rightarrow> Inr s3)"

section \<open>RPC actions\<close>

text \<open>The text \<^verbatim>\<open>{"actions":["a","b"]}\<close>; on an empty table the loop would dereference \<^verbatim>\<open>end()\<close>.\<close>

fun list_actions :: "string list \<Rightarrow> string res" where
  "list_actions [] = Inl Undefined_Behaviour"
| "list_actions [a] = Inr ([CHR 0x22] @ a @ [CHR 0x22] @ '']}'')"
| "list_actions (a # as) =
     bind_res (list_actions as) (\<lambda>r. Inr ([CHR 0x22] @ a @ [CHR 0x22] @ '','' @ r))"

definition rpc_list_action :: "'f pzmq \<Rightarrow> string res" where
  "rpc_list_action s =
     bind_res (list_actions (map fst (zmq_fun s)))
       (\<lambda>r. Inr (''{'' @ [CHR 0x22] @ ''actions'' @ [CHR 0x22] @ '':['' @ r))"

definition register_rpc_action :: "zenv \<Rightarrow> string \<Rightarrow> 'f \<Rightarrow> 'f pzmq \<Rightarrow> (int \<times> 'f pzmq) res" where
  "register_rpc_action env act raw_call s =
     (let put = (\<lambda>s. s\<lparr>zmq_fun := umap_set act (Action raw_call) (zmq_fun s)\<rparr>)
      in if map_of (zmq_fun s) act \<noteq> None then Inr (0, put s)
         else if zmq_fun s = []
         then bind_res (creat env (rpc_url_head s @ rpc_server s)
                          (s\<lparr>mode := Some ZMQ_RPC_FUN,
                             zmq_fun := umap_set ''list_action'' List_Action (zmq_fun s)\<rparr>))
                (\<lambda>(ret, s'). Inr (ret, put s'))
         else Inr (0, put s))"

definition unregister_rpc_action :: "string \<Rightarrow> 'f pzmq \<Rightarrow> 'f pzmq" where
  "unregister_rpc_action act s =
     (if map_of (zmq_fun s) act \<noteq> None then s\<lparr>zmq_fun := umap_erase act (zmq_fun s)\<rparr> else s)"

text \<open>
  A call: the result (or the exception of the callback \<open>raw_call\<close>, which acts on the caller's
  state \<open>w\<close>), the caller's state and the object afterwards. The variable \<^verbatim>\<open>ret\<close> is only assigned
  when the socket is created here. A receive that times out leaves the reply message empty.
\<close>

definition call_rpc_action ::
    "zenv \<Rightarrow> string \<Rightarrow> string \<Rightarrow> (pzmq_data \<Rightarrow> 'w \<Rightarrow> unit res \<times> 'w) \<Rightarrow> 'w \<Rightarrow> 'f pzmq \<Rightarrow>
     int res \<times> 'w \<times> 'f pzmq" where
  "call_rpc_action env act data raw_call w s =
     (let close = (\<lambda>ret w s. case close_zmq env s of Inl e \<Rightarrow> (Inl e, w, s)
                              | Inr s' \<Rightarrow> (case ret of None \<Rightarrow> (Inl Undefined_Behaviour, w, s')
                                           | Some r \<Rightarrow> (Inr r, w, s')));
          request = (\<lambda>ret s.
            let s1 = zcalls [ZSend act True, ZSend data False, ZRecv] s;
                d = \<lparr>msg = (case reply env act data of None \<Rightarrow> [] | Some m \<Rightarrow> m)\<rparr>
            in case raw_call d w of
                 (Inl e, w') \<Rightarrow> (Inl e, w', s1)
               | (Inr _, w') \<Rightarrow> close ret w' s1)
      in if zmq_socket s then request None s
         else if rpc_server s = [] then (Inr (-1), w, s)
         else case creat env (rpc_url_head s @ rpc_server s) (s\<lparr>mode := Some ZMQ_RPC_CALL\<rparr>) of
                Inl e \<Rightarrow> (Inl e, w, s)
              | Inr (ret, s1) \<Rightarrow> if ret \<noteq> 0 then close (Some ret) w s1 else request (Some ret) s1)"

section \<open>The receiving thread\<close>

text \<open>
  One delivery to the loop: the poll result and \<^verbatim>\<open>revents\<close> (used in mode \<^verbatim>\<open>ZMQ_PULL\<close>), the result and
  content of the first receive, and the content of the second part of a request.
\<close>

record zdelivery =
  poll_ret :: int
  pollin :: bool
  recv_ret :: int
  part1 :: string
  part2 :: string

text \<open>Running a handler \<open>run f d w\<close> and catching its exceptions; the table lookup throws too.\<close>

definition rpc_dispatch ::
    "('f \<Rightarrow> pzmq_data \<Rightarrow> 'w \<Rightarrow> string res \<times> 'w) \<Rightarrow> 'f pzmq \<Rightarrow> string \<Rightarrow> pzmq_data \<Rightarrow> 'w \<Rightarrow>
     string res \<times> 'w" where
  "rpc_dispatch run s act d w =
     (let (r, w') =
            (case umap_at (zmq_fun s) act of
               Inl e \<Rightarrow> (Inl e, w)
             | Inr List_Action \<Rightarrow> (rpc_list_action s, w)
             | Inr (Action f) \<Rightarrow> run f d w)
      in case r of Inl e \<Rightarrow> if catchable e then (Inr ''NotAction'', w') else (Inl e, w')
         | Inr v \<Rightarrow> (Inr v, w'))"

definition zmq_loop_body ::
    "('f \<Rightarrow> pzmq_data \<Rightarrow> 'w \<Rightarrow> string res \<times> 'w) \<Rightarrow> (pzmq_data \<Rightarrow> 'w \<Rightarrow> unit res \<times> 'w) \<Rightarrow>
     zdelivery \<Rightarrow> 'w \<Rightarrow> 'f pzmq \<Rightarrow> unit res \<times> 'w \<times> 'f pzmq" where
  "zmq_loop_body run raw_call z w s =
     (if mode s = Some ZMQ_PULL \<and> poll_ret z = -1 then (Inr (), w, zcalls [ZClose] s)
      else if mode s = Some ZMQ_PULL \<and> \<not> pollin z then (Inr (), w, s)
      else let s1 = zcalls [ZRecv] s in
        if recv_ret z \<le> 0 then (Inr (), w, s1)
        else if mode s = Some ZMQ_RPC_FUN
        then let s2 = zcalls [ZRecv] s1 in
             (case rpc_dispatch run s2 (pzmq_data_string \<lparr>msg = part1 z\<rparr>) \<lparr>msg = part2 z\<rparr> w of
                (Inl e, w') \<Rightarrow> (Inl e, w', s2)
              | (Inr retval, w') \<Rightarrow> (Inr (), w', zcalls [ZSend retval False] s2))
        else (case raw_call \<lparr>msg = part1 z\<rparr> w of (r, w') \<Rightarrow> (r, w', s1)))"

fun zmq_event_loop ::
    "('f \<Rightarrow> pzmq_data \<Rightarrow> 'w \<Rightarrow> string res \<times> 'w) \<Rightarrow> (pzmq_data \<Rightarrow> 'w \<Rightarrow> unit res \<times> 'w) \<Rightarrow>
     zdelivery list \<Rightarrow> 'w \<Rightarrow> 'f pzmq \<Rightarrow> unit res \<times> 'w \<times> 'f pzmq" where
  "zmq_event_loop run raw_call [] w s = (Inr (), w, s)"
| "zmq_event_loop run raw_call (z # zs) w s =
     (if flage s then (Inr (), w, s)
      else case zmq_loop_body run raw_call z w s of
             (Inl e, w', s') \<Rightarrow> (Inl e, w', s')
           | (Inr _, w', s') \<Rightarrow> zmq_event_loop run raw_call zs w' s')"

section \<open>The table of actions as an interface\<close>

text \<open>
  What the users of an RPC server rely on: registering succeeds on a ready server and makes
  exactly that handler the one found under the name.
\<close>

locale action_table =
  fixes reg :: "'a \<Rightarrow> 'f \<Rightarrow> 's \<Rightarrow> 's res"
    and lookup :: "'s \<Rightarrow> 'a \<Rightarrow> 'f option"
    and ready :: "'s \<Rightarrow> bool"
  assumes reg_ready: "ready s \<Longrightarrow> \<exists>s'. reg a f s = Inr s' \<and> ready s'"
    and reg_lookup: "ready s \<Longrightarrow> reg a f s = Inr s' \<Longrightarrow> lookup s' = (lookup s)(a \<mapsto> f)"

text \<open>A sequence of registrations, as the servers make at start.\<close>

fun reg_all :: "('a \<Rightarrow> 'f \<Rightarrow> 's \<Rightarrow> 's res) \<Rightarrow> ('a \<times> 'f) list \<Rightarrow> 's \<Rightarrow> 's res" where
  "reg_all reg [] s = Inr s"
| "reg_all reg ((a, f) # xs) s = bind_res (reg a f s) (reg_all reg xs)"

context action_table
begin

lemma reg_all_lookup:
  assumes "ready s"
  shows "\<exists>s'. reg_all reg xs s = Inr s' \<and> ready s' \<and> lookup s' = lookup s ++ map_of (rev xs)"
  using assms
proof (induction xs arbitrary: s)
  case (Cons x xs)
  obtain a f where x: "x = (a, f)" by (cases x)
  obtain s1 where s1: "reg a f s = Inr s1" "ready s1"
    using reg_ready [OF Cons.prems] by blast
  from Cons.IH [OF s1(2)] reg_lookup [OF Cons.prems s1(1)] s1(1) x show ?case
    by (auto simp: map_add_def fun_eq_iff split: option.split)
qed simp

lemma reg_all_found:
  assumes "ready s" and "distinct (map fst xs)" and "(a, f) \<in> set xs"
  shows "\<exists>s'. reg_all reg xs s = Inr s' \<and> ready s' \<and> lookup s' a = Some f"
proof -
  have "map_of (rev xs) a = Some f"
    using assms(2,3) by (simp add: map_of_eq_Some_iff rev_map [symmetric])
  with reg_all_lookup [OF assms(1), of xs] show ?thesis by auto
qed

end

definition handler :: "'f pzmq \<Rightarrow> string \<Rightarrow> 'f option" where
  "handler s act = (case map_of (zmq_fun s) act of Some (Action f) \<Rightarrow> Some f | _ \<Rightarrow> None)"

definition can_serve :: "zenv \<Rightarrow> 'f pzmq \<Rightarrow> bool" where
  "can_serve env s \<longleftrightarrow> (\<exists>k. ctx_new env k) \<and> (\<exists>k. socket_new env k) \<and> (zmq_fun s = [] \<longrightarrow> \<not> zmq_thread s)"

definition register :: "zenv \<Rightarrow> string \<Rightarrow> 'f \<Rightarrow> 'f pzmq \<Rightarrow> 'f pzmq res" where
  "register env act f s = bind_res (register_rpc_action env act f s) (\<lambda>(_, s'). Inr s')"

lemma zcalls_simps [simp]:
  "zmq_fun (zcalls cs s) = zmq_fun s" "zmq_thread (zcalls cs s) = zmq_thread s"
  "mode (zcalls cs s) = mode s" "rpc_url_head (zcalls cs s) = rpc_url_head s"
  "zmq_url (zcalls cs s) = zmq_url s" "zmq_socket (zcalls cs s) = zmq_socket s"
  "rpc_server (zcalls cs s) = rpc_server s" "timeout (zcalls cs s) = timeout s"
  "flage (zcalls cs s) = flage s" "zmq_log (zcalls cs s) = zmq_log s @ cs"
  by (simp_all add: zcalls_def)

lemma creat_rep_server:
  assumes "\<exists>k. ctx_new env k" "\<exists>k. socket_new env k" "mode s = Some ZMQ_RPC_FUN" "\<not> zmq_thread s"
  shows "creat env url s = Inr (bind_ret env (c_str url),
    s\<lparr>zmq_url := url, zmq_socket := True, flage := False, zmq_thread := True,
      zmq_log := zmq_log s @ [ZSocket 4, ZBind (c_str url), ZSpawn]\<rparr>)"
proof -
  obtain j where j: "retry (ctx_new env) 0 = Some j" using retry_obtain [OF assms(1)] .
  obtain k where "retry (socket_new env) 0 = Some k" using retry_obtain [OF assms(2)] .
  with j assms(3,4) show ?thesis
    by (simp add: creat_def creat_rep_def spawn_loop_def zmq_mode_defs zcalls_def)
qed

lemma register_serves:
  assumes "can_serve env s"
  shows "\<exists>s'. register env act f s = Inr s' \<and> can_serve env s' \<and> handler s' = (handler s)(act \<mapsto> f)"
proof (cases "zmq_fun s = [] \<and> map_of (zmq_fun s) act = None")
  case True
  let ?s = "s\<lparr>mode := Some ZMQ_RPC_FUN, zmq_fun := [(''list_action'', List_Action)]\<rparr>"
  have "can_serve env s" "mode ?s = Some ZMQ_RPC_FUN" "\<not> zmq_thread ?s"
    using assms True by (simp_all add: can_serve_def)
  with creat_rep_server [of env ?s "rpc_url_head s @ rpc_server s"] True show ?thesis
    by (simp add: can_serve_def register_def register_rpc_action_def handler_def fun_eq_iff Let_def)
next
  case False
  then have "register env act f s = Inr (s\<lparr>zmq_fun := umap_set act (Action f) (zmq_fun s)\<rparr>)"
    by (auto simp: register_def register_rpc_action_def Let_def)
  moreover from False have "umap_set act (Action f) (zmq_fun s) \<noteq> []"
    by (metis length_0_conv length_umap_set nat.distinct(1) map_of.simps(1))
  ultimately show ?thesis
    using assms by (auto simp: can_serve_def handler_def fun_eq_iff split: option.splits action.splits)
qed

interpretation pz: action_table "register env" handler "can_serve env" for env
proof
  fix s :: "'f pzmq" and act f assume s: "can_serve env s"
  from register_serves [OF this, of act f]
  show "\<exists>s'. register env act f s = Inr s' \<and> can_serve env s'" by blast
  fix s' assume "register env act f s = Inr s'"
  with register_serves [OF s, of act f] show "handler s' = (handler s)(act \<mapsto> f)" by auto
qed

section \<open>Dispatch\<close>

lemma rpc_dispatch_found:
  "handler s act = Some f \<Longrightarrow> rpc_dispatch run s act d w =
     (case run f d w of
        (Inl e, w') \<Rightarrow> (if catchable e then Inr ''NotAction'' else Inl e, w')
      | (Inr v, w') \<Rightarrow> (Inr v, w'))"
  by (auto simp: handler_def rpc_dispatch_def umap_at_def split: option.splits action.splits sum.splits prod.splits)

lemma rpc_dispatch_missing:
  "map_of (zmq_fun s) act = None \<Longrightarrow> rpc_dispatch run s act d w = (Inr ''NotAction'', w)"
  by (simp add: rpc_dispatch_def umap_at_def)

lemma zmq_fun_log [simp]: "rpc_dispatch run (zcalls cs s) = rpc_dispatch run s"
  by (auto simp: fun_eq_iff rpc_dispatch_def rpc_list_action_def split: sum.split action.split)

text \<open>Dispatching a sequence of requests one after the other.\<close>

fun serve ::
    "('f \<Rightarrow> pzmq_data \<Rightarrow> 'w \<Rightarrow> string res \<times> 'w) \<Rightarrow> 'f pzmq \<Rightarrow> (string \<times> string) list \<Rightarrow> 'w \<Rightarrow>
     string list res \<times> 'w" where
  "serve run s [] w = (Inr [], w)"
| "serve run s ((a, d) # rs) w =
     (case rpc_dispatch run s a \<lparr>msg = d\<rparr> w of
        (Inl e, w') \<Rightarrow> (Inl e, w')
      | (Inr v, w') \<Rightarrow> (case serve run s rs w' of (Inl e, w'') \<Rightarrow> (Inl e, w'')
                        | (Inr vs, w'') \<Rightarrow> (Inr (v # vs), w'')))"

lemma serve_log [simp]: "serve run (zcalls cs s) = serve run s"
proof -
  have "serve run (zcalls cs s) rs w = serve run s rs w" for rs w
    by (induction rs arbitrary: w) (auto split: sum.splits prod.splits)
  then show ?thesis by (simp add: fun_eq_iff)
qed

definition request_of :: "zdelivery \<Rightarrow> string \<times> string" where
  "request_of z = (part1 z, part2 z)"

lemma zmq_event_loop_serves:
  assumes "mode s = Some ZMQ_RPC_FUN" and "\<not> flage s" and "\<forall>z \<in> set zs. recv_ret z > 0"
    and "serve run s (map request_of zs) w = (Inr vs, w')"
  shows "zmq_event_loop run raw_call zs w s =
    (Inr (), w', zcalls (concat (map (\<lambda>v. [ZRecv, ZRecv, ZSend v False]) vs)) s)"
  using assms
proof (induction zs arbitrary: w vs s)
  case Nil
  then show ?case by (simp add: zcalls_def)
next
  case (Cons z zs)
  from Cons.prems(4) obtain v w1 vs1 where
    d: "rpc_dispatch run s (part1 z) \<lparr>msg = part2 z\<rparr> w = (Inr v, w1)"
    and rest: "serve run s (map request_of zs) w1 = (Inr vs1, w')" and vs: "vs = v # vs1"
    by (auto simp: request_of_def [of z] split: sum.splits prod.splits)
  let ?s = "zcalls [ZRecv, ZRecv, ZSend v False] s"
  have "zmq_loop_body run raw_call z w s = (Inr (), w1, ?s)"
    using Cons.prems(1,3) d
    by (simp add: zmq_loop_body_def zmq_mode_defs pzmq_data_string_def zcalls_def [of _ "zcalls _ _"])
  moreover have "zmq_event_loop run raw_call zs w1 ?s =
      (Inr (), w', zcalls (concat (map (\<lambda>v. [ZRecv, ZRecv, ZSend v False]) vs1)) ?s)"
    using Cons.prems rest by (intro Cons.IH) simp_all
  ultimately show ?case
    using Cons.prems(2) vs by (simp add: zcalls_def)
qed

lemma serve_length: "serve run s rs w = (Inr vs, w') \<Longrightarrow> length vs = length rs"
  by (induction rs arbitrary: w vs) (auto split: sum.splits prod.splits)

section \<open>Calls\<close>

text \<open>An environment in which contexts and sockets can be created.\<close>

definition zmq_up :: "zenv \<Rightarrow> bool" where
  "zmq_up env \<longleftrightarrow> (\<exists>k. ctx_new env k) \<and> (\<exists>k. socket_new env k)"

lemma creat_client:
  assumes "zmq_up env" and "rpc_url_head s = default_head" and "mode s = Some ZMQ_RPC_CALL"
  shows "creat env (default_head @ name) s =
    (let s1 = s\<lparr>zmq_url := default_head @ name, zmq_socket := True, zmq_log := zmq_log s @ [ZSocket 3]\<rparr>
     in if file_exists env (c_str (''/tmp/rpc.'' @ name))
        then Inr (connect_ret env (c_str (default_head @ name)),
                  zcalls [ZSetOpt ''ZMQ_SNDTIMEO'' (timeout s), ZSetOpt ''ZMQ_RCVTIMEO'' (timeout s),
                          ZConnect (c_str (default_head @ name))] s1)
        else Inr (-1, s1))"
proof -
  have up: "\<exists>k. ctx_new env k" "\<exists>k. socket_new env k" using assms(1) by (simp_all add: zmq_up_def)
  obtain j where j: "retry (ctx_new env) 0 = Some j" using retry_obtain [OF up(1)] .
  obtain k where "retry (socket_new env) 0 = Some k" using retry_obtain [OF up(2)] .
  with j assms(2,3) show ?thesis
    by (simp add: creat_def creat_req_def zmq_mode_defs rpc_url_head_length_def substr_from_def
        default_head_def zcalls_def Let_def)
qed

definition after_call :: "string \<Rightarrow> zcall list \<Rightarrow> 'f pzmq" where
  "after_call name cs = (pzmq_server name)
     \<lparr>mode := Some ZMQ_RPC_CALL, zmq_url := default_head @ name, zmq_log := cs\<rparr>"

definition connect_calls :: "string \<Rightarrow> zcall list" where
  "connect_calls name = [ZSocket 3, ZSetOpt ''ZMQ_SNDTIMEO'' 3000, ZSetOpt ''ZMQ_RCVTIMEO'' 3000,
     ZConnect (c_str (default_head @ name))]"

lemma call_rpc_action_cases:
  assumes "zmq_up env" and "name \<noteq> []" and "str_find name ''://'' 0 = None"
    and "raw_call \<lparr>msg = case_option [] id (reply env act data)\<rparr> w = (Inr (), w')"
  shows "call_rpc_action env act data raw_call w (pzmq_server name :: 'f pzmq) =
    (if \<not> file_exists env (c_str (''/tmp/rpc.'' @ name))
     then (Inr (-1), w, after_call name [ZSocket 3, ZClose, ZCtxDestroy])
     else let r = connect_ret env (c_str (default_head @ name)) in
       if r \<noteq> 0 then (Inr r, w, after_call name (connect_calls name @ [ZClose, ZCtxDestroy]))
       else (Inr 0, w', after_call name (connect_calls name @
               [ZSend act True, ZSend data False, ZRecv, ZClose, ZCtxDestroy])))"
proof -
  have raw: "raw_call \<lparr>msg = case reply env act data of None \<Rightarrow> [] | Some m \<Rightarrow> m\<rparr> w = (Inr (), w')"
    using assms(4) by (cases "reply env act data") simp_all
  have "rpc_url_head ((pzmq_server name :: 'f pzmq)\<lparr>mode := Some ZMQ_RPC_CALL\<rparr>) = default_head"
    using assms(3) by (simp add: pzmq_server_def pzmq_init_def)
  from creat_client [OF assms(1) this, of name] assms(2,3) raw show ?thesis
    by (cases "file_exists env (c_str (''/tmp/rpc.'' @ name))"; cases "connect_ret env (c_str (default_head @ name)) = 0")
      (simp_all add: call_rpc_action_def pzmq_server_def pzmq_init_def Let_def close_zmq_def is_bind_def
        zmq_mode_defs after_call_def connect_calls_def zcalls_def)
qed

text \<open>Handlers whose only failures are exceptions never stop the loop.\<close>

definition handlers_safe :: "('f \<Rightarrow> pzmq_data \<Rightarrow> 'w \<Rightarrow> string res \<times> 'w) \<Rightarrow> bool" where
  "handlers_safe run \<longleftrightarrow> (\<forall>f d w e. fst (run f d w) = Inl e \<longrightarrow> catchable e)"

lemma list_actions_nonempty: "as \<noteq> [] \<Longrightarrow> \<exists>r. list_actions as = Inr r"
  by (induction as rule: list_actions.induct) auto

lemma rpc_list_action_serving:
  "map_of (zmq_fun s) act = Some h \<Longrightarrow> \<exists>r. rpc_list_action s = Inr r"
  using list_actions_nonempty [of "map fst (zmq_fun s)"] by (cases "zmq_fun s") (auto simp: rpc_list_action_def)

lemma rpc_dispatch_safe:
  assumes "handlers_safe run"
  shows "\<exists>v w'. rpc_dispatch run s act d w = (Inr v, w')"
proof (cases "map_of (zmq_fun s) act")
  case None
  then show ?thesis by (simp add: rpc_dispatch_missing)
next
  case (Some h)
  show ?thesis
  proof (cases h)
    case List_Action
    with Some rpc_list_action_serving [OF Some] show ?thesis
      by (auto simp: rpc_dispatch_def umap_at_def)
  next
    case (Action f)
    with Some have "handler s act = Some f" by (simp add: handler_def)
    with assms show ?thesis
      by (cases "run f d w"; cases "fst (run f d w)")
        (auto simp: rpc_dispatch_found handlers_safe_def, metis fst_conv)
  qed
qed

lemma serve_safe:
  assumes "handlers_safe run"
  shows "\<exists>vs w'. serve run s rs w = (Inr vs, w')"
proof (induction rs arbitrary: w)
  case (Cons r rs)
  obtain v w1 where "rpc_dispatch run s (fst r) \<lparr>msg = snd r\<rparr> w = (Inr v, w1)"
    using rpc_dispatch_safe [OF assms] by blast
  moreover obtain vs w2 where "serve run s rs w1 = (Inr vs, w2)" using Cons by blast
  ultimately show ?case by (cases r) simp
qed simp

section \<open>Properties\<close>

text \<open>
  C14. The server answers every request exactly once and in order: with handlers that fail only by
  throwing, the receiving thread never ends on its own, and after any number of requests it has
  made, per request, two receives and one send; the replies are those of dispatching the requests
  one after the other.
\<close>

theorem rpc_every_request_answered:
  assumes "mode s = Some ZMQ_RPC_FUN" and "\<not> flage s" and "\<forall>z \<in> set zs. recv_ret z > 0"
    and "handlers_safe run"
  shows "\<exists>vs w'. serve run s (map request_of zs) w = (Inr vs, w') \<and> length vs = length zs \<and>
    zmq_event_loop run raw_call zs w s =
      (Inr (), w', zcalls (concat (map (\<lambda>v. [ZRecv, ZRecv, ZSend v False]) vs)) s)"
proof -
  obtain vs w' where "serve run s (map request_of zs) w = (Inr vs, w')"
    using serve_safe [OF assms(4)] by blast
  with zmq_event_loop_serves [OF assms(1-3) this] serve_length [OF this] show ?thesis by auto
qed

definition demo_server :: "string pzmq" where
  "demo_server = (pzmq_server ''sys'')\<lparr>mode := Some ZMQ_RPC_FUN, flage := False,
     zmq_fun := [(''list_action'', List_Action), (''ping'', Action ''pong'')]\<rparr>"

definition demo_request :: "string \<Rightarrow> zdelivery" where
  "demo_request a = \<lparr>poll_ret = 1, pollin = True, recv_ret = 4, part1 = a, part2 = ''x''\<rparr>"

theorem rpc_every_request_answered_witness:
  "zmq_event_loop (\<lambda>f d w. (Inr f, w)) (\<lambda>d w. (Inr (), w)) [demo_request ''ping'', demo_request ''none''] () demo_server =
   (Inr (), (), zcalls [ZRecv, ZRecv, ZSend ''pong'' False, ZRecv, ZRecv, ZSend ''NotAction'' False] demo_server)"
  using rpc_every_request_answered [of demo_server "[demo_request ''ping'', demo_request ''none'']"
      "\<lambda>f d w. (Inr f, w)" "()" "\<lambda>d w. (Inr (), w)"]
  by (auto simp: demo_server_def demo_request_def pzmq_server_def pzmq_init_def handlers_safe_def request_of_def
      rpc_dispatch_def umap_at_def)


definition demo_env :: zenv where
  "demo_env = \<lparr>ctx_new = (\<lambda>k. k = 1), socket_new = (\<lambda>_. True), bind_ret = (\<lambda>_. 0), connect_ret = (\<lambda>_. 0),
     file_exists = (\<lambda>_. True), reply = (\<lambda>_ _. None)\<rparr>"


lemma pzmq_socket_bound:
  assumes "zmq_up env" and "md = ZMQ_PUB \<or> md = ZMQ_PULL" and "url = ''ipc://'' @ path"
  shows "\<exists>s :: 'f pzmq. pzmq_socket env url md = Inr s \<and> zmq_socket s \<and> mode s = Some md \<and> zmq_url s = url \<and>
    rpc_url_head s = default_head \<and> zmq_thread s = (md = ZMQ_PULL) \<and>
    zmq_log s = [ZSocket md, ZBind (c_str url)] @ (if md = ZMQ_PULL then [ZSpawn] else [])"
proof -
  have up: "\<exists>k. ctx_new env k" "\<exists>k. socket_new env k" using assms(1) by (simp_all add: zmq_up_def)
  obtain j where j: "retry (ctx_new env) 0 = Some j" using retry_obtain [OF up(1)] .
  obtain k where "retry (socket_new env) 0 = Some k" using retry_obtain [OF up(2)] .
  with j assms(2,3) show ?thesis
    by (auto simp: pzmq_socket_def str_at_def creat_def Let_def zmq_mode_defs creat_pub_def creat_pull_def
        spawn_loop_def pzmq_init_def zcalls_def)
qed

text \<open>
  The publisher and pull sockets clean up after themselves: destroying an object made for an
  \<^verbatim>\<open>ipc://\<close> address shuts the context down, joins the receiving thread if there is one, closes the
  socket and removes the socket file if it exists.
\<close>

theorem pzmq_bound_cleanup:
  assumes "zmq_up env" and "md = ZMQ_PUB \<or> md = ZMQ_PULL" and "url = ''ipc://'' @ path"
  shows "\<exists>(s :: 'f pzmq) s'. pzmq_socket env url md = Inr s \<and> pzmq_dtor env s = Inr s' \<and> \<not> zmq_socket s' \<and>
    \<not> zmq_thread s' \<and>
    zmq_log s' = zmq_log s @ [ZCtxShutdown] @ (if md = ZMQ_PULL then [ZJoin] else []) @
      [ZClose, ZCtxDestroy] @ (if file_exists env (c_str path) then [ZRemove (c_str path)] else [])"
proof -
  obtain s :: "'f pzmq" where s: "pzmq_socket env url md = Inr s" "zmq_socket s" "mode s = Some md" "zmq_url s = url"
    "rpc_url_head s = default_head" "zmq_thread s = (md = ZMQ_PULL)"
    using pzmq_socket_bound [OF assms] by blast
  have "default_head \<noteq> []" by (simp add: default_head_def)
  with s assms(2,3) show ?thesis
    by (auto simp: pzmq_dtor_def close_zmq_def is_bind_def zmq_mode_defs substr_from_def
        rpc_url_head_length_def Let_def)
qed

theorem pzmq_bound_cleanup_witness:
  "\<exists>(s :: unit pzmq) s'. pzmq_socket demo_env ''ipc:///tmp/llm/5010.sock'' ZMQ_PUB = Inr s \<and> pzmq_dtor demo_env s = Inr s' \<and>
     ZRemove ''/tmp/llm/5010.sock'' \<in> set (zmq_log s')"
  using pzmq_bound_cleanup [where 'f = unit, of demo_env ZMQ_PUB "''ipc:///tmp/llm/5010.sock''" "''/tmp/llm/5010.sock''"]
  by (auto simp: demo_env_def zmq_up_def)

end
