(* ===== verification/FlowUtil.thy ===== *)
theory FlowUtil
  imports Dt_Prelude
begin

text \<open>
  Helpers of the stack-flow nodes (\<^verbatim>\<open>infra-controller/src/StackFlowUtil.cpp\<close>): the hand-written JSON
  field scanner \<^verbatim>\<open>sample_json_str_get\<close>, work identifiers \<^verbatim>\<open>unit.number\<close>, UTF-8 encoding, and the
  reassembly of streamed chunks \<^verbatim>\<open>decode_stream\<close>. The scanner is a state machine over the
  characters after the first occurrence of the quoted key; its states are the numbers the source
  uses. The lemmas show which values it extracts and what it does on values it was not made for.
\<close>

abbreviation quote_c :: char where
  "quote_c \<equiv> CHR 0x22"

abbreviation backslash_c :: char where
  "backslash_c \<equiv> CHR 0x5C"

section \<open>The JSON field scanner\<close>

record jscan =
  status :: int
  last_c :: char
  obj_flage :: int
  key_val :: string

definition jscan_init :: jscan where
  "jscan_init = \<lparr>status = 0, last_c = CHR 0x00, obj_flage = 0, key_val = []\<rparr>"

definition push_back :: "char \<Rightarrow> jscan \<Rightarrow> jscan" where
  "push_back c s = s\<lparr>key_val := key_val s @ [c]\<rparr>"

definition jscan_char :: "jscan \<Rightarrow> char \<Rightarrow> jscan" where
  "jscan_char s c =
     (if status s = 0 then
        (if c = quote_c then s\<lparr>status := 100\<rparr>
         else if c = CHR ''{'' then (push_back c s)\<lparr>obj_flage := 1, status := 10\<rparr>
         else if c = CHR '':'' then s\<lparr>obj_flage := 1\<rparr>
         else if c = CHR '','' \<or> c = CHR ''}'' then s\<lparr>obj_flage := 0, status := -1\<rparr>
         else if c = CHR '' '' then s
         else if obj_flage s \<noteq> 0 then push_back c s else s)
      else if status s = 10 then
        (let s1 = push_back c s;
             s2 = (if c = CHR ''{'' then s1\<lparr>obj_flage := obj_flage s1 + 1\<rparr> else s1);
             s3 = (if c = CHR ''}'' then s2\<lparr>obj_flage := obj_flage s2 - 1\<rparr> else s2)
         in if obj_flage s3 = 0 \<and> key_val s3 \<noteq> [] then s3\<lparr>status := -1\<rparr> else s3)
      else if status s = 100 then
        (if c = quote_c \<and> last_c s \<noteq> backslash_c then s\<lparr>obj_flage := 0, status := -1\<rparr>
         else push_back c s)
      else s)"

definition jscan_step :: "jscan \<Rightarrow> char \<Rightarrow> jscan" where
  "jscan_step s c = (jscan_char s c)\<lparr>last_c := c\<rparr>"

definition jscan_result :: "string \<Rightarrow> string" where
  "jscan_result cs =
     (let s = foldl jscan_step jscan_init cs in if obj_flage s \<noteq> 0 then [] else key_val s)"

definition find_key :: "string \<Rightarrow> string" where
  "find_key json_key = [quote_c] @ json_key @ [quote_c]"

definition sample_json_str_get :: "string \<Rightarrow> string \<Rightarrow> string res" where
  "sample_json_str_get json_str json_key =
     (let subs_start = int_of_pos (str_find json_str (find_key json_key) 0)
      in if subs_start = -1 then Inr []
         else bind_res (substr_from json_str
                          (sz_add (size_of_int subs_start) (length (find_key json_key))))
                (\<lambda>rest. Inr (jscan_result rest)))"

section \<open>Work identifiers\<close>

definition WORK_ID_NONE :: int where
  "WORK_ID_NONE = -100"

definition sample_get_work_id_num :: "string \<Rightarrow> int res" where
  "sample_get_work_id_num work_id =
     (let a = int_of_pos (str_find work_id ''.'' 0)
      in if a = -1 \<or> size_of_int a = sz_sub (length work_id) 1 then Inr WORK_ID_NONE
         else bind_res (substr_from work_id (size_of_int (a + 1))) stoi)"

definition sample_get_work_id_name :: "string \<Rightarrow> string" where
  "sample_get_work_id_name work_id =
     (let a = int_of_pos (str_find work_id ''.'' 0)
      in if a = -1 then work_id else take (size_of_int a) work_id)"

definition sample_get_work_id :: "int \<Rightarrow> string \<Rightarrow> string" where
  "sample_get_work_id work_id_num unit_name = unit_name @ ''.'' @ to_string work_id_num"

section \<open>UTF-8\<close>

unbundle bit_operations_syntax

text \<open>The bytes written to \<^verbatim>\<open>output\<close>; their number is \<^verbatim>\<open>*length\<close>.\<close>

definition utf8_byte :: "32 word \<Rightarrow> char" where
  "utf8_byte w = char_of (unat w)"

definition unicode_to_utf8 :: "32 word \<Rightarrow> char list" where
  "unicode_to_utf8 codepoint =
     (if codepoint \<le> 0x7F then [utf8_byte (codepoint AND 0x7F)]
      else if codepoint \<le> 0x7FF then
        [utf8_byte (0xC0 OR (drop_bit 6 codepoint AND 0x1F)),
         utf8_byte (0x80 OR (codepoint AND 0x3F))]
      else if codepoint \<le> 0xFFFF then
        [utf8_byte (0xE0 OR (drop_bit 12 codepoint AND 0x0F)),
         utf8_byte (0x80 OR (drop_bit 6 codepoint AND 0x3F)),
         utf8_byte (0x80 OR (codepoint AND 0x3F))]
      else if codepoint \<le> 0x10FFFF then
        [utf8_byte (0xF0 OR (drop_bit 18 codepoint AND 0x07)),
         utf8_byte (0x80 OR (drop_bit 12 codepoint AND 0x3F)),
         utf8_byte (0x80 OR (drop_bit 6 codepoint AND 0x3F)),
         utf8_byte (0x80 OR (codepoint AND 0x3F))]
      else [])"

section \<open>Streams\<close>

text \<open>
  The loop \<^verbatim>\<open>out += stream_buff.at(i)\<close>: on a missing index it throws, with the pieces before it
  already appended.
\<close>

fun stream_out :: "nat list \<Rightarrow> (int, string) umap \<Rightarrow> string \<Rightarrow> unit res \<times> string" where
  "stream_out [] m out = (Inr (), out)"
| "stream_out (i # is) m out =
     (case umap_at m (int i) of Inl e \<Rightarrow> (Inl e, out) | Inr s \<Rightarrow> stream_out is m (out @ s))"

text \<open>
  \<^verbatim>\<open>decode_stream(in, out, stream_buff)\<close>: the result (or exception), \<^verbatim>\<open>out\<close> and \<^verbatim>\<open>stream_buff\<close> after
  the call.
\<close>

definition decode_stream ::
    "string \<Rightarrow> string \<Rightarrow> (int, string) umap \<Rightarrow> bool res \<times> string \<times> (int, string) umap" where
  "decode_stream inp out stream_buff =
     (case bind_res (sample_json_str_get inp ''index'') stoi of
        Inl e \<Rightarrow> (Inl e, out, stream_buff)
      | Inr index \<Rightarrow>
        (case sample_json_str_get inp ''finish'' of
           Inl e \<Rightarrow> (Inl e, out, stream_buff)
         | Inr finish \<Rightarrow>
           (case sample_json_str_get inp ''delta'' of
              Inl e \<Rightarrow> (Inl e, out, stream_buff)
            | Inr delta \<Rightarrow>
              let buff = umap_set index delta stream_buff in
              if str_find finish ''f'' 0 = None
              then (case stream_out [0..<length buff] buff out of
                      (Inl e, out') \<Rightarrow> (Inl e, out', buff)
                    | (Inr _, out') \<Rightarrow> (Inr False, out', []))
              else (Inr True, out, buff))))"

section \<open>What the scanner extracts\<close>

lemma jscan_finished:
  "status s = -1 \<Longrightarrow> obj_flage (foldl jscan_step s cs) = obj_flage s \<and>
     key_val (foldl jscan_step s cs) = key_val s"
proof (induction cs arbitrary: s)
  case (Cons c cs)
  from Cons.prems have "jscan_step s c = s\<lparr>last_c := c\<rparr>"
    by (simp add: jscan_step_def jscan_char_def)
  with Cons.IH [of "s\<lparr>last_c := c\<rparr>"] Cons.prems show ?case by simp
qed simp

lemma jscan_spaces:
  "status s = 0 \<Longrightarrow> set sp \<subseteq> {CHR '' ''} \<Longrightarrow>
   foldl jscan_step s sp = s\<lparr>last_c := (if sp = [] then last_c s else CHR '' '')\<rparr>"
proof (induction sp arbitrary: s)
  case (Cons c sp)
  then have "jscan_step s c = s\<lparr>last_c := CHR '' ''\<rparr>"
    by (simp add: jscan_step_def jscan_char_def)
  with Cons show ?case by simp
qed simp

text \<open>After the key: optional spaces, a colon, optional spaces.\<close>

lemma jscan_colon:
  assumes "set sp1 \<subseteq> {CHR '' ''}" "set sp2 \<subseteq> {CHR '' ''}"
  shows "\<exists>lc. foldl jscan_step jscan_init (sp1 @ '':'' @ sp2) =
    \<lparr>status = 0, last_c = lc, obj_flage = 1, key_val = []\<rparr>"
  using assms
  by (simp add: jscan_spaces jscan_init_def) (simp add: jscan_step_def jscan_char_def jscan_spaces)

text \<open>A JSON string body in which every quote is escaped, scanned after the character \<open>p\<close>.\<close>

fun escaped_ok :: "char \<Rightarrow> string \<Rightarrow> bool" where
  "escaped_ok p [] = True"
| "escaped_ok p (c # cs) \<longleftrightarrow> (c = quote_c \<longrightarrow> p = backslash_c) \<and> escaped_ok c cs"

lemma escaped_ok_plain: "quote_c \<notin> set v \<Longrightarrow> escaped_ok p v"
  by (induction v arbitrary: p) auto

lemma jscan_string:
  "status s = 100 \<Longrightarrow> escaped_ok (last_c s) v \<Longrightarrow>
   foldl jscan_step s v = s\<lparr>key_val := key_val s @ v, last_c := last (last_c s # v)\<rparr>"
proof (induction v arbitrary: s)
  case (Cons c v)
  let ?s = "s\<lparr>key_val := key_val s @ [c], last_c := c\<rparr>"
  have "jscan_step s c = ?s"
    using Cons.prems by (auto simp: jscan_step_def jscan_char_def push_back_def)
  moreover have "foldl jscan_step ?s v =
      ?s\<lparr>key_val := key_val ?s @ v, last_c := last (last_c ?s # v)\<rparr>"
    using Cons.prems by (intro Cons.IH) simp_all
  ultimately show ?case by simp
qed simp

lemma jscan_open_quote:
  "status s = 0 \<Longrightarrow> jscan_step s quote_c = s\<lparr>status := 100, last_c := quote_c\<rparr>"
  by (simp add: jscan_step_def jscan_char_def)

lemma jscan_close_quote:
  "status s = 100 \<Longrightarrow> last_c s \<noteq> backslash_c \<Longrightarrow>
   jscan_step s quote_c = s\<lparr>status := -1, obj_flage := 0, last_c := quote_c\<rparr>"
  by (simp add: jscan_step_def jscan_char_def)

lemma jscan_result_finished:
  assumes "foldl jscan_step jscan_init cs = s" and "status s = -1" and "obj_flage s = 0"
  shows "jscan_result (cs @ post) = key_val s"
  using jscan_finished [OF assms(2), of post] assms(1,3) by (simp add: jscan_result_def)

lemma jscan_result_string:
  assumes "set sp1 \<subseteq> {CHR '' ''}" "set sp2 \<subseteq> {CHR '' ''}"
    and "escaped_ok quote_c v" and "v \<noteq> [] \<Longrightarrow> last v \<noteq> backslash_c"
  shows "jscan_result (sp1 @ '':'' @ sp2 @ [quote_c] @ v @ [quote_c] @ post) = v"
proof -
  obtain lc where pre: "foldl jscan_step jscan_init (sp1 @ '':'' @ sp2) =
      \<lparr>status = 0, last_c = lc, obj_flage = 1, key_val = []\<rparr>"
    using jscan_colon [OF assms(1,2)] by blast
  let ?q = "\<lparr>status = 100, last_c = quote_c, obj_flage = 1, key_val = []\<rparr>"
  let ?e = "?q\<lparr>key_val := v, last_c := last (quote_c # v)\<rparr>"
  have body: "foldl jscan_step ?q v = ?e"
    using jscan_string [of ?q v] assms(3) by simp
  have "last_c ?e \<noteq> backslash_c"
    using assms(4) by simp
  from jscan_close_quote [OF _ this] body pre
  have "foldl jscan_step jscan_init ((sp1 @ '':'' @ sp2) @ [quote_c] @ v @ [quote_c]) =
      \<lparr>status = -1, last_c = quote_c, obj_flage = 0, key_val = v\<rparr>"
    unfolding foldl_append foldl.simps pre by (simp only: jscan_open_quote jscan.simps body)
  from jscan_result_finished [OF this, of post] show ?thesis by simp
qed

text \<open>Numbers and the literals \<^verbatim>\<open>true\<close>, \<^verbatim>\<open>false\<close>, \<^verbatim>\<open>null\<close>: characters without a meaning to the scanner.\<close>

definition plain_char :: "char \<Rightarrow> bool" where
  "plain_char c \<longleftrightarrow> c \<notin> {quote_c, CHR ''{'', CHR '':'', CHR '','', CHR ''}'', CHR '' ''}"

lemma jscan_plain:
  "status s = 0 \<Longrightarrow> obj_flage s = 1 \<Longrightarrow> \<forall>c \<in> set w. plain_char c \<Longrightarrow>
   foldl jscan_step s w = s\<lparr>key_val := key_val s @ w, last_c := last (last_c s # w)\<rparr>"
proof (induction w arbitrary: s)
  case (Cons c w)
  let ?s = "s\<lparr>key_val := key_val s @ [c], last_c := c\<rparr>"
  have "jscan_step s c = ?s"
    using Cons.prems by (auto simp: jscan_step_def jscan_char_def push_back_def plain_char_def)
  moreover have "foldl jscan_step ?s w =
      ?s\<lparr>key_val := key_val ?s @ w, last_c := last (last_c ?s # w)\<rparr>"
    using Cons.prems by (intro Cons.IH) simp_all
  ultimately show ?case by simp
qed simp

lemma jscan_result_plain:
  assumes "set sp1 \<subseteq> {CHR '' ''}" "set sp2 \<subseteq> {CHR '' ''}"
    and "\<forall>c \<in> set w. plain_char c" and "t = CHR '','' \<or> t = CHR ''}''"
  shows "jscan_result (sp1 @ '':'' @ sp2 @ w @ [t] @ post) = w"
proof -
  obtain lc where pre: "foldl jscan_step jscan_init (sp1 @ '':'' @ sp2) =
      \<lparr>status = 0, last_c = lc, obj_flage = 1, key_val = []\<rparr>"
    using jscan_colon [OF assms(1,2)] by blast
  have "foldl jscan_step jscan_init (sp1 @ '':'' @ sp2 @ w @ [t]) =
      \<lparr>status = -1, last_c = t, obj_flage = 0, key_val = w\<rparr>"
    using pre assms(3,4) jscan_plain [of "\<lparr>status = 0, last_c = lc, obj_flage = 1, key_val = []\<rparr>" w]
    by (auto simp: jscan_step_def jscan_char_def)
  from jscan_result_finished [OF this, of post] show ?thesis by simp
qed

text \<open>
  Nested objects: \<open>obj_body d cs\<close> says that \<open>cs\<close>, read at brace depth \<open>d\<close>, closes the object exactly
  at its last character.
\<close>

fun obj_body :: "nat \<Rightarrow> string \<Rightarrow> bool" where
  "obj_body d [] = False"
| "obj_body d (c # cs) =
     (let d' = (if c = CHR ''{'' then d + 1 else if c = CHR ''}'' then d - 1 else d)
      in if d' = 0 then cs = [] else obj_body d' cs)"

lemma jscan_object:
  "status s = 10 \<Longrightarrow> obj_flage s = int d \<Longrightarrow> 0 < d \<Longrightarrow> obj_body d cs \<Longrightarrow>
   \<exists>lc. foldl jscan_step s cs = \<lparr>status = -1, last_c = lc, obj_flage = 0, key_val = key_val s @ cs\<rparr>"
proof (induction cs arbitrary: s d)
  case (Cons c cs)
  let ?d = "if c = CHR ''{'' then d + 1 else if c = CHR ''}'' then d - 1 else d"
  let ?s = "\<lparr>status = (if ?d = 0 then -1 else 10), last_c = c, obj_flage = int ?d,
              key_val = key_val s @ [c]\<rparr>"
  have step: "jscan_step s c = ?s"
    using Cons.prems(1-3)
    by (cases "c = CHR ''{''"; cases "c = CHR ''}''"; cases "d = 1")
      (simp_all add: jscan_step_def jscan_char_def push_back_def Let_def)
  show ?case
  proof (cases "?d = 0")
    case True
    with Cons.prems(4) have "cs = []" by (simp add: Let_def split: if_splits)
    with step True show ?thesis by simp
  next
    case False
    with Cons.prems(4) have "obj_body ?d cs" by (simp add: Let_def split: if_splits)
    with Cons.IH [of ?s ?d] False step show ?thesis by auto
  qed
qed simp

lemma jscan_result_object:
  assumes "set sp1 \<subseteq> {CHR '' ''}" "set sp2 \<subseteq> {CHR '' ''}" and "obj_body 1 cs"
  shows "jscan_result (sp1 @ '':'' @ sp2 @ ''{'' @ cs @ post) = CHR ''{'' # cs"
proof -
  obtain lc where pre: "foldl jscan_step jscan_init (sp1 @ '':'' @ sp2) =
      \<lparr>status = 0, last_c = lc, obj_flage = 1, key_val = []\<rparr>"
    using jscan_colon [OF assms(1,2)] by blast
  let ?s = "\<lparr>status = 10, last_c = CHR ''{'', obj_flage = 1, key_val = ''{''\<rparr>"
  have "foldl jscan_step jscan_init (sp1 @ '':'' @ sp2 @ ''{'') = ?s"
    using pre by (simp add: jscan_step_def jscan_char_def push_back_def)
  moreover obtain lc' where "foldl jscan_step ?s cs =
      \<lparr>status = -1, last_c = lc', obj_flage = 0, key_val = CHR ''{'' # cs\<rparr>"
    using jscan_object [of ?s 1 cs] assms(3) by auto
  ultimately have "foldl jscan_step jscan_init (sp1 @ '':'' @ sp2 @ ''{'' @ cs) =
      \<lparr>status = -1, last_c = lc', obj_flage = 0, key_val = CHR ''{'' # cs\<rparr>"
    by simp
  from jscan_result_finished [OF this, of post] show ?thesis by simp
qed

section \<open>Finding the key\<close>

lemma int_of_pos_small [simp]: "i \<le> 2147483647 \<Longrightarrow> int_of_pos (Some i) = int i"
  by (simp add: int_of_pos_def is_int32_def)

lemma int_of_pos_None [simp]: "int_of_pos None = -1"
  by (simp add: int_of_pos_def)

lemma sample_json_str_get_at:
  assumes first: "str_find (pre @ butlast (find_key k)) (find_key k) 0 = None"
    and small: "length (pre @ find_key k @ rest) \<le> 2147483647"
  shows "sample_json_str_get (pre @ find_key k @ rest) k = Inr (jscan_result rest)"
proof -
  have "find_key k \<noteq> []" by (simp add: find_key_def)
  from str_find_first [OF this first]
  have f: "str_find (pre @ find_key k @ rest) (find_key k) 0 = Some (length pre)" .
  moreover have "sz_add (length pre) (length (find_key k)) = length pre + length (find_key k)"
    using small by (intro sz_add_eq) simp
  ultimately show ?thesis
    using small by (simp add: sample_json_str_get_def substr_from_def)
qed

lemma sample_json_str_get_absent:
  "str_find s (find_key k) 0 = None \<Longrightarrow> sample_json_str_get s k = Inr []"
  by (simp add: sample_json_str_get_def)

lemma sample_json_str_get_total:
  assumes "length s \<le> 2147483647"
  shows "\<exists>v. sample_json_str_get s k = Inr v"
proof (cases "str_find s (find_key k) 0")
  case (Some i)
  have "i + length (find_key k) \<le> length s"
    using str_find_bounds [OF Some] by simp
  moreover from this have "sz_add i (length (find_key k)) = i + length (find_key k)"
    using assms by (intro sz_add_eq) simp
  ultimately show ?thesis
    using Some assms by (simp add: sample_json_str_get_def substr_from_def)
qed (simp add: sample_json_str_get_def)

section \<open>Field values in one statement\<close>

text \<open>
  The value texts the scanner is made for: a string literal, a number or literal followed by its
  terminator, an object. \<open>field_text\<close> is the text after the colon, \<open>field_val\<close> what is extracted.
\<close>

datatype field = FStr string | FLit string char | FObj string

fun field_text :: "field \<Rightarrow> string" where
  "field_text (FStr v) = [quote_c] @ v @ [quote_c]"
| "field_text (FLit w t) = w @ [t]"
| "field_text (FObj cs) = ''{'' @ cs"

fun field_val :: "field \<Rightarrow> string" where
  "field_val (FStr v) = v"
| "field_val (FLit w t) = w"
| "field_val (FObj cs) = ''{'' @ cs"

fun field_ok :: "field \<Rightarrow> bool" where
  "field_ok (FStr v) \<longleftrightarrow> escaped_ok quote_c v \<and> (v \<noteq> [] \<longrightarrow> last v \<noteq> backslash_c)"
| "field_ok (FLit w t) \<longleftrightarrow> list_all plain_char w \<and> (t = CHR '','' \<or> t = CHR ''}'')"
| "field_ok (FObj cs) \<longleftrightarrow> obj_body 1 cs"

lemma jscan_result_field:
  assumes "set sp1 \<subseteq> {CHR '' ''}" "set sp2 \<subseteq> {CHR '' ''}" "field_ok f"
  shows "jscan_result (sp1 @ '':'' @ sp2 @ field_text f @ post) = field_val f"
proof (cases f)
  case (FStr v)
  with jscan_result_string [OF assms(1,2), of v post] assms(3) show ?thesis by simp
next
  case (FLit w t)
  with jscan_result_plain [OF assms(1,2), of w t post] assms(3) show ?thesis
    by (simp add: list_all_iff)
next
  case (FObj cs)
  with jscan_result_object [OF assms(1,2), of cs post] assms(3) show ?thesis by simp
qed

lemma json_get_field:
  assumes "str_find (pre @ butlast (find_key k)) (find_key k) 0 = None"
    and "set sp1 \<subseteq> {CHR '' ''}" "set sp2 \<subseteq> {CHR '' ''}" "field_ok f"
    and "length (pre @ find_key k @ sp1 @ '':'' @ sp2 @ field_text f @ post) \<le> 2147483647"
  shows "sample_json_str_get (pre @ find_key k @ sp1 @ '':'' @ sp2 @ field_text f @ post) k =
    Inr (field_val f)"
  using sample_json_str_get_at [OF assms(1,5)] jscan_result_field [OF assms(2-4), of post] by simp

section \<open>Work identifiers\<close>

lemma work_id_num_of:
  assumes "CHR ''.'' \<notin> set name" and "is_int32 n"
    and "length name < 2147483647"
  shows "sample_get_work_id_num (sample_get_work_id n name) = Inr n"
proof -
  let ?w = "name @ ''.'' @ to_string n"
  have f: "str_find ?w ''.'' 0 = Some (length name)"
    using str_find_char_first [OF assms(1), of "to_string n"] by simp
  have a: "int_of_pos (Some (length name)) = int (length name)" "size_of_int (1 + int (length name)) = Suc (length name)"
    using assms(3) by (simp_all add: nat_add_distrib)
  have l: "0 < length (to_string n)" "length (to_string n) \<le> 11"
    using length_to_string [OF assms(2)] by simp_all
  have "sz_sub (length ?w) 1 = length ?w - 1"
    using l assms(3) by (intro sz_sub_eq) simp_all
  with l have "sz_sub (length ?w) 1 \<noteq> length name" by simp
  then show ?thesis
    using f a assms by (simp add: sample_get_work_id_def sample_get_work_id_num_def Let_def substr_from_def add.commute)
qed

lemma work_id_name_of:
  assumes "CHR ''.'' \<notin> set name" and "length name < 2147483647"
  shows "sample_get_work_id_name (sample_get_work_id n name) = name"
proof -
  have f: "str_find (name @ ''.'' @ to_string n) ''.'' 0 = Some (length name)"
    using str_find_char_first [OF assms(1), of "to_string n"] by simp
  have "int_of_pos (Some (length name)) = int (length name)"
    using assms(2) by simp
  with f assms(2) show ?thesis
    by (simp add: sample_get_work_id_def sample_get_work_id_name_def)
qed

section \<open>UTF-8\<close>

text \<open>The UTF-8 decoder that reads one character, as the standard describes it.\<close>

fun utf8_decode :: "nat list \<Rightarrow> (nat \<times> nat list) option" where
  "utf8_decode [] = None"
| "utf8_decode (b # bs) =
     (let cont = (\<lambda>k v. if length bs < k \<or> \<not> list_all (\<lambda>c. 128 \<le> c \<and> c < 192) (take k bs) then None
                   else Some (foldl (\<lambda>a c. a * 64 + (c - 128)) v (take k bs), drop k bs))
      in if b < 128 then Some (b, bs)
         else if b < 192 then None
         else if b < 224 then cont 1 (b - 192)
         else if b < 240 then cont 2 (b - 224)
         else if b < 248 then cont 3 (b - 240)
         else None)"

lemma or_is_add: "n < 2 ^ k \<Longrightarrow> (m * 2 ^ k) OR n = m * 2 ^ k + (n :: nat)"
proof -
  assume "n < 2 ^ k"
  then have n: "take_bit k n = n" by (simp add: take_bit_nat_eq_self_iff)
  have "push_bit k m AND take_bit k n = 0"
    by (rule bit_eqI) (auto simp: bit_simps)
  from disjunctive_add_eq_or [OF this] n show ?thesis
    by (simp add: push_bit_eq_mult)
qed

lemma unat_and_mask: "unat (w AND mask k :: 32 word) = unat w mod 2 ^ k"
  unfolding take_bit_eq_mask [symmetric] unsigned_take_bit_eq by (rule take_bit_eq_mod)

lemma unat_drop: "unat (drop_bit k w :: 32 word) = unat w div 2 ^ k"
  unfolding unat_drop_bit_eq by (rule drop_bit_eq_div)

lemma unat_low_bits:
  "unat (w AND 0x3F :: 32 word) = unat w mod 64" "unat (w AND 0x1F) = unat w mod 32"
  "unat (w AND 0x0F) = unat w mod 16" "unat (w AND 0x07) = unat w mod 8"
  "unat (w AND 0x7F) = unat w mod 128"
  using unat_and_mask [of w 6] unat_and_mask [of w 5] unat_and_mask [of w 4]
    unat_and_mask [of w 3] unat_and_mask [of w 7]
  by (simp_all add: mask_eq_exp_minus_1)

lemma utf8_tagged:
  "unat (0x80 OR (w AND 0x3F) :: 32 word) = 128 + unat w mod 64"
  "unat (0xC0 OR (w AND 0x1F) :: 32 word) = 192 + unat w mod 32"
  "unat (0xE0 OR (w AND 0x0F) :: 32 word) = 224 + unat w mod 16"
  "unat (0xF0 OR (w AND 0x07) :: 32 word) = 240 + unat w mod 8"
  unfolding unsigned_or_eq unat_low_bits
  using or_is_add [of "unat w mod 64" 6 2] or_is_add [of "unat w mod 32" 5 6]
    or_is_add [of "unat w mod 16" 4 14] or_is_add [of "unat w mod 8" 3 30]
  by simp_all

lemma utf8_bytes:
  "unat w \<le> 255 \<Longrightarrow> of_char (utf8_byte w) = unat w"
  by (simp add: utf8_byte_def)

lemma unicode_to_utf8_bytes:
  "map of_char (unicode_to_utf8 cp) =
     (let n = unat cp in
      if n < 128 then [n]
      else if n < 2048 then [192 + n div 64, 128 + n mod 64]
      else if n < 65536 then [224 + n div 4096, 128 + n div 64 mod 64, 128 + n mod 64]
      else if n < 1114112 then
        [240 + n div 262144, 128 + n div 4096 mod 64, 128 + n div 64 mod 64, 128 + n mod 64]
      else [])"
proof -
  have le: "cp \<le> 0x7F \<longleftrightarrow> unat cp < 128" "cp \<le> 0x7FF \<longleftrightarrow> unat cp < 2048"
    "cp \<le> 0xFFFF \<longleftrightarrow> unat cp < 65536" "cp \<le> 0x10FFFF \<longleftrightarrow> unat cp < 1114112"
    by (auto simp: word_le_nat_alt)
  have small: "128 + n mod 64 \<le> (255::nat)" "192 + n mod 32 \<le> (255::nat)" "224 + n mod 16 \<le> (255::nat)"
    "240 + n mod 8 \<le> (255::nat)" for n
    by (simp_all add: less_Suc_eq_le [symmetric])
  show ?thesis
    unfolding unicode_to_utf8_def le Let_def
    by (simp add: utf8_bytes utf8_tagged unat_low_bits unat_drop small)
qed

lemma div_shift: "(n::nat) div 4096 = n div 64 div 64" "n div 262144 = n div 64 div 64 div 64"
  by (simp_all add: div_mult2_eq [symmetric])

lemma utf8_roundtrip:
  assumes "unat cp < 1114112"
  shows "utf8_decode (map of_char (unicode_to_utf8 cp) @ rest) = Some (unat cp, rest)"
proof -
  let ?n = "unat cp"
  consider "?n < 128" | "128 \<le> ?n" "?n < 2048" | "2048 \<le> ?n" "?n < 65536" | "65536 \<le> ?n"
    by linarith
  then show ?thesis
  proof cases
    case 1
    then show ?thesis by (simp add: unicode_to_utf8_bytes)
  next
    case 2
    then have "?n div 64 < 32" by simp
    with 2 show ?thesis by (simp add: unicode_to_utf8_bytes Let_def)
  next
    case 3
    then have "?n div 4096 < 16" by simp
    moreover have "(?n div 4096 * 64 + ?n div 64 mod 64) * 64 + ?n mod 64 = ?n"
      unfolding div_shift by (simp only: div_mult_mod_eq)
    ultimately show ?thesis using 3 by (simp add: unicode_to_utf8_bytes Let_def)
  next
    case 4
    with assms have "?n div 262144 < 8" by simp
    moreover have "((?n div 262144 * 64 + ?n div 4096 mod 64) * 64 + ?n div 64 mod 64) * 64 + ?n mod 64 = ?n"
      unfolding div_shift by (simp only: div_mult_mod_eq)
    ultimately show ?thesis using 4 assms by (simp add: unicode_to_utf8_bytes Let_def)
  qed
qed

section \<open>Streams\<close>

text \<open>A message of a stream: chunk number \<open>i\<close> with text \<open>d\<close>, and whether it is marked finished.\<close>

definition chunk_msg :: "string \<Rightarrow> nat \<Rightarrow> string \<Rightarrow> bool \<Rightarrow> bool" where
  "chunk_msg inp i d fin \<longleftrightarrow>
     (\<exists>ix. sample_json_str_get inp ''index'' = Inr ix \<and> stoi ix = Inr (int i)) \<and>
     sample_json_str_get inp ''delta'' = Inr d \<and>
     (\<exists>f. sample_json_str_get inp ''finish'' = Inr f \<and> (str_find f ''f'' 0 = None \<longleftrightarrow> fin))"

text \<open>A receiver that hands each message to \<^const>\<open>decode_stream\<close> with an empty \<^verbatim>\<open>out\<close>, as the nodes do.\<close>

fun feed :: "string list \<Rightarrow> (int, string) umap \<Rightarrow> (bool res \<times> string) list \<times> (int, string) umap" where
  "feed [] m = ([], m)"
| "feed (x # xs) m =
     (let (r, out, m') = decode_stream x [] m; (rs, m'') = feed xs m' in ((r, out) # rs, m''))"

lemma feed_append:
  "feed (xs @ ys) m = (let (r1, m1) = feed xs m; (r2, m2) = feed ys m1 in (r1 @ r2, m2))"
  by (induction xs arbitrary: m) (auto simp: Let_def split: prod.splits)

lemma decode_stream_more:
  "chunk_msg x i d False \<Longrightarrow> decode_stream x out m = (Inr True, out, umap_set (int i) d m)"
  by (auto simp: chunk_msg_def decode_stream_def Let_def)

lemma decode_stream_last:
  "chunk_msg x i d True \<Longrightarrow> decode_stream x out m =
     (let buff = umap_set (int i) d m in
      case stream_out [0..<length buff] buff out of
        (Inl e, out') \<Rightarrow> (Inl e, out', buff) | (Inr _, out') \<Rightarrow> (Inr False, out', []))"
  by (auto simp: chunk_msg_def decode_stream_def Let_def)

text \<open>The buffer holds exactly the chunks \<open>I\<close> of the stream \<open>ds\<close>.\<close>

definition stream_inv :: "string list \<Rightarrow> nat set \<Rightarrow> (int, string) umap \<Rightarrow> bool" where
  "stream_inv ds I m \<longleftrightarrow> umap_wf m \<and> fst ` set m = int ` I \<and> (\<forall>i \<in> I. map_of m (int i) = Some (ds ! i))"

lemma stream_inv_empty: "stream_inv ds {} []"
  by (simp add: stream_inv_def)

lemma stream_inv_set: "stream_inv ds I m \<Longrightarrow> stream_inv ds (insert i I) (umap_set (int i) (ds ! i) m)"
  by (auto simp: stream_inv_def dom_update)

lemma stream_inv_length:
  assumes "stream_inv ds {..<n} m"
  shows "length m = n"
proof -
  have "length m = card (fst ` set m)"
    using assms by (metis stream_inv_def distinct_card length_map set_map)
  also have "\<dots> = card (int ` {..<n})" using assms by (simp add: stream_inv_def)
  also have "\<dots> = n" by (simp add: card_image)
  finally show ?thesis .
qed

lemma stream_out_all:
  "\<forall>i \<in> set is. map_of m (int i) = Some (ds ! i) \<Longrightarrow>
   stream_out is m out = (Inr (), out @ concat (map ((!) ds) is))"
  by (induction "is" arbitrary: out) (auto simp: umap_at_def)

lemma feed_more:
  assumes "\<forall>(x, i) \<in> set cs. chunk_msg x i (ds ! i) False" and "stream_inv ds I m"
  shows "\<exists>m'. feed (map fst cs) m = (map (\<lambda>_. (Inr True, [])) cs, m') \<and>
    stream_inv ds (I \<union> snd ` set cs) m'"
  using assms
proof (induction cs arbitrary: I m)
  case (Cons c cs)
  obtain x i where c: "c = (x, i)" by (cases c)
  from Cons.IH [OF _ stream_inv_set [OF Cons.prems(2), of i]] Cons.prems(1)
  obtain m' where "feed (map fst cs) (umap_set (int i) (ds ! i) m) = (map (\<lambda>_. (Inr True, [])) cs, m')"
    and "stream_inv ds (insert i I \<union> snd ` set cs) m'" by auto
  with Cons.prems(1) c show ?case
    by (auto simp: decode_stream_more [of x i "ds ! i"])
qed simp

lemma feed_stream:
  assumes "\<forall>(x, i) \<in> set cs. chunk_msg x i (ds ! i) False" and "chunk_msg xl il (ds ! il) True"
    and "insert il (snd ` set cs) = {..<length ds}"
  shows "feed (map fst cs @ [xl]) [] = (map (\<lambda>_. (Inr True, [])) cs @ [(Inr False, concat ds)], [])"
proof -
  obtain m' where m': "feed (map fst cs) [] = (map (\<lambda>_. (Inr True, [])) cs, m')"
    and "stream_inv ds (snd ` set cs) m'"
    using feed_more [OF assms(1) stream_inv_empty] by auto
  from stream_inv_set [OF this(2), of il] assms(3)
  have inv: "stream_inv ds {..<length ds} (umap_set (int il) (ds ! il) m')" by simp
  let ?b = "umap_set (int il) (ds ! il) m'"
  have "stream_out [0..<length ?b] ?b [] = (Inr (), concat ds)"
    using inv stream_inv_length [OF inv] stream_out_all [of "[0..<length ds]" ?b ds "[]"]
    by (simp add: stream_inv_def atLeast0LessThan map_nth)
  then have "decode_stream xl [] m' = (Inr False, concat ds, [])"
    unfolding decode_stream_last [OF assms(2)] Let_def by simp
  with m' show ?thesis by (simp add: feed_append)
qed

section \<open>Properties\<close>

text \<open>
  C31. \<^verbatim>\<open>sample_json_str_get\<close> extracts a field: when the first occurrence of the quoted key is followed
  by a colon and a string literal (quotes escaped, not ending in a backslash), a number or literal,
  or an object whose braces balance, the call returns exactly the value text (without the quotes
  of a string).
\<close>

theorem json_get_extracts:
  assumes "str_find (pre @ butlast (find_key k)) (find_key k) 0 = None"
    and "set sp1 \<subseteq> {CHR '' ''}" "set sp2 \<subseteq> {CHR '' ''}" "field_ok f"
    and "length (pre @ find_key k @ sp1 @ '':'' @ sp2 @ field_text f @ post) \<le> 2147483647"
  shows "sample_json_str_get (pre @ find_key k @ sp1 @ '':'' @ sp2 @ field_text f @ post) k =
    Inr (field_val f)"
  using assms by (rule json_get_field)

theorem json_get_extracts_witness:
  "sample_json_str_get
     (''{'' @ find_key ''data'' @ [] @ '':'' @ '' '' @ field_text (FObj ''{a:1},b:{}}'') @ ''}'') ''data'' =
   Inr ''{{a:1},b:{}}''"
  using json_get_extracts [of "''{''" "''data''" "[]" "'' ''" "FObj ''{a:1},b:{}}''" "''}''"]
  by (simp add: find_key_def str_find_def Let_def)

text \<open>
  C36. A work identifier made of a unit name without a dot and a number is taken apart into the same
  name and number.
\<close>

theorem work_id_roundtrip:
  assumes "CHR ''.'' \<notin> set name" and "is_int32 n" and "length name < 2147483647"
  shows "sample_get_work_id_num (sample_get_work_id n name) = Inr n \<and>
    sample_get_work_id_name (sample_get_work_id n name) = name"
  using work_id_num_of [OF assms] work_id_name_of [OF assms(1,3)] by simp

theorem work_id_roundtrip_witness:
  "sample_get_work_id_num (sample_get_work_id 1000 ''llm'') = Inr 1000"
  using work_id_roundtrip [of "''llm''" 1000] by (simp add: is_int32_def)

text \<open>
  \<^verbatim>\<open>unicode_to_utf8\<close> writes the UTF-8 form of every code point up to \<^verbatim>\<open>0x10FFFF\<close>: decoding it gives
  the code point back and leaves what follows untouched; beyond that range it writes nothing, and
  it never writes more than four bytes.
\<close>

theorem utf8_encode_correct:
  "(if unat cp < 1114112
    then utf8_decode (map of_char (unicode_to_utf8 cp) @ rest) = Some (unat cp, rest)
    else unicode_to_utf8 cp = []) \<and> length (unicode_to_utf8 cp) \<le> 4"
proof -
  have "unicode_to_utf8 cp = []" if "\<not> unat cp < 1114112"
    using that unicode_to_utf8_bytes [of cp] by (simp add: Let_def)
  moreover have "length (unicode_to_utf8 cp) \<le> 4"
    by (simp add: unicode_to_utf8_def)
  ultimately show ?thesis
    using utf8_roundtrip [of cp rest] by simp
qed

text \<open>
  C30. Chunks of a stream that arrive in any order, repeated or not, and end with the one marked
  finished are put together: every call before the last asks for more and outputs nothing, the
  last outputs the whole text in index order, and the buffer is empty again.
\<close>

theorem stream_reassembly:
  assumes "\<forall>(x, i) \<in> set cs. chunk_msg x i (ds ! i) False" and "chunk_msg xl il (ds ! il) True"
    and "insert il (snd ` set cs) = {..<length ds}"
  shows "feed (map fst cs @ [xl]) [] = (map (\<lambda>_. (Inr True, [])) cs @ [(Inr False, concat ds)], [])"
  using assms by (rule feed_stream)

definition chunk_text :: "string \<Rightarrow> string \<Rightarrow> string \<Rightarrow> string" where
  "chunk_text i d fin =
     ''{'' @ find_key ''index'' @ '':'' @ i @ '','' @ find_key ''delta'' @ '':'' @ [quote_c] @ d @ [quote_c]
     @ '','' @ find_key ''finish'' @ '':'' @ fin @ ''}''"

lemma chunk_text_ok:
  "chunk_msg (chunk_text ''1'' ''B'' ''false'') 1 ''B'' False"
  "chunk_msg (chunk_text ''0'' ''A'' ''false'') 0 ''A'' False"
  "chunk_msg (chunk_text ''2'' ''C'' ''true'') 2 ''C'' True"
  by (simp_all add: chunk_msg_def chunk_text_def sample_json_str_get_def find_key_def str_find_def
      sz_add_def substr_from_def Let_def jscan_result_def jscan_init_def jscan_step_def jscan_char_def
      push_back_def stoi_def parse_sign_def is_space_def is_digit_def digits_val_def digit_val_def is_int32_def)

theorem stream_reassembly_witness:
  "feed [chunk_text ''1'' ''B'' ''false'', chunk_text ''0'' ''A'' ''false'', chunk_text ''2'' ''C'' ''true''] [] =
   ([(Inr True, []), (Inr True, []), (Inr False, ''ABC'')], [])"
  using stream_reassembly [of "[(chunk_text ''1'' ''B'' ''false'', 1), (chunk_text ''0'' ''A'' ''false'', 0)]"
      "[''A'', ''B'', ''C'']" "chunk_text ''2'' ''C'' ''true''" 2] chunk_text_ok
  by (simp add: lessThan_Suc insert_commute numeral_2_eq_2)

end
