(* ===== verification/RemoteServer.thy ===== *)
theory RemoteServer
  imports Pzmq FlowUtil CFormat
begin

text \<open>
  The unit manager's store and RPC server (\<^verbatim>\<open>unit-manager/include/all.h\<close>, \<^verbatim>\<open>src/config.cpp\<close>,
  \<^verbatim>\<open>src/unit_data.cpp\<close>, \<^verbatim>\<open>src/remote_server.cpp\<close>, \<^verbatim>\<open>src/main.cpp\<close>): the key/value table \<^verbatim>\<open>key_sql\<close>, the
  bitmap \<^verbatim>\<open>port_list\<close> of ports in use, and the five RPC actions of the server \<^verbatim>\<open>sys\<close>. Units are heap
  objects: \<^verbatim>\<open>key_sql\<close> holds their addresses, so that objects that are no longer referenced (leaks) and
  dangling addresses can be told apart from live units.
\<close>

section \<open>State\<close>

record unit_data =
  user_inference_chennal :: "unit pzmq option"
  work_id :: string
  output_url :: string
  inference_url :: string
  unit_port :: int

text \<open>The values of type \<^verbatim>\<open>std::any\<close> stored in the table.\<close>

datatype any = AInt int | AString string | AUnit nat

datatype sys_action = A_sql_select | A_register_unit | A_release_unit | A_sql_set | A_sql_unset

record sys_state =
  key_sql :: "(string, any) umap"
  unit_heap :: "(nat, unit_data) umap"
  next_addr :: nat
  work_id_number_counter :: int
  port_list_start :: int
  port_list :: "bool list"
  zmq_s_format :: string
  zmq_c_format :: string
  sys_rpc_server :: "sys_action pzmq option"
  main_exit_flage :: int

text \<open>Static initialisation.\<close>

definition sys_init :: sys_state where
  "sys_init = \<lparr>key_sql = [], unit_heap = [], next_addr = 1, work_id_number_counter = 0,
     port_list_start = 0, port_list = [], zmq_s_format = [], zmq_c_format = [],
     sys_rpc_server = None, main_exit_flage = 0\<rparr>"

section \<open>The table\<close>

text \<open>
  \<^verbatim>\<open>SAFE_READING(val, type, key)\<close>: a missing key and a value of another type leave the variable as it
  was (\<open>v\<close>).
\<close>

definition safe_reading_string :: "string \<Rightarrow> string \<Rightarrow> sys_state \<Rightarrow> string" where
  "safe_reading_string v key st = (case map_of (key_sql st) key of Some (AString s) \<Rightarrow> s | _ \<Rightarrow> v)"

definition safe_reading_int :: "int option \<Rightarrow> string \<Rightarrow> sys_state \<Rightarrow> int option" where
  "safe_reading_int v key st = (case map_of (key_sql st) key of Some (AInt i) \<Rightarrow> Some i | _ \<Rightarrow> v)"

definition safe_reading_unit :: "nat option \<Rightarrow> string \<Rightarrow> sys_state \<Rightarrow> nat option" where
  "safe_reading_unit v key st = (case map_of (key_sql st) key of Some (AUnit p) \<Rightarrow> Some p | _ \<Rightarrow> v)"

definition safe_setting :: "string \<Rightarrow> any \<Rightarrow> sys_state \<Rightarrow> sys_state" where
  "safe_setting key v st = st\<lparr>key_sql := umap_set key v (key_sql st)\<rparr>"

definition safe_erase :: "string \<Rightarrow> sys_state \<Rightarrow> sys_state" where
  "safe_erase key st = st\<lparr>key_sql := umap_erase key (key_sql st)\<rparr>"

definition sys_sql_select :: "string \<Rightarrow> sys_state \<Rightarrow> string" where
  "sys_sql_select key st = safe_reading_string [] key st"

definition sys_sql_set :: "string \<Rightarrow> string \<Rightarrow> sys_state \<Rightarrow> sys_state" where
  "sys_sql_set key val st = safe_setting key (AString val) st"

definition sys_sql_unset :: "string \<Rightarrow> sys_state \<Rightarrow> sys_state" where
  "sys_sql_unset key st = safe_erase key st"

section \<open>Configuration\<close>

text \<open>
  The content of \<^verbatim>\<open>master_config.json\<close> as the JSON library presents it: no readable file, an object
  with its members, or another JSON value (on whose elements \<^verbatim>\<open>it.key()\<close> throws). A number is given
  by its conversion to \<^verbatim>\<open>int\<close>.
\<close>

datatype cfg_value = Cfg_Number int | Cfg_String string | Cfg_Other
datatype cfg = Cfg_None | Cfg_Object "(string \<times> cfg_value) list" | Cfg_Not_Object

fun load_members :: "(string \<times> cfg_value) list \<Rightarrow> sys_state \<Rightarrow> sys_state" where
  "load_members [] st = st"
| "load_members ((k, v) # ms) st =
     load_members ms
       (case v of Cfg_Number i \<Rightarrow> st\<lparr>key_sql := umap_set k (AInt i) (key_sql st)\<rparr>
        | Cfg_String s \<Rightarrow> st\<lparr>key_sql := umap_set k (AString s) (key_sql st)\<rparr>
        | Cfg_Other \<Rightarrow> st)"

definition load_default_config :: "cfg \<Rightarrow> sys_state \<Rightarrow> sys_state res" where
  "load_default_config c st =
     (case c of Cfg_None \<Rightarrow> Inr st
      | Cfg_Object ms \<Rightarrow> Inr (load_members ms st)
      | Cfg_Not_Object \<Rightarrow> Inl Terminate)"

section \<open>Units\<close>

text \<open>\<^verbatim>\<open>init_zmq\<close> and \<^verbatim>\<open>send_msg\<close>; sending through a unit that has no channel dereferences null.\<close>

definition init_zmq :: "zenv \<Rightarrow> string \<Rightarrow> unit_data \<Rightarrow> unit_data res" where
  "init_zmq env url u =
     bind_res (pzmq_socket env url ZMQ_PUB)
       (\<lambda>ch. Inr (u\<lparr>inference_url := url, user_inference_chennal := Some ch\<rparr>))"

definition send_msg :: "string \<Rightarrow> unit_data \<Rightarrow> unit_data res" where
  "send_msg json_str u =
     (case user_inference_chennal u of None \<Rightarrow> Inl Null_Deref
      | Some ch \<Rightarrow> Inr (u\<lparr>user_inference_chennal := Some (send_data json_str ch)\<rparr>))"

definition unit_data_dtor :: "zenv \<Rightarrow> unit_data \<Rightarrow> unit res" where
  "unit_data_dtor env u =
     (case user_inference_chennal u of None \<Rightarrow> Inr ()
      | Some ch \<Rightarrow> bind_res (pzmq_dtor env ch) (\<lambda>_. Inr ()))"

text \<open>
  The search for a free port from index \<open>i\<close> on: the index found and the list with it marked. When
  no port is free the variable \<^verbatim>\<open>port\<close> stays uninitialised.
\<close>

fun find_port :: "nat \<Rightarrow> bool list \<Rightarrow> (nat \<times> bool list) option" where
  "find_port i [] = None"
| "find_port i (b # bs) =
     (if \<not> b then Some (i, True # bs)
      else case find_port (Suc i) bs of None \<Rightarrow> None | Some (k, bs') \<Rightarrow> Some (k, b # bs'))"

text \<open>One address: a port, the format extended by the unit's name, and the printed text.\<close>

definition unit_url_format :: "string \<Rightarrow> string \<Rightarrow> string \<Rightarrow> string" where
  "unit_url_format fmt unit suffix =
     (if str_find fmt ''sock'' 0 \<noteq> None then fmt @ ''.'' @ unit @ suffix else fmt)"

definition allocate_url :: "string \<Rightarrow> string \<Rightarrow> sys_state \<Rightarrow> (string \<times> sys_state) res" where
  "allocate_url unit suffix st =
     (case find_port 0 (port_list st) of
        None \<Rightarrow> Inl Undefined_Behaviour
      | Some (i, ports) \<Rightarrow>
          let port = to_int32 (port_list_start st + int i);
              fmt = unit_url_format (zmq_s_format st) unit suffix
          in bind_res (sprintf_i (length fmt + length (to_string port)) fmt port)
               (\<lambda>url. Inr (url, st\<lparr>port_list := ports\<rparr>)))"

definition sys_allocate_unit :: "zenv \<Rightarrow> string \<Rightarrow> sys_state \<Rightarrow> (nat \<times> sys_state) res" where
  "sys_allocate_unit env unit st =
     (let p = next_addr st;
          n = work_id_number_counter st;
          st1 = st\<lparr>next_addr := p + 1, work_id_number_counter := to_int32 (n + 1)\<rparr>;
          wid = unit @ ''.'' @ to_string n
      in bind_res (allocate_url unit ''.output_url'' st1) (\<lambda>(out_url, st2).
         bind_res (allocate_url unit ''.inference_url'' st2) (\<lambda>(inf_url, st3).
         bind_res (init_zmq env inf_url
                     \<lparr>user_inference_chennal = None, work_id = wid, output_url = out_url,
                      inference_url = [], unit_port = n\<rparr>) (\<lambda>u.
         Inr (p, safe_setting (wid @ ''.out_port'') (AString out_url)
                  (safe_setting wid (AUnit p) (st3\<lparr>unit_heap := umap_set p u (unit_heap st3)\<rparr>)))))))"

text \<open>Reading a port back from an address; \<open>prev\<close> is what the variable held before.\<close>

definition free_port :: "string \<Rightarrow> int option \<Rightarrow> sys_state \<Rightarrow> (int \<times> sys_state) res" where
  "free_port url prev st =
     bind_res (sscanf_i url (zmq_s_format st)) (\<lambda>r.
       case (case r of Some v \<Rightarrow> Some v | None \<Rightarrow> prev) of
         None \<Rightarrow> Inl Undefined_Behaviour
       | Some port \<Rightarrow>
           let k = size_of_int (to_int32 (port - port_list_start st)) in
           if k < length (port_list st)
           then Inr (port, st\<lparr>port_list := (port_list st)[k := False]\<rparr>)
           else Inl Undefined_Behaviour)"

definition sys_release_unit :: "zenv \<Rightarrow> string \<Rightarrow> sys_state \<Rightarrow> (int \<times> sys_state) res" where
  "sys_release_unit env unit st =
     (case safe_reading_unit None unit st of
        None \<Rightarrow> Inr (-1, st)
      | Some p \<Rightarrow>
        (case map_of (unit_heap st) p of
           None \<Rightarrow> Inl Undefined_Behaviour
         | Some u \<Rightarrow>
           bind_res (free_port (output_url u) None st) (\<lambda>(port, st1).
           bind_res (free_port (inference_url u) (Some port) st1) (\<lambda>(_, st2).
           bind_res (unit_data_dtor env u) (\<lambda>_.
           Inr (0, safe_erase (unit @ ''.out_port'') (safe_erase unit
                     (st2\<lparr>unit_heap := umap_erase p (unit_heap st2)\<rparr>))))))))"

section \<open>RPC actions\<close>

definition rpc_allocate_unit :: "zenv \<Rightarrow> pzmq_data \<Rightarrow> sys_state \<Rightarrow> string res \<times> sys_state" where
  "rpc_allocate_unit env raw st =
     (case sys_allocate_unit env (pzmq_data_string raw) st of
        Inl e \<Rightarrow> (Inl e, st)
      | Inr (p, st') \<Rightarrow>
        (case map_of (unit_heap st') p of
           None \<Rightarrow> (Inl Undefined_Behaviour, st')
         | Some u \<Rightarrow> (Inr (set_param (to_string (unit_port u)) (set_param (output_url u) (inference_url u))), st')))"

definition rpc_release_unit :: "zenv \<Rightarrow> pzmq_data \<Rightarrow> sys_state \<Rightarrow> string res \<times> sys_state" where
  "rpc_release_unit env raw st =
     (case sys_release_unit env (pzmq_data_string raw) st of
        Inl e \<Rightarrow> (Inl e, st)
      | Inr (_, st') \<Rightarrow> (Inr ''Success'', st'))"

definition rpc_sql_select :: "pzmq_data \<Rightarrow> sys_state \<Rightarrow> string res \<times> sys_state" where
  "rpc_sql_select raw st = (Inr (sys_sql_select (pzmq_data_string raw) st), st)"

definition rpc_sql_set :: "pzmq_data \<Rightarrow> sys_state \<Rightarrow> string res \<times> sys_state" where
  "rpc_sql_set raw st =
     (case sample_json_str_get (pzmq_data_string raw) ''key'' of
        Inl e \<Rightarrow> (Inl e, st)
      | Inr key \<Rightarrow>
        (case sample_json_str_get (pzmq_data_string raw) ''val'' of
           Inl e \<Rightarrow> (Inl e, st)
         | Inr val \<Rightarrow> if key = [] then (Inr ''False'', st)
                     else (Inr ''Success'', sys_sql_set key val st)))"

definition rpc_sql_unset :: "pzmq_data \<Rightarrow> sys_state \<Rightarrow> string res \<times> sys_state" where
  "rpc_sql_unset raw st = (Inr ''Success'', sys_sql_unset (pzmq_data_string raw) st)"

definition run_sys :: "zenv \<Rightarrow> sys_action \<Rightarrow> pzmq_data \<Rightarrow> sys_state \<Rightarrow> string res \<times> sys_state" where
  "run_sys env a raw st =
     (case a of A_sql_select \<Rightarrow> rpc_sql_select raw st
      | A_register_unit \<Rightarrow> rpc_allocate_unit env raw st
      | A_release_unit \<Rightarrow> rpc_release_unit env raw st
      | A_sql_set \<Rightarrow> rpc_sql_set raw st
      | A_sql_unset \<Rightarrow> rpc_sql_unset raw st)"

section \<open>Start and stop\<close>

definition sys_actions :: "(string \<times> sys_action) list" where
  "sys_actions = [(''sql_select'', A_sql_select), (''register_unit'', A_register_unit),
     (''release_unit'', A_release_unit), (''sql_set'', A_sql_set), (''sql_unset'', A_sql_unset)]"

definition remote_server_work :: "zenv \<Rightarrow> sys_state \<Rightarrow> sys_state res" where
  "remote_server_work env st =
     (let st1 = st\<lparr>work_id_number_counter :=
                     the (safe_reading_int (Some (work_id_number_counter st)) ''config_work_id'' st)\<rparr>;
          st2 = st1\<lparr>port_list_start :=
                      the (safe_reading_int (Some (port_list_start st)) ''config_zmq_min_port'' st1)\<rparr>
      in case safe_reading_int None ''config_zmq_max_port'' st2 of
           None \<Rightarrow> Inl Undefined_Behaviour
         | Some port_list_end \<Rightarrow>
             let n = port_list_end - port_list_start st2 in
             if \<not> is_int32 n then Inl Undefined_Behaviour
             else bind_res (vec_resize False (port_list st2) (size_of_int n)) (\<lambda>ports.
                  bind_res (reg_all (register env) sys_actions (pzmq_server ''sys'')) (\<lambda>srv.
                  Inr (st2\<lparr>port_list := ports, sys_rpc_server := Some srv\<rparr>))))"

definition remote_server_stop_work :: "zenv \<Rightarrow> sys_state \<Rightarrow> sys_state res" where
  "remote_server_stop_work env st =
     (case sys_rpc_server st of None \<Rightarrow> Inr st
      | Some srv \<Rightarrow> bind_res (pzmq_dtor env srv) (\<lambda>_. Inr (st\<lparr>sys_rpc_server := None\<rparr>)))"

text \<open>
  The part of \<^verbatim>\<open>all_work\<close> before the TCP loop: \<^verbatim>\<open>any_cast\<close> of a missing or non-string format throws, and
  nothing catches it in \<^verbatim>\<open>main\<close>.
\<close>

definition config_string :: "string \<Rightarrow> sys_state \<Rightarrow> string res" where
  "config_string key st = (case map_of (key_sql st) key of Some (AString s) \<Rightarrow> Inr s | _ \<Rightarrow> Inl Bad_Any_Cast)"

definition all_work :: "zenv \<Rightarrow> sys_state \<Rightarrow> sys_state res" where
  "all_work env st =
     bind_res (config_string ''config_zmq_s_format'' st) (\<lambda>s_format.
     bind_res (config_string ''config_zmq_c_format'' st) (\<lambda>c_format.
     remote_server_work env (st\<lparr>zmq_s_format := s_format, zmq_c_format := c_format\<rparr>)))"

definition start_unit_manager :: "zenv \<Rightarrow> cfg \<Rightarrow> sys_state res" where
  "start_unit_manager env c = bind_res (load_default_config c sys_init) (all_work env)"

section \<open>Ports\<close>

lemma find_port_Some:
  "find_port k bs = Some (i, bs') \<Longrightarrow>
   k \<le> i \<and> i - k < length bs \<and> \<not> bs ! (i - k) \<and> (\<forall>j < i - k. bs ! j) \<and> bs' = bs[i - k := True]"
proof (induction k bs arbitrary: bs' rule: find_port.induct)
  case (2 k b bs)
  show ?case
  proof (cases b)
    case True
    with 2 obtain bs1 where bs1: "find_port (Suc k) bs = Some (i, bs1)" "bs' = b # bs1"
      by (auto split: option.splits)
    from 2(1) [OF _ bs1(1)] True have ih: "Suc k \<le> i" "i - Suc k < length bs" "\<not> bs ! (i - Suc k)"
      "\<forall>j < i - Suc k. bs ! j" "bs1 = bs[i - Suc k := True]" by auto
    moreover from ih(1) have "i - k = Suc (i - Suc k)" by simp
    ultimately show ?thesis
      using True bs1(2) by (auto simp: less_Suc_eq_0_disj)
  qed (use 2 in auto)
qed simp

lemma find_port_None: "find_port k bs = None \<longleftrightarrow> (\<forall>b \<in> set bs. b)"
  by (induction k bs rule: find_port.induct) (auto split: option.splits)

text \<open>The index of the port that is read back from an address.\<close>

definition port_slot :: "string \<Rightarrow> int \<Rightarrow> string \<Rightarrow> nat option" where
  "port_slot fmt start url =
     (case sscanf_i url fmt of
        Inr (Some v) \<Rightarrow> if start \<le> v then Some (nat (v - start)) else None
      | _ \<Rightarrow> None)"

text \<open>A format that names one port, so that the addresses made from it can be read back.\<close>

definition fmt_ok :: "string \<Rightarrow> bool" where
  "fmt_ok fmt \<longleftrightarrow> (\<exists>pre suf. one_conv fmt pre suf) \<and> 7 \<le> length fmt"

lemma sprintf_go_no_zero:
  "CHR 0x00 \<notin> set fmt \<Longrightarrow> sprintf_go fmt arg = Inr r \<Longrightarrow> CHR 0x00 \<notin> set r"
proof (induction fmt arg arbitrary: r rule: sprintf_go.induct)
  case (3 c d cs arg)
  have "CHR 0x00 \<notin> set (to_string v)" for v
    using nat_to_string_nondigit [of "CHR 0x00"] by (auto simp: to_string_def is_digit_def)
  with 3 show ?case by (auto simp: res_simps split: if_splits option.splits)
qed (auto split: if_splits)

lemma c_str_append: "CHR 0x00 \<notin> set s \<Longrightarrow> c_str (s @ t) = s @ c_str t"
  unfolding c_str_def by (intro takeWhile_append2) auto

lemma c_str_no_zero: "CHR 0x00 \<notin> set (c_str s)"
  unfolding c_str_def by (metis (mono_tags, lifting) set_takeWhileD)

text \<open>What printing an address gives, whatever text follows the format.\<close>

lemma sprintf_url:
  assumes fmt: "one_conv fmt pre suf" and out: "sprintf_i n (fmt @ ext) v = Inr url"
  shows "\<exists>r. url = pre @ to_string v @ suf @ r \<and> CHR 0x00 \<notin> set r \<and> length url < n"
proof -
  from fmt obtain d where d: "fmt = pre @ CHR ''%'' # d # suf" "d = CHR ''i'' \<or> d = CHR ''d''"
    and lit: "printable pre" "printable suf"
    by (auto simp: one_conv_def literal_printable)
  have "CHR 0x00 \<notin> set fmt" using d lit printable_no_zero by auto
  then have c: "c_str (fmt @ ext) = pre @ CHR ''%'' # d # suf @ c_str ext"
    using d(1) c_str_append [of fmt ext] by simp
  from out obtain r where r: "sprintf_go (c_str ext) None = Inr r" and "url = pre @ to_string v @ suf @ r"
    and "length url < n"
    using d(2) lit unfolding sprintf_i_def c
    by (auto simp: res_simps sprintf_go_plain split: if_splits)
  with sprintf_go_no_zero [OF c_str_no_zero r] show ?thesis by blast
qed

lemma unit_url_format_ext: "\<exists>ext. unit_url_format fmt unit suffix = fmt @ ext"
  by (simp add: unit_url_format_def)

lemma allocate_url_Inr:
  assumes fmt: "fmt_ok (zmq_s_format st)"
    and rng: "0 \<le> port_list_start st" "port_list_start st + int (length (port_list st)) \<le> 2147483647"
    and a: "allocate_url unit suffix st = Inr (url, st')"
  shows "\<exists>i. i < length (port_list st) \<and> \<not> port_list st ! i \<and>
    st' = st\<lparr>port_list := (port_list st)[i := True]\<rparr> \<and>
    port_slot (zmq_s_format st) (port_list_start st) url = Some i \<and> 6 \<le> length url"
proof -
  from fmt obtain pre suf where oc: "one_conv (zmq_s_format st) pre suf" and len: "7 \<le> length (zmq_s_format st)"
    by (auto simp: fmt_ok_def)
  from a obtain i ports where fp: "find_port 0 (port_list st) = Some (i, ports)"
    by (auto simp: allocate_url_def split: option.splits)
  from find_port_Some [OF this] have i: "i < length (port_list st)" "\<not> port_list st ! i"
    "ports = (port_list st)[i := True]" by auto
  let ?v = "port_list_start st + int i"
  have v: "to_int32 ?v = ?v" "0 \<le> ?v" "?v \<le> 2147483647"
    using rng i(1) by (auto simp: is_int32_def)
  obtain ext where ext: "unit_url_format (zmq_s_format st) unit suffix = zmq_s_format st @ ext"
    using unit_url_format_ext by blast
  from a fp v(1) ext i(3) obtain n where pr: "sprintf_i n (zmq_s_format st @ ext) ?v = Inr url"
    and st': "st' = st\<lparr>port_list := (port_list st)[i := True]\<rparr>"
    by (auto simp: allocate_url_def Let_def res_simps)
  from sprintf_url [OF oc pr] obtain r where url: "url = pre @ to_string ?v @ suf @ r" "CHR 0x00 \<notin> set r"
    by blast
  have "1 \<le> length (to_string ?v)" by (simp add: Suc_le_eq)
  moreover have "5 \<le> length pre + length suf" using len oc by (auto simp: one_conv_def)
  ultimately have "6 \<le> length url" using url(1) by simp
  moreover have "port_slot (zmq_s_format st) (port_list_start st) url = Some i"
    using sscanf_sprintf [OF oc v(2,3) url(2)] url(1) by (simp add: port_slot_def)
  ultimately show ?thesis using i st' by blast
qed

text \<open>Allocation of an address succeeds when a port is free and the name is not a format.\<close>

lemma allocate_url_total:
  assumes fmt: "fmt_ok (zmq_s_format st)"
    and free: "False \<in> set (port_list st)" and name: "printable unit" "printable suffix"
  shows "\<exists>url st'. allocate_url unit suffix st = Inr (url, st')"
proof -
  from fmt obtain pre suf where oc: "one_conv (zmq_s_format st) pre suf" by (auto simp: fmt_ok_def)
  then obtain d where d: "zmq_s_format st = pre @ CHR ''%'' # d # suf" "d = CHR ''i'' \<or> d = CHR ''d''"
    and lit: "printable pre" "printable suf"
    by (auto simp: one_conv_def literal_printable)
  obtain i ports where "find_port 0 (port_list st) = Some (i, ports)"
    using free find_port_None [of 0 "port_list st"] by (cases "find_port 0 (port_list st)") auto
  moreover define ext where "ext = (if str_find (zmq_s_format st) ''sock'' 0 \<noteq> None then ''.'' @ unit @ suffix else [])"
  have "unit_url_format (zmq_s_format st) unit suffix = pre @ CHR ''%'' # d # (suf @ ext)"
    using d(1) by (simp add: unit_url_format_def ext_def)
  moreover have "printable (suf @ ext)" using lit(2) name by (simp add: ext_def printable_def)
  ultimately show ?thesis
    using sprintf_i_conv [OF lit(1) _ d(2), of "suf @ ext"]
    by (simp add: allocate_url_def Let_def)
qed

section \<open>The invariant\<close>

definition unit_slots :: "sys_state \<Rightarrow> unit_data \<Rightarrow> nat option list" where
  "unit_slots st u =
     [port_slot (zmq_s_format st) (port_list_start st) (output_url u),
      port_slot (zmq_s_format st) (port_list_start st) (inference_url u)]"

definition heap_slots :: "sys_state \<Rightarrow> nat option list" where
  "heap_slots st = concat (map (\<lambda>(p, u). unit_slots st u) (unit_heap st))"

definition channel_ok :: "unit_data \<Rightarrow> bool" where
  "channel_ok u \<longleftrightarrow> (\<exists>ch. user_inference_chennal u = Some ch \<and> 6 \<le> length (zmq_url ch))"

text \<open>The configuration: a usable format and a range of ports that \<^verbatim>\<open>int\<close> can hold.\<close>

definition config_ok :: "sys_state \<Rightarrow> bool" where
  "config_ok st \<longleftrightarrow> fmt_ok (zmq_s_format st) \<and> 0 \<le> port_list_start st \<and>
     port_list_start st + int (length (port_list st)) \<le> 2147483647 \<and>
     is_int32 (work_id_number_counter st)"

text \<open>
  Every unit object holds two ports that are marked as used, no port is held twice, and every unit
  address in the table points to a live object filed under its own work identifier.
\<close>

definition sys_inv :: "sys_state \<Rightarrow> bool" where
  "sys_inv st \<longleftrightarrow> config_ok st \<and>
     umap_wf (unit_heap st) \<and> (\<forall>(p, u) \<in> set (unit_heap st). p < next_addr st \<and> channel_ok u) \<and>
     distinct (heap_slots st) \<and>
     (\<forall>s \<in> set (heap_slots st). \<exists>i < length (port_list st). s = Some i \<and> port_list st ! i) \<and>
     (\<forall>k p. map_of (key_sql st) k = Some (AUnit p) \<longrightarrow>
        (\<exists>u. map_of (unit_heap st) p = Some u \<and> work_id u = k))"

lemma heap_slots_cong:
  "unit_heap st' = unit_heap st \<Longrightarrow> zmq_s_format st' = zmq_s_format st \<Longrightarrow>
   port_list_start st' = port_list_start st \<Longrightarrow> heap_slots st' = heap_slots st"
  by (simp add: heap_slots_def unit_slots_def)

text \<open>Changes of the table alone: they may drop references to units but not invent them.\<close>

lemma sys_inv_key_sql:
  assumes "sys_inv st" and "\<And>k p. map_of m k = Some (AUnit p) \<Longrightarrow> map_of (key_sql st) k = Some (AUnit p)"
  shows "sys_inv (st\<lparr>key_sql := m\<rparr>)"
  using assms heap_slots_cong [of "st\<lparr>key_sql := m\<rparr>" st]
  by (auto simp: sys_inv_def config_ok_def)

lemma sys_inv_set_string: "sys_inv st \<Longrightarrow> sys_inv (safe_setting k (AString v) st)"
  unfolding safe_setting_def by (rule sys_inv_key_sql) (auto split: if_splits)

lemma sys_inv_erase: "sys_inv st \<Longrightarrow> sys_inv (safe_erase k st)"
  unfolding safe_erase_def by (rule sys_inv_key_sql) (auto split: if_splits)

section \<open>Allocating and releasing units\<close>

lemma pzmq_socket_pub_url:
  "pzmq_socket env url ZMQ_PUB = Inr s \<Longrightarrow> zmq_url s = url"
  by (auto simp: pzmq_socket_def creat_def creat_pub_def res_simps Let_def zmq_mode_defs pzmq_init_def
      split: option.splits if_splits)

lemma pzmq_socket_pub_total:
  assumes "zmq_up env" "2 \<le> length url"
  shows "\<exists>s. pzmq_socket env url ZMQ_PUB = Inr s"
proof -
  have up: "\<exists>k. ctx_new env k" "\<exists>k. socket_new env k" using assms(1) by (simp_all add: zmq_up_def)
  obtain j where j: "retry (ctx_new env) 0 = Some j" using retry_obtain [OF up(1)] .
  obtain k where "retry (socket_new env) 0 = Some k" using retry_obtain [OF up(2)] .
  with j assms(2) show ?thesis
    by (auto simp: pzmq_socket_def str_at_def creat_def creat_pub_def Let_def zmq_mode_defs pzmq_init_def)
qed

text \<open>The state after an allocation that took the ports with indices \<open>i\<close> and \<open>j\<close> for the unit \<open>u\<close>.\<close>

definition allocated :: "nat \<Rightarrow> nat \<Rightarrow> unit_data \<Rightarrow> sys_state \<Rightarrow> sys_state" where
  "allocated i j u st =
     safe_setting (work_id u @ ''.out_port'') (AString (output_url u))
       (safe_setting (work_id u) (AUnit (next_addr st))
         (st\<lparr>next_addr := next_addr st + 1, work_id_number_counter := to_int32 (work_id_number_counter st + 1),
            port_list := (port_list st)[i := True, j := True],
            unit_heap := umap_set (next_addr st) u (unit_heap st)\<rparr>))"

text \<open>A unit made for the name \<open>unit\<close> on the free ports \<open>i\<close> and \<open>j\<close>.\<close>

definition fresh_unit :: "string \<Rightarrow> nat \<Rightarrow> nat \<Rightarrow> unit_data \<Rightarrow> sys_state \<Rightarrow> bool" where
  "fresh_unit unit i j u st \<longleftrightarrow>
     i < length (port_list st) \<and> j < length (port_list st) \<and> i \<noteq> j \<and>
     \<not> port_list st ! i \<and> \<not> port_list st ! j \<and> unit_slots st u = [Some i, Some j] \<and>
     unit_port u = work_id_number_counter st \<and>
     work_id u = unit @ ''.'' @ to_string (work_id_number_counter st) \<and> channel_ok u"

lemma sys_allocate_unit_Inr:
  assumes cfg: "config_ok st" and a: "sys_allocate_unit env unit st = Inr (p, st')"
  shows "\<exists>i j u. fresh_unit unit i j u st \<and> p = next_addr st \<and> st' = allocated i j u st"
proof -
  let ?n = "work_id_number_counter st"
  let ?st1 = "st\<lparr>next_addr := next_addr st + 1, work_id_number_counter := to_int32 (?n + 1)\<rparr>"
  let ?wid = "unit @ ''.'' @ to_string ?n"
  from a obtain out st2 inf st3 u where
    o: "allocate_url unit ''.output_url'' ?st1 = Inr (out, st2)" and
    f: "allocate_url unit ''.inference_url'' st2 = Inr (inf, st3)" and
    z: "init_zmq env inf \<lparr>user_inference_chennal = None, work_id = ?wid, output_url = out,
          inference_url = [], unit_port = ?n\<rparr> = Inr u" and
    r: "p = next_addr st" "st' = safe_setting (?wid @ ''.out_port'') (AString out)
          (safe_setting ?wid (AUnit p) (st3\<lparr>unit_heap := umap_set p u (unit_heap st3)\<rparr>))"
    by (auto simp: sys_allocate_unit_def Let_def res_simps)
  have c1: "fmt_ok (zmq_s_format ?st1)" "0 \<le> port_list_start ?st1"
    "port_list_start ?st1 + int (length (port_list ?st1)) \<le> 2147483647"
    using cfg by (simp_all add: config_ok_def)
  from allocate_url_Inr [OF c1 o] obtain i where i: "i < length (port_list st)" "\<not> port_list st ! i"
    "st2 = ?st1\<lparr>port_list := (port_list st)[i := True]\<rparr>"
    "port_slot (zmq_s_format st) (port_list_start st) out = Some i" by auto
  have c2: "fmt_ok (zmq_s_format st2)" "0 \<le> port_list_start st2"
    "port_list_start st2 + int (length (port_list st2)) \<le> 2147483647"
    using c1 i(3) by simp_all
  from allocate_url_Inr [OF c2 f] i(3) obtain j where j: "j < length (port_list st)"
    "\<not> (port_list st)[i := True] ! j"
    "st3 = ?st1\<lparr>port_list := (port_list st)[i := True, j := True]\<rparr>"
    "port_slot (zmq_s_format st) (port_list_start st) inf = Some j" "6 \<le> length inf" by auto
  have ij: "i \<noteq> j" "\<not> port_list st ! j" using j(1,2) i(1) by (auto simp: nth_list_update split: if_splits)
  from z obtain ch where ch: "pzmq_socket env inf ZMQ_PUB = Inr ch"
    and u: "u = \<lparr>user_inference_chennal = Some ch, work_id = ?wid, output_url = out,
          inference_url = inf, unit_port = ?n\<rparr>"
    by (auto simp: init_zmq_def res_simps)
  have "fresh_unit unit i j u st"
    using i j ij u pzmq_socket_pub_url [OF ch]
    by (simp add: fresh_unit_def unit_slots_def channel_ok_def)
  moreover have "st' = allocated i j u st"
    using r j(3) u by (simp add: allocated_def safe_setting_def)
  ultimately show ?thesis using r(1) by blast
qed

lemma sys_allocate_unit_total:
  assumes cfg: "config_ok st" and up: "zmq_up env" and name: "printable unit"
    and free: "i < length (port_list st)" "j < length (port_list st)" "i \<noteq> j"
      "\<not> port_list st ! i" "\<not> port_list st ! j"
  shows "\<exists>p st'. sys_allocate_unit env unit st = Inr (p, st')"
proof -
  let ?n = "work_id_number_counter st"
  let ?st1 = "st\<lparr>next_addr := next_addr st + 1, work_id_number_counter := to_int32 (?n + 1)\<rparr>"
  have pr: "printable ''.output_url''" "printable ''.inference_url''" by (simp_all add: printable_def)
  have c1: "fmt_ok (zmq_s_format ?st1)" "0 \<le> port_list_start ?st1"
    "port_list_start ?st1 + int (length (port_list ?st1)) \<le> 2147483647"
    using cfg by (simp_all add: config_ok_def)
  have "False \<in> set (port_list ?st1)" using free(1,4) by (auto simp: in_set_conv_nth)
  from allocate_url_total [OF c1(1) this name pr(1)]
  obtain out st2 where o: "allocate_url unit ''.output_url'' ?st1 = Inr (out, st2)" by blast
  from allocate_url_Inr [OF c1 o] obtain k where k: "st2 = ?st1\<lparr>port_list := (port_list st)[k := True]\<rparr>" by auto
  have c2: "fmt_ok (zmq_s_format st2)" "0 \<le> port_list_start st2"
    "port_list_start st2 + int (length (port_list st2)) \<le> 2147483647"
    using c1 k by simp_all
  have "False \<in> set ((port_list st)[k := True])"
  proof (cases "k = i")
    case True
    then have "\<not> (port_list st)[k := True] ! j" using free by simp
    then show ?thesis using free(2) by (auto simp: in_set_conv_nth)
  next
    case False
    then have "\<not> (port_list st)[k := True] ! i" using free by simp
    then show ?thesis using free(1) by (auto simp: in_set_conv_nth)
  qed
  with allocate_url_total [OF c2(1) _ name pr(2)] k
  obtain inf st3 where f: "allocate_url unit ''.inference_url'' st2 = Inr (inf, st3)" by auto
  from allocate_url_Inr [OF c2 f] have "2 \<le> length inf" by auto
  from pzmq_socket_pub_total [OF up this] obtain ch :: "unit pzmq" where "pzmq_socket env inf ZMQ_PUB = Inr ch" by blast
  with o f show ?thesis by (auto simp: sys_allocate_unit_def Let_def init_zmq_def)
qed

text \<open>The invariant survives an allocation.\<close>

lemma sys_inv_allocated:
  assumes inv: "sys_inv st" and u: "fresh_unit unit i j u st"
  shows "sys_inv (allocated i j u st)"
proof -
  let ?st' = "allocated i j u st"
  have "next_addr st \<notin> fst ` set (unit_heap st)"
    using inv by (auto simp: sys_inv_def)
  then have fresh: "map_of (unit_heap st) (next_addr st) = None"
    by (simp add: map_of_eq_None_iff)
  then have slots: "heap_slots ?st' = heap_slots st @ [Some i, Some j]"
    using u by (simp add: allocated_def safe_setting_def heap_slots_def unit_slots_def umap_set_fresh fresh_unit_def)
  have marked: "\<exists>k < length (port_list st). s = Some k \<and> port_list st ! k" if "s \<in> set (heap_slots st)" for s
    using inv that by (auto simp: sys_inv_def)
  have new: "Some i \<notin> set (heap_slots st)" "Some j \<notin> set (heap_slots st)"
    using marked [of "Some i"] marked [of "Some j"] u by (auto simp: fresh_unit_def)
  have "config_ok ?st'"
    using inv by (simp add: sys_inv_def config_ok_def allocated_def safe_setting_def)
  moreover have "umap_wf (unit_heap ?st')"
    using inv by (simp add: sys_inv_def allocated_def safe_setting_def)
  moreover have "\<forall>(p, v) \<in> set (unit_heap ?st'). p < next_addr ?st' \<and> channel_ok v"
    using inv u fresh by (auto simp: sys_inv_def allocated_def safe_setting_def umap_set_fresh fresh_unit_def)
  moreover have "distinct (heap_slots ?st')"
    using inv new u by (auto simp: slots sys_inv_def fresh_unit_def)
  moreover have "\<forall>s \<in> set (heap_slots ?st'). \<exists>k < length (port_list ?st'). s = Some k \<and> port_list ?st' ! k"
    using marked u unfolding slots by (auto simp: allocated_def safe_setting_def fresh_unit_def nth_list_update)
  moreover have "map_of (key_sql ?st') k = Some (AUnit p) \<Longrightarrow>
      \<exists>v. map_of (unit_heap ?st') p = Some v \<and> work_id v = k" for k p
  proof -
    assume k: "map_of (key_sql ?st') k = Some (AUnit p)"
    have "p \<noteq> next_addr st" if "map_of (key_sql st) k = Some (AUnit p)"
      using that inv fresh unfolding sys_inv_def by (metis option.distinct(1))
    with k inv show ?thesis
      unfolding sys_inv_def by (auto simp: allocated_def safe_setting_def split: if_splits)
  qed
  ultimately show ?thesis by (simp add: sys_inv_def)
qed

text \<open>Releasing a live unit returns, frees its two ports and drops the object and its two keys.\<close>

definition released :: "string \<Rightarrow> nat \<Rightarrow> nat \<Rightarrow> nat \<Rightarrow> sys_state \<Rightarrow> sys_state" where
  "released unit p i j st =
     safe_erase (unit @ ''.out_port'') (safe_erase unit
       (st\<lparr>port_list := (port_list st)[i := False, j := False], unit_heap := umap_erase p (unit_heap st)\<rparr>))"

lemma free_port_slot:
  assumes "config_ok st" and "port_slot (zmq_s_format st) (port_list_start st) url = Some i"
    and "i < length (port_list st)"
  shows "\<exists>port. free_port url prev st = Inr (port, st\<lparr>port_list := (port_list st)[i := False]\<rparr>)"
proof -
  from assms(2) obtain v where v: "sscanf_i url (zmq_s_format st) = Inr (Some v)"
    "port_list_start st \<le> v" "i = nat (v - port_list_start st)"
    by (auto simp: port_slot_def split: sum.splits option.splits if_splits)
  then have "0 \<le> v - port_list_start st" "v - port_list_start st \<le> 2147483647"
    using assms(1,3) by (auto simp: config_ok_def)
  then have "size_of_int (to_int32 (v - port_list_start st)) = i"
    using v(3) by (simp add: is_int32_def)
  with v assms(3) show ?thesis by (simp add: free_port_def Let_def)
qed

lemma unit_data_dtor_ok: "channel_ok u \<Longrightarrow> unit_data_dtor env u = Inr ()"
  by (auto simp: channel_ok_def unit_data_dtor_def pzmq_dtor_def close_zmq_def Let_def substr_from_def
      rpc_url_head_length_def)

lemma sys_release_unit_live:
  assumes inv: "sys_inv st" and k: "map_of (key_sql st) unit = Some (AUnit p)"
  shows "\<exists>u i j. map_of (unit_heap st) p = Some u \<and> work_id u = unit \<and> unit_slots st u = [Some i, Some j] \<and>
    i \<noteq> j \<and> i < length (port_list st) \<and> j < length (port_list st) \<and> port_list st ! i \<and> port_list st ! j \<and>
    sys_release_unit env unit st = Inr (0, released unit p i j st)"
proof -
  obtain u where u: "map_of (unit_heap st) p = Some u" "work_id u = unit"
    using inv k unfolding sys_inv_def by blast
  have "umap_wf (unit_heap st)" using inv by (simp add: sys_inv_def)
  from umap_erase_split [OF this u(1)] obtain xs ys where heap: "unit_heap st = xs @ (p, u) # ys" by blast
  have sl: "set (unit_slots st u) \<subseteq> set (heap_slots st)" and d: "distinct (unit_slots st u)"
    using heap inv by (auto simp: heap_slots_def sys_inv_def)
  have marked: "\<exists>i < length (port_list st). s = Some i \<and> port_list st ! i" if "s \<in> set (unit_slots st u)" for s
    using that sl inv unfolding sys_inv_def by blast
  obtain a b where ab: "unit_slots st u = [a, b]" by (simp add: unit_slots_def)
  obtain i j where "a = Some i" "i < length (port_list st)" "port_list st ! i"
    "b = Some j" "j < length (port_list st)" "port_list st ! j"
    using marked [of a] marked [of b] ab by auto
  with ab d have ij: "unit_slots st u = [Some i, Some j]" "i < length (port_list st)" "port_list st ! i"
    "j < length (port_list st)" "port_list st ! j" "i \<noteq> j" by auto
  have cfg: "config_ok st" using inv by (simp add: sys_inv_def)
  have ch: "channel_ok u" using inv heap by (auto simp: sys_inv_def)
  obtain port where p1: "free_port (output_url u) None st = Inr (port, st\<lparr>port_list := (port_list st)[i := False]\<rparr>)"
    using free_port_slot [OF cfg] ij(1,2) unfolding unit_slots_def by blast
  let ?st1 = "st\<lparr>port_list := (port_list st)[i := False]\<rparr>"
  have "config_ok ?st1" using cfg by (simp add: config_ok_def)
  from free_port_slot [OF this, of "inference_url u" j "Some port"] ij
  obtain port' where "free_port (inference_url u) (Some port) ?st1 =
      Inr (port', st\<lparr>port_list := (port_list st)[i := False, j := False]\<rparr>)"
    by (auto simp: unit_slots_def)
  with p1 k u ch have "sys_release_unit env unit st = Inr (0, released unit p i j st)"
    by (simp add: sys_release_unit_def safe_reading_unit_def unit_data_dtor_ok released_def)
  with u ij show ?thesis by blast
qed

lemma sys_inv_released:
  assumes inv: "sys_inv st" and k: "map_of (key_sql st) unit = Some (AUnit p)"
    and u: "map_of (unit_heap st) p = Some u" "work_id u = unit"
    and ij: "unit_slots st u = [Some i, Some j]"
  shows "sys_inv (released unit p i j st)"
proof -
  let ?st1 = "st\<lparr>port_list := (port_list st)[i := False, j := False], unit_heap := umap_erase p (unit_heap st)\<rparr>"
  let ?st2 = "safe_erase unit ?st1"
  have wf: "umap_wf (unit_heap st)" using inv by (simp add: sys_inv_def)
  from umap_erase_split [OF wf u(1)] obtain xs ys where
    heap: "unit_heap st = xs @ (p, u) # ys" and er: "umap_erase p (unit_heap st) = xs @ ys" by blast
  let ?f = "\<lambda>(p :: nat, u). unit_slots st u"
  have old: "heap_slots st = concat (map ?f xs) @ [Some i, Some j] @ concat (map ?f ys)"
    using heap ij by (simp add: heap_slots_def)
  have new: "heap_slots ?st2 = concat (map ?f xs) @ concat (map ?f ys)"
    using er by (simp add: heap_slots_def safe_erase_def unit_slots_def)
  have "config_ok ?st2" using inv by (simp add: sys_inv_def config_ok_def safe_erase_def)
  moreover have "umap_wf (unit_heap ?st2)" using wf by (simp add: safe_erase_def)
  moreover have "\<forall>(q, v) \<in> set (unit_heap ?st2). q < next_addr ?st2 \<and> channel_ok v"
    using inv er heap by (auto simp: sys_inv_def safe_erase_def)
  moreover have "distinct (heap_slots ?st2)"
    using inv unfolding sys_inv_def old new by simp
  moreover have "\<forall>s \<in> set (heap_slots ?st2). \<exists>k < length (port_list ?st2). s = Some k \<and> port_list ?st2 ! k"
  proof
    fix s assume s: "s \<in> set (heap_slots ?st2)"
    then have "s \<in> set (heap_slots st)" "s \<noteq> Some i" "s \<noteq> Some j"
      using inv unfolding sys_inv_def old new by auto
    moreover from this(1) inv obtain k where "k < length (port_list st)" "s = Some k" "port_list st ! k"
      unfolding sys_inv_def by blast
    ultimately show "\<exists>k < length (port_list ?st2). s = Some k \<and> port_list ?st2 ! k"
      by (auto simp: safe_erase_def nth_list_update)
  qed
  moreover have "\<exists>v. map_of (unit_heap ?st2) q = Some v \<and> work_id v = k'"
    if q: "map_of (key_sql ?st2) k' = Some (AUnit q)" for k' q
  proof -
    from q have k': "k' \<noteq> unit" "map_of (key_sql st) k' = Some (AUnit q)"
      by (auto simp: safe_erase_def split: if_splits)
    with inv obtain v where v: "map_of (unit_heap st) q = Some v" "work_id v = k'"
      unfolding sys_inv_def by blast
    with u k'(1) have "q \<noteq> p" by auto
    with v show ?thesis by (simp add: safe_erase_def)
  qed
  ultimately have "sys_inv ?st2" by (simp add: sys_inv_def)
  then show ?thesis unfolding released_def by (rule sys_inv_erase)
qed

text \<open>Every RPC action keeps the invariant, and only an allocation can fail.\<close>

lemma sys_release_unit_inv:
  assumes "sys_inv st"
  shows "\<exists>r st'. sys_release_unit env unit st = Inr (r, st') \<and> sys_inv st'"
proof (cases "safe_reading_unit None unit st")
  case None
  with assms show ?thesis by (simp add: sys_release_unit_def)
next
  case (Some p)
  then have k: "map_of (key_sql st) unit = Some (AUnit p)"
    by (auto simp: safe_reading_unit_def split: option.splits any.splits)
  from sys_release_unit_live [OF assms k, of env] sys_inv_released [OF assms k] show ?thesis by blast
qed

lemma rpc_allocate_unit_eq:
  assumes "config_ok st"
  shows "(\<exists>e. rpc_allocate_unit env raw st = (Inl e, st)) \<or>
    (\<exists>i j u. fresh_unit (pzmq_data_string raw) i j u st \<and> rpc_allocate_unit env raw st =
       (Inr (set_param (to_string (unit_port u)) (set_param (output_url u) (inference_url u))), allocated i j u st))"
proof (cases "sys_allocate_unit env (pzmq_data_string raw) st")
  case (Inl e)
  then show ?thesis by (simp add: rpc_allocate_unit_def)
next
  case (Inr r)
  obtain p st' where r: "r = (p, st')" by (cases r)
  from sys_allocate_unit_Inr [OF assms Inr [unfolded r]] obtain i j u where
    "fresh_unit (pzmq_data_string raw) i j u st" "p = next_addr st" "st' = allocated i j u st" by blast
  moreover from this have "map_of (unit_heap st') p = Some u" by (simp add: allocated_def safe_setting_def)
  ultimately show ?thesis using Inr r by (auto simp: rpc_allocate_unit_def)
qed

lemma run_sys_inv:
  assumes "sys_inv st"
  shows "sys_inv (snd (run_sys env a raw st))"
proof (cases a)
  case A_sql_select
  with assms show ?thesis by (simp add: run_sys_def rpc_sql_select_def)
next
  case A_register_unit
  have "config_ok st" using assms by (simp add: sys_inv_def)
  from rpc_allocate_unit_eq [OF this, of env raw] A_register_unit sys_inv_allocated [OF assms] assms
  show ?thesis by (auto simp: run_sys_def)
next
  case A_release_unit
  from sys_release_unit_inv [OF assms, of env "pzmq_data_string raw"] A_release_unit show ?thesis
    by (auto simp: run_sys_def rpc_release_unit_def)
next
  case A_sql_set
  then show ?thesis
    using assms sys_inv_set_string
    by (auto simp: run_sys_def rpc_sql_set_def sys_sql_set_def split: sum.splits)
next
  case A_sql_unset
  then show ?thesis
    using sys_inv_erase [OF assms] by (simp add: run_sys_def rpc_sql_unset_def sys_sql_unset_def)
qed

section \<open>A running manager\<close>

text \<open>The state with the formats of \<^verbatim>\<open>master_config.json\<close> and a short range of ports, used by the witnesses.\<close>

definition demo_sys :: sys_state where
  "demo_sys = sys_init\<lparr>zmq_s_format := ''ipc:///tmp/llm/%i.sock'', zmq_c_format := ''ipc:///tmp/llm/%i.sock'',
     port_list_start := 5010, port_list := [False, False, False]\<rparr>"

lemma literal_parts: "literal ''ipc:///tmp/llm/''" "literal ''.sock''"
  by (simp_all add: literal_def is_space_def)

lemma demo_format: "one_conv ''ipc:///tmp/llm/%i.sock'' ''ipc:///tmp/llm/'' ''.sock''"
  using literal_parts by (simp add: one_conv_def hex_val_def)

lemma demo_fmt_ok: "fmt_ok ''ipc:///tmp/llm/%i.sock''"
  using demo_format unfolding fmt_ok_def by auto

lemma demo_sys_inv: "sys_inv demo_sys"
  using demo_fmt_ok
  by (simp add: sys_inv_def config_ok_def demo_sys_def sys_init_def heap_slots_def is_int32_def)

lemma demo_env_up: "zmq_up demo_env"
  by (simp add: zmq_up_def demo_env_def)

lemma demo_allocates: "\<exists>p st1. sys_allocate_unit demo_env ''llm'' demo_sys = Inr (p, st1)"
proof (rule sys_allocate_unit_total [OF _ demo_env_up])
  show "config_ok demo_sys" using demo_sys_inv by (simp add: sys_inv_def)
  show "printable ''llm''" by (simp add: printable_def)
  show "0 < length (port_list demo_sys)" "1 < length (port_list demo_sys)" "(0::nat) \<noteq> 1"
    "\<not> port_list demo_sys ! 0" "\<not> port_list demo_sys ! 1"
    by (simp_all add: demo_sys_def)
qed

section \<open>Properties\<close>

text \<open>
  C10. A unit that was allocated can be released by its work identifier: the release succeeds, every
  port is marked as before the allocation, the object is gone, and so are its two keys.
\<close>

theorem allocate_release_roundtrip:
  assumes inv: "sys_inv st" and a: "sys_allocate_unit env unit st = Inr (p, st1)"
  shows "\<exists>st2. let wid = unit @ ''.'' @ to_string (work_id_number_counter st) in
    sys_release_unit env wid st1 = Inr (0, st2) \<and> port_list st2 = port_list st \<and>
    unit_heap st2 = unit_heap st \<and>
    map_of (key_sql st2) = (map_of (key_sql st))(wid := None, wid @ ''.out_port'' := None)"
proof -
  have "config_ok st" using inv by (simp add: sys_inv_def)
  from sys_allocate_unit_Inr [OF this a] obtain i j u where
    u: "fresh_unit unit i j u st" and st1: "st1 = allocated i j u st" by blast
  let ?wid = "unit @ ''.'' @ to_string (work_id_number_counter st)"
  have inv1: "sys_inv st1" using sys_inv_allocated [OF inv u] st1 by simp
  have wid: "work_id u = ?wid" using u by (simp add: fresh_unit_def)
  have k: "map_of (key_sql st1) ?wid = Some (AUnit (next_addr st))"
    using st1 wid by (simp add: allocated_def safe_setting_def)
  have h: "map_of (unit_heap st1) (next_addr st) = Some u" "unit_slots st1 u = [Some i, Some j]"
    using st1 u by (simp_all add: allocated_def safe_setting_def unit_slots_def fresh_unit_def)
  have "next_addr st \<notin> fst ` set (unit_heap st)" using inv by (auto simp: sys_inv_def)
  then have heap: "umap_erase (next_addr st) (umap_set (next_addr st) u (unit_heap st)) = unit_heap st"
    by (simp add: delete_update_same umap_erase_fresh)
  have ports: "(port_list st)[i := True, j := True, i := False, j := False] = port_list st"
    using u by (auto simp: fresh_unit_def list_eq_iff_nth_eq nth_list_update)
  from sys_release_unit_live [OF inv1 k, of env] h
  have "sys_release_unit env ?wid st1 = Inr (0, released ?wid (next_addr st) i j st1)" by auto
  moreover have "port_list (released ?wid (next_addr st) i j st1) = port_list st"
    using st1 ports by (simp add: released_def safe_erase_def allocated_def safe_setting_def)
  moreover have "unit_heap (released ?wid (next_addr st) i j st1) = unit_heap st"
    using st1 heap by (simp add: released_def safe_erase_def allocated_def safe_setting_def)
  moreover have "map_of (key_sql (released ?wid (next_addr st) i j st1)) =
      (map_of (key_sql st))(?wid := None, ?wid @ ''.out_port'' := None)"
    using st1 wid by (auto simp: released_def safe_erase_def allocated_def safe_setting_def fun_eq_iff)
  ultimately show ?thesis unfolding Let_def by blast
qed

theorem allocate_release_roundtrip_witness:
  "\<exists>p st1 st2. sys_allocate_unit demo_env ''llm'' demo_sys = Inr (p, st1) \<and>
     sys_release_unit demo_env ''llm.0'' st1 = Inr (0, st2) \<and> port_list st2 = [False, False, False]"
proof -
  obtain p st1 where a: "sys_allocate_unit demo_env ''llm'' demo_sys = Inr (p, st1)"
    using demo_allocates by blast
  have "''llm'' @ ''.'' @ to_string (work_id_number_counter demo_sys) = ''llm.0''"
    by (simp add: demo_sys_def sys_init_def to_string_def nat_to_string_zero)
  with allocate_release_roundtrip [OF demo_sys_inv a] a show ?thesis
    by (auto simp: Let_def demo_sys_def)
qed

text \<open>
  The reply to \<^verbatim>\<open>register_unit\<close> carries the new unit: its nested parameters unpack to the work
  number and the two addresses, as the node's side unpacks them, provided the output address fits
  the length byte. The two addresses name two different ports that were free before, both within
  the configured range.
\<close>

theorem register_unit_reply:
  assumes inv: "sys_inv st" and r: "rpc_allocate_unit env raw st = (Inr rep, st')"
  shows "\<exists>i j u. fresh_unit (pzmq_data_string raw) i j u st \<and> st' = allocated i j u st \<and>
    (length (output_url u) \<le> param0_limit sc \<and> length (inference_url u) \<le> 2147483000 \<longrightarrow>
     get_param sc 0 rep d = Inr (to_string (work_id_number_counter st)) \<and>
     bind_res (get_param sc 1 rep d) (\<lambda>s. get_param sc 0 s d) = Inr (output_url u) \<and>
     bind_res (get_param sc 1 rep d) (\<lambda>s. get_param sc 1 s d) = Inr (inference_url u))"
proof -
  have cfg: "config_ok st" using inv by (simp add: sys_inv_def)
  from rpc_allocate_unit_eq [OF cfg, of env raw] r obtain i j u where
    u: "fresh_unit (pzmq_data_string raw) i j u st" "st' = allocated i j u st"
    and rep: "rep = set_param (to_string (unit_port u)) (set_param (output_url u) (inference_url u))" by auto
  have n: "unit_port u = work_id_number_counter st" using u by (simp add: fresh_unit_def)
  have "length (to_string (unit_port u)) \<le> 11"
    using cfg n by (intro length_to_string) (simp add: config_ok_def)
  then have l0: "length (to_string (unit_port u)) \<le> param0_limit sc" "length (to_string (unit_port u)) \<le> 11"
    by (simp_all add: param0_limit_def)
  have "get_param sc 0 rep d = Inr (to_string (work_id_number_counter st)) \<and>
     get_param sc 1 rep d = Inr (set_param (output_url u) (inference_url u)) \<and>
     get_param sc 0 (set_param (output_url u) (inference_url u)) d = Inr (output_url u) \<and>
     get_param sc 1 (set_param (output_url u) (inference_url u)) d = Inr (inference_url u)"
    if "length (output_url u) \<le> param0_limit sc" "length (inference_url u) \<le> 2147483000"
  proof -
    have "length (output_url u) \<le> 255" using that(1) by (simp add: param0_limit_def split: if_splits)
    then have "length (to_string (unit_port u)) + length (set_param (output_url u) (inference_url u)) < 2147483647"
      "length (output_url u) + length (inference_url u) < 2147483647"
      using that(2) l0(2) by (simp_all add: length_set_param)
    with get_param_packed [OF l0(1), of _ rep d] get_param_packed [OF that(1), of _ "set_param (output_url u) (inference_url u)" d]
    show ?thesis using rep n by simp
  qed
  with u show ?thesis by (intro exI [of _ i] exI [of _ j] exI [of _ u]) auto
qed

theorem register_unit_reply_witness:
  "\<exists>rep st' i j u. rpc_allocate_unit demo_env \<lparr>msg = ''llm''\<rparr> demo_sys = (Inr rep, st') \<and>
     fresh_unit ''llm'' i j u demo_sys \<and> st' = allocated i j u demo_sys"
proof -
  obtain p st1 where a: "sys_allocate_unit demo_env ''llm'' demo_sys = Inr (p, st1)"
    using demo_allocates by blast
  have "config_ok demo_sys" using demo_sys_inv by (simp add: sys_inv_def)
  from rpc_allocate_unit_eq [OF this, of demo_env "\<lparr>msg = ''llm''\<rparr>"] sys_allocate_unit_Inr [OF this a] a
  obtain rep st' where "rpc_allocate_unit demo_env \<lparr>msg = ''llm''\<rparr> demo_sys = (Inr rep, st')"
    by (auto simp: rpc_allocate_unit_def pzmq_data_string_def allocated_def safe_setting_def)
  with register_unit_reply [OF demo_sys_inv this] show ?thesis
    by (auto simp: pzmq_data_string_def) (metis)
qed

lemma find_port_one_free:
  assumes "length (filter Not bs) < 2" and "find_port 0 bs = Some (i, bs')"
  shows "find_port 0 bs' = None"
proof -
  from find_port_Some [OF assms(2)] have i: "i < length bs" "\<not> bs ! i" "bs' = bs[i := True]" by auto
  have "bs = take i bs @ False # drop (Suc i) bs" using i(1,2) id_take_nth_drop [of i bs] by simp
  then have "filter Not bs = filter Not (take i bs) @ False # filter Not (drop (Suc i) bs)"
    by (metis filter.simps(2) filter_append)
  with assms(1) have "filter Not (take i bs) = []" "filter Not (drop (Suc i) bs) = []" by auto
  moreover have "bs' = take i bs @ True # drop (Suc i) bs" using i by (simp add: upd_conv_take_nth_drop)
  ultimately show ?thesis by (auto simp: find_port_None filter_empty_conv)
qed

text \<open>
  C40. With fewer than two free ports an allocation reads an uninitialised variable: nothing checks
  that the search found a port.
\<close>

theorem allocate_exhausted_undefined:
  assumes "config_ok st" and "printable unit" and "length (filter Not (port_list st)) < 2"
  shows "sys_allocate_unit env unit st = Inl Undefined_Behaviour"
proof -
  let ?st1 = "st\<lparr>next_addr := next_addr st + 1, work_id_number_counter := to_int32 (work_id_number_counter st + 1)\<rparr>"
  have "allocate_url unit ''.output_url'' ?st1 = Inl Undefined_Behaviour \<or>
    (\<exists>out st2. allocate_url unit ''.output_url'' ?st1 = Inr (out, st2) \<and>
       allocate_url unit ''.inference_url'' st2 = Inl Undefined_Behaviour)"
  proof (cases "find_port 0 (port_list st)")
    case None
    then show ?thesis by (simp add: allocate_url_def)
  next
    case (Some r)
    then have "\<not> (\<forall>b \<in> set (port_list st). b)" by (metis find_port_None option.distinct(1))
    then have "False \<in> set (port_list ?st1)" by auto
    with allocate_url_total [of ?st1 unit "''.output_url''"] assms(1,2)
    obtain out st2 where o: "allocate_url unit ''.output_url'' ?st1 = Inr (out, st2)"
      by (auto simp: config_ok_def printable_def)
    then have "st2 = ?st1\<lparr>port_list := snd r\<rparr>"
      using Some by (cases r) (auto simp: allocate_url_def Let_def res_simps)
    with find_port_one_free [OF assms(3), of "fst r" "snd r"] Some o show ?thesis
      by (simp add: allocate_url_def)
  qed
  then show ?thesis by (auto simp: sys_allocate_unit_def Let_def)
qed

theorem allocate_exhausted_undefined_witness:
  "sys_allocate_unit demo_env ''llm'' (demo_sys\<lparr>port_list := [True, False, True]\<rparr>) = Inl Undefined_Behaviour"
  by (rule allocate_exhausted_undefined)
    (use demo_fmt_ok in \<open>simp_all add: config_ok_def demo_sys_def sys_init_def is_int32_def printable_def\<close>)

text \<open>
  The unit's name is pasted into the format: with a format that names a socket file, a name that
  contains a \<^verbatim>\<open>%i\<close> or \<^verbatim>\<open>%d\<close> makes \<^verbatim>\<open>sprintf\<close> read an argument that was not passed.
\<close>

theorem allocate_name_is_format:
  assumes "config_ok st" and "str_find (zmq_s_format st) ''sock'' 0 \<noteq> None"
    and "unit = a @ CHR ''%'' # d # b" and "printable a" and "d = CHR ''i'' \<or> d = CHR ''d''"
  shows "sys_allocate_unit env unit st = Inl Undefined_Behaviour"
proof -
  let ?st1 = "st\<lparr>next_addr := next_addr st + 1, work_id_number_counter := to_int32 (work_id_number_counter st + 1)\<rparr>"
  from assms(1) obtain pre suf where "one_conv (zmq_s_format st) pre suf" by (auto simp: config_ok_def fmt_ok_def)
  then obtain c where c: "zmq_s_format st = pre @ CHR ''%'' # c # suf" "c = CHR ''i'' \<or> c = CHR ''d''"
    and lit: "printable pre" "printable suf"
    by (auto simp: one_conv_def literal_printable)
  let ?s = "pre @ CHR ''%'' # c # suf @ ''.'' @ a @ CHR ''%'' # [d]"
  let ?r = "b @ ''.output_url''"
  have f: "unit_url_format (zmq_s_format st) unit ''.output_url'' = ?s @ ?r"
    using c(1) assms(2,3) by (simp add: unit_url_format_def)
  have "CHR 0x00 \<notin> set ?s" using c(2) lit assms(4,5) printable_no_zero by auto
  then have cs: "c_str (?s @ ?r) = pre @ CHR ''%'' # c # (suf @ ''.'' @ a) @ CHR ''%'' # d # c_str ?r"
    by (subst c_str_append) simp_all
  have "printable (suf @ ''.'' @ a)" using lit(2) assms(4) by (simp add: printable_def)
  then have "sprintf_go (c_str (?s @ ?r)) (Some v) = Inl Undefined_Behaviour" for v
    unfolding cs using lit(1) c(2) assms(5) sprintf_go_plain [of "suf @ ''.'' @ a" "CHR ''%'' # d # c_str ?r" None]
    by (auto simp: sprintf_go_plain [of pre])
  then have "allocate_url unit ''.output_url'' ?st1 = Inl Undefined_Behaviour"
    using f by (auto simp: allocate_url_def sprintf_i_def Let_def split: option.split)
  then show ?thesis by (simp add: sys_allocate_unit_def Let_def)
qed

theorem allocate_name_is_format_witness:
  "sys_allocate_unit demo_env ''u%i'' demo_sys = Inl Undefined_Behaviour"
  by (rule allocate_name_is_format [of _ _ "''u''" "CHR ''i''" "[]"])
    (use demo_sys_inv in \<open>simp_all add: sys_inv_def demo_sys_def str_find_def printable_def\<close>)

end
