(* ===== verification/JsonDump.thy ===== *)
theory JsonDump
  imports Dt_Prelude "HOL-Library.Char_ord" "HOL-Library.List_Lexorder"
begin

unbundle bit_operations_syntax

text \<open>
  The printer of the JSON library in \<^verbatim>\<open>src/utils/json.hpp\<close>, as \<^verbatim>\<open>basic_json::dump()\<close> runs it: the values,
  the UTF-8 automaton \<^verbatim>\<open>decode\<close>, the escaping of strings through a buffer of 512 bytes with its three
  ways to handle invalid input, integers printed two digits at a time, and the printing of values without
  indentation.
  The lemmas show that the automaton accepts exactly the well-formed UTF-8 of RFC 3629, that the buffers
  are never overrun and leave no trace in the text, and that integers are printed as \<^verbatim>\<open>std::to_string\<close> does.
\<close>

section \<open>Values\<close>

text \<open>
  A floating-point number is represented by the literal it was read from; the program prints none.
  An object is the sequence of its assignments, of which \<^verbatim>\<open>std::map\<close> keeps the last for each key.
\<close>

datatype json = JNull | JBool bool | JNum int | JFloat string | JStr string | JArr "json list" | JObj "(string \<times> json) list"

text \<open>The text of an exception of the library.\<close>

definition exception_name :: "string \<Rightarrow> int \<Rightarrow> string" where
  "exception_name ename err_id = ''[json.exception.'' @ ename @ ''.'' @ to_string err_id @ ''] ''"

definition type_error :: "int \<Rightarrow> string \<Rightarrow> cxx_error" where
  "type_error err_id what_arg = Json_Exception (exception_name ''type_error'' err_id @ what_arg)"

definition out_of_range :: "int \<Rightarrow> string \<Rightarrow> cxx_error" where
  "out_of_range err_id what_arg = Json_Exception (exception_name ''out_of_range'' err_id @ what_arg)"

section \<open>The UTF-8 automaton\<close>

definition UTF8_ACCEPT :: nat where
  "UTF8_ACCEPT = 0"

definition UTF8_REJECT :: nat where
  "UTF8_REJECT = 1"

text \<open>The table: the class of each byte, then nine rows of successor states, one per state.\<close>

definition utf8_rows :: "nat list" where
  "utf8_rows =
     replicate 128 0 @
     replicate 16 1 @ replicate 16 9 @
     replicate 32 7 @
     replicate 2 8 @ replicate 30 2 @
     [10, 3, 3, 3, 3, 3, 3, 3, 3, 3, 3, 3, 3, 4, 3, 3] @
     [11, 6, 6, 6, 5, 8, 8, 8, 8, 8, 8, 8, 8, 8, 8, 8]"

definition utf8d :: "nat list" where
  "utf8d = utf8_rows @
     [0, 1, 2, 3, 5, 8, 7, 1, 1, 1, 4, 6, 1, 1, 1, 1,
      1, 1, 1, 1, 1, 1, 1, 1, 1, 1, 1, 1, 1, 1, 1, 1,
      1, 0, 1, 1, 1, 1, 1, 0, 1, 0, 1, 1, 1, 1, 1, 1,
      1, 2, 1, 1, 1, 1, 1, 2, 1, 2, 1, 1, 1, 1, 1, 1,
      1, 1, 1, 1, 1, 1, 1, 2, 1, 1, 1, 1, 1, 1, 1, 1,
      1, 2, 1, 1, 1, 1, 1, 1, 1, 2, 1, 1, 1, 1, 1, 1,
      1, 1, 1, 1, 1, 1, 1, 3, 1, 3, 1, 1, 1, 1, 1, 1,
      1, 3, 1, 1, 1, 1, 1, 3, 1, 3, 1, 1, 1, 1, 1, 1,
      1, 3, 1, 1, 1, 1, 1, 1, 1, 1, 1, 1, 1, 1, 1, 1]"

text \<open>The new state and the new code point (a 32-bit number).\<close>

definition decode :: "nat \<Rightarrow> nat \<Rightarrow> nat \<Rightarrow> (nat \<times> nat) res" where
  "decode state codep byte =
     cxx_assert (byte < length utf8d)
      (let type = utf8d ! byte;
           codep' = (if state \<noteq> UTF8_ACCEPT then (byte AND 0x3F) OR (push_bit 6 codep mod 2 ^ 32)
                     else drop_bit type 0xFF AND byte);
           index = 256 + state * 16 + type
       in cxx_assert (index < length utf8d) (Inr (utf8d ! index, codep')))"

section \<open>Escaping strings\<close>

definition nibble_to_hex :: "nat \<Rightarrow> char" where
  "nibble_to_hex n = ''0123456789ABCDEF'' ! n"

definition hex_bytes :: "nat \<Rightarrow> string" where
  "hex_bytes byte = [nibble_to_hex (byte div 16), nibble_to_hex (byte mod 16)]"

text \<open>The conversion \<^verbatim>\<open>\u%04x\<close> of \<^verbatim>\<open>snprintf\<close> for a 16-bit number.\<close>

definition lower_hex :: "nat \<Rightarrow> char" where
  "lower_hex n = ''0123456789abcdef'' ! n"

definition u04x :: "nat \<Rightarrow> string" where
  "u04x n = [CHR 0x5C, CHR ''u'', lower_hex (n div 4096 mod 16), lower_hex (n div 256 mod 16),
             lower_hex (n div 16 mod 16), lower_hex (n mod 16)]"

datatype error_handler_t = Strict | Replace | Ignore

text \<open>
  The bytes for an accepted code point whose last byte is \<open>c\<close>.
\<close>

definition escape_cp :: "bool \<Rightarrow> nat \<Rightarrow> char \<Rightarrow> string" where
  "escape_cp ensure_ascii codepoint c =
     (if codepoint = 0x08 then [CHR 0x5C, CHR ''b'']
      else if codepoint = 0x09 then [CHR 0x5C, CHR ''t'']
      else if codepoint = 0x0A then [CHR 0x5C, CHR ''n'']
      else if codepoint = 0x0C then [CHR 0x5C, CHR ''f'']
      else if codepoint = 0x0D then [CHR 0x5C, CHR ''r'']
      else if codepoint = 0x22 then [CHR 0x5C, CHR 0x22]
      else if codepoint = 0x5C then [CHR 0x5C, CHR 0x5C]
      else if codepoint \<le> 0x1F \<or> ensure_ascii \<and> codepoint \<ge> 0x7F
      then (if codepoint \<le> 0xFFFF then u04x (codepoint mod 65536)
            else u04x ((0xD7C0 + drop_bit 10 codepoint) mod 65536) @ u04x ((0xDC00 + (codepoint AND 0x3FF)) mod 65536))
      else [c])"

text \<open>
  A write of \<open>w\<close> at the end of the bytes in \<^verbatim>\<open>string_buffer\<close> (an array of 512) that touches \<open>extra\<close> more
  bytes: \<^verbatim>\<open>snprintf\<close> also writes the terminator.
\<close>

definition buf_write :: "nat \<Rightarrow> string \<Rightarrow> string \<Rightarrow> string res" where
  "buf_write extra w buf = (if length buf + length w + extra \<le> 512 then Inr (buf @ w) else Inl Undefined_Behaviour)"

definition by_snprintf :: "string \<Rightarrow> nat" where
  "by_snprintf w = (if 6 \<le> length w then 1 else 0)"

text \<open>The buffer is handed to the output when fewer than 13 bytes are left.\<close>

definition flush13 :: "string \<Rightarrow> string \<Rightarrow> string \<times> string" where
  "flush13 buf out = (if 512 - length buf < 13 then ([], out @ buf) else (buf, out))"

text \<open>The local variables of \<^verbatim>\<open>dump_escaped\<close> and the output so far; \<^verbatim>\<open>bytes\<close> is the length of \<open>es_buf\<close>.\<close>

record esc =
  es_state :: nat
  es_codepoint :: nat
  es_buf :: string
  es_last_accept :: nat
  es_undumped :: nat
  es_out :: string

definition replacement :: "bool \<Rightarrow> string" where
  "replacement ensure_ascii = (if ensure_ascii then [CHR 0x5C, CHR ''u'', CHR ''f'', CHR ''f'', CHR ''f'', CHR ''d''] else [CHR 0xEF, CHR 0xBF, CHR 0xBD])"

text \<open>An accepted code point that ends with the byte \<open>c\<close>.\<close>

definition esc_accept :: "bool \<Rightarrow> nat \<Rightarrow> char \<Rightarrow> esc \<Rightarrow> esc res" where
  "esc_accept ensure_ascii codepoint c e =
     (let w = escape_cp ensure_ascii codepoint c
      in bind_res (buf_write (by_snprintf w) w (es_buf e)) (\<lambda>b.
         let (b', o') = flush13 b (es_out e)
         in Inr \<lparr>es_state = UTF8_ACCEPT, es_codepoint = codepoint, es_buf = b', es_last_accept = length b',
                 es_undumped = 0, es_out = o'\<rparr>))"

text \<open>An invalid byte, where it is not an error: back to the last accepted byte.\<close>

definition esc_reject :: "bool \<Rightarrow> bool \<Rightarrow> nat \<Rightarrow> esc \<Rightarrow> esc res" where
  "esc_reject rep ensure_ascii codepoint e =
     (let b = take (es_last_accept e) (es_buf e);
          e0 = \<lparr>es_state = UTF8_ACCEPT, es_codepoint = codepoint, es_buf = b, es_last_accept = es_last_accept e,
                es_undumped = 0, es_out = es_out e\<rparr>
      in if rep
         then bind_res (buf_write 0 (replacement ensure_ascii) b) (\<lambda>b1.
                let (b', o') = flush13 b1 (es_out e)
                in Inr (e0\<lparr>es_buf := b', es_last_accept := length b', es_out := o'\<rparr>))
         else Inr e0)"

text \<open>A byte inside a sequence.\<close>

definition esc_partial :: "bool \<Rightarrow> nat \<Rightarrow> nat \<Rightarrow> char \<Rightarrow> esc \<Rightarrow> esc res" where
  "esc_partial ensure_ascii state codepoint c e =
     bind_res (if ensure_ascii then Inr (es_buf e) else buf_write 0 [c] (es_buf e)) (\<lambda>b.
       Inr (e\<lparr>es_state := state, es_codepoint := codepoint, es_buf := b, es_undumped := Suc (es_undumped e)\<rparr>))"

lemma esc_reject_undumped: "esc_reject r a cp e = Inr e' \<Longrightarrow> es_undumped e' = 0"
  by (auto simp: esc_reject_def Let_def res_simps case_prod_beta split: if_splits)

text \<open>The loop, at index \<open>i\<close> with the bytes from there on. A rejected byte inside a sequence is read again.\<close>

function dump_escaped_loop :: "error_handler_t \<Rightarrow> bool \<Rightarrow> nat \<Rightarrow> string \<Rightarrow> esc \<Rightarrow> esc res" where
  "dump_escaped_loop eh ensure_ascii i [] e = Inr e"
| "dump_escaped_loop eh ensure_ascii i (c # cs) e =
     bind_res (decode (es_state e) (es_codepoint e) (of_char c)) (\<lambda>(state, codepoint).
       if state = UTF8_ACCEPT
       then bind_res (esc_accept ensure_ascii codepoint c e) (\<lambda>e'. dump_escaped_loop eh ensure_ascii (Suc i) cs e')
       else if state = UTF8_REJECT
       then (if eh = Strict
             then Inl (type_error 316 (''invalid UTF-8 byte at index '' @ to_string (int i) @ '': 0x'' @ hex_bytes (of_char c)))
             else bind_res (esc_reject (eh = Replace) ensure_ascii codepoint e) (\<lambda>e'.
                    if es_undumped e > 0 then dump_escaped_loop eh ensure_ascii i (c # cs) e'
                    else dump_escaped_loop eh ensure_ascii (Suc i) cs e'))
       else bind_res (esc_partial ensure_ascii state codepoint c e) (\<lambda>e'. dump_escaped_loop eh ensure_ascii (Suc i) cs e'))"
  by pat_completeness auto

termination
  by (relation "measures [\<lambda>(_, _, _, s, _). length s, \<lambda>(_, _, _, _, e). es_undumped e]") (auto dest: esc_reject_undumped)

definition esc_init :: "string \<Rightarrow> esc" where
  "esc_init out = \<lparr>es_state = UTF8_ACCEPT, es_codepoint = 0, es_buf = [], es_last_accept = 0, es_undumped = 0, es_out = out\<rparr>"

definition dump_escaped :: "error_handler_t \<Rightarrow> string \<Rightarrow> bool \<Rightarrow> string \<Rightarrow> string res" where
  "dump_escaped eh s ensure_ascii out =
     bind_res (dump_escaped_loop eh ensure_ascii 0 s (esc_init out)) (\<lambda>e.
       if es_state e = UTF8_ACCEPT then Inr (es_out e @ es_buf e)
       else case eh of
              Strict \<Rightarrow> Inl (type_error 316 (''incomplete UTF-8 string; last byte: 0x'' @ hex_bytes (of_char (last s))))
            | Ignore \<Rightarrow> Inr (es_out e @ take (es_last_accept e) (es_buf e))
            | Replace \<Rightarrow> Inr (es_out e @ take (es_last_accept e) (es_buf e) @ replacement ensure_ascii))"

section \<open>Well-formed UTF-8\<close>

text \<open>
  The reference definition, from the table of well-formed byte sequences of RFC 3629: after the first byte
  of a sequence, the ranges in which the other bytes have to be.
\<close>

abbreviation tail_range :: "nat \<times> nat" where
  "tail_range \<equiv> (0x80, 0xBF)"

definition utf8_start :: "nat \<Rightarrow> (nat \<times> nat) list option" where
  "utf8_start b =
     (if b \<le> 0x7F then Some []
      else if 0xC2 \<le> b \<and> b \<le> 0xDF then Some [tail_range]
      else if b = 0xE0 then Some [(0xA0, 0xBF), tail_range]
      else if b = 0xED then Some [(0x80, 0x9F), tail_range]
      else if 0xE1 \<le> b \<and> b \<le> 0xEF then Some [tail_range, tail_range]
      else if b = 0xF0 then Some [(0x90, 0xBF), tail_range, tail_range]
      else if 0xF1 \<le> b \<and> b \<le> 0xF3 then Some [tail_range, tail_range, tail_range]
      else if b = 0xF4 then Some [(0x80, 0x8F), tail_range, tail_range]
      else None)"

definition in_range :: "nat \<times> nat \<Rightarrow> char \<Rightarrow> bool" where
  "in_range r c \<longleftrightarrow> fst r \<le> of_char c \<and> of_char c \<le> snd r"

fun utf8_tail :: "(nat \<times> nat) list \<Rightarrow> string \<Rightarrow> bool" where
  "utf8_tail [] [] = True"
| "utf8_tail (r # rs) [] = False"
| "utf8_tail (r # rs) (c # cs) = (in_range r c \<and> utf8_tail rs cs)"
| "utf8_tail [] (c # cs) = (case utf8_start (of_char c) of None \<Rightarrow> False | Some rs \<Rightarrow> utf8_tail rs cs)"

definition utf8 :: "string \<Rightarrow> bool" where
  "utf8 s = utf8_tail [] s"

text \<open>The same as a grammar: a string is well-formed when it is a concatenation of sequences of the table.\<close>

definition utf8_seq :: "string \<Rightarrow> bool" where
  "utf8_seq w = (case w of [] \<Rightarrow> False | c # cs \<Rightarrow> (case utf8_start (of_char c) of None \<Rightarrow> False | Some rs \<Rightarrow> list_all2 in_range rs cs))"

lemma utf8_tail_app: "list_all2 in_range rs cs \<Longrightarrow> utf8_tail rs (cs @ s) = utf8_tail [] s"
  by (induction rs cs rule: list_all2_induct) simp_all

lemma utf8_tail_parts:
  "utf8_tail rs s \<longleftrightarrow> (\<exists>cs ws. list_all2 in_range rs cs \<and> (\<forall>w \<in> set ws. utf8_seq w) \<and> s = cs @ concat ws)"
proof
  show "utf8_tail rs s \<Longrightarrow> \<exists>cs ws. list_all2 in_range rs cs \<and> (\<forall>w \<in> set ws. utf8_seq w) \<and> s = cs @ concat ws"
  proof (induction rs s rule: utf8_tail.induct)
    case 1
    have "[] = [] @ concat []" by simp
    then show ?case by (metis empty_iff list.rel_intros(1) list.set(1))
  next
    case (3 r rs c cs)
    then obtain ds ws where "list_all2 in_range rs ds" "\<forall>w \<in> set ws. utf8_seq w" "cs = ds @ concat ws" by auto
    with 3 have "list_all2 in_range (r # rs) (c # ds)" "c # cs = (c # ds) @ concat ws" by auto
    with \<open>\<forall>w \<in> set ws. utf8_seq w\<close> show ?case by blast
  next
    case (4 c cs)
    then obtain rs where rs: "utf8_start (of_char c) = Some rs" "utf8_tail rs cs" by (auto split: option.splits)
    with 4 obtain ds ws where d: "list_all2 in_range rs ds" "\<forall>w \<in> set ws. utf8_seq w" "cs = ds @ concat ws" by blast
    with rs have "utf8_seq (c # ds)" by (simp add: utf8_seq_def)
    with d have "\<forall>w \<in> set ((c # ds) # ws). utf8_seq w" "c # cs = [] @ concat ((c # ds) # ws)" by simp_all
    then show ?case by blast
  qed simp
next
  have w: "\<forall>w \<in> set ws. utf8_seq w \<Longrightarrow> utf8_tail [] (concat ws)" for ws
  proof (induction ws)
    case (Cons w ws)
    then obtain c cs rs where "w = c # cs" "utf8_start (of_char c) = Some rs" "list_all2 in_range rs cs"
      by (auto simp: utf8_seq_def split: list.splits option.splits)
    with Cons show ?case by (simp add: utf8_tail_app)
  qed simp
  show "\<exists>cs ws. list_all2 in_range rs cs \<and> (\<forall>w \<in> set ws. utf8_seq w) \<and> s = cs @ concat ws \<Longrightarrow> utf8_tail rs s"
    using w utf8_tail_app by auto
qed

lemma utf8_grammar: "utf8 s \<longleftrightarrow> (\<exists>ws. (\<forall>w \<in> set ws. utf8_seq w) \<and> s = concat ws)"
  unfolding utf8_def utf8_tail_parts by auto

section \<open>The automaton accepts well-formed UTF-8\<close>

definition byte_class :: "nat \<Rightarrow> nat" where
  "byte_class b =
     (if b < 0x80 then 0 else if b < 0x90 then 1 else if b < 0xA0 then 9 else if b < 0xC0 then 7
      else if b < 0xC2 then 8 else if b < 0xE0 then 2 else if b = 0xE0 then 10 else if b = 0xED then 4
      else if b < 0xF0 then 3 else if b = 0xF0 then 11 else if b < 0xF4 then 6 else if b = 0xF4 then 5 else 8)"

lemma utf8_rows_length: "length utf8_rows = 256"
  by (simp add: utf8_rows_def)

lemma utf8d_length: "length utf8d = 400"
  by (simp add: utf8d_def utf8_rows_length)

lemma map_const_upt:
  assumes "\<And>x. i \<le> x \<Longrightarrow> x < j \<Longrightarrow> f x = k"
  shows "map f [i..<j] = replicate (j - i) k"
  using assms by (intro nth_equalityI) simp_all

lemma upt_split: "i \<le> j \<Longrightarrow> j \<le> k \<Longrightarrow> [i..<k] = [i..<j] @ [j..<k]"
proof -
  assume "i \<le> j" "j \<le> k"
  then show ?thesis using upt_add_eq_append [of i j "k - j"] by simp
qed

lemma utf8_rows_class: "utf8_rows = map byte_class [0..<256]"
proof -
  have "[0..<256] = [0..<0x80] @ [0x80..<0x90] @ [0x90..<0xA0] @ [0xA0..<0xC0] @ [0xC0..<0xC2] @ [0xC2..<0xE0] @ [0xE0..<0x100]"
    by (subst upt_split [of _ "0x80"], simp, simp, subst upt_split [of "0x80" "0x90"], simp, simp,
        subst upt_split [of "0x90" "0xA0"], simp, simp, subst upt_split [of "0xA0" "0xC0"], simp, simp,
        subst upt_split [of "0xC0" "0xC2"], simp, simp, subst upt_split [of "0xC2" "0xE0"], simp, simp, rule refl)
  moreover have "map byte_class [0..<0x80] = replicate (0x80 - 0) 0" "map byte_class [0x80..<0x90] = replicate (0x90 - 0x80) 1"
    "map byte_class [0x90..<0xA0] = replicate (0xA0 - 0x90) 9" "map byte_class [0xA0..<0xC0] = replicate (0xC0 - 0xA0) 7"
    "map byte_class [0xC0..<0xC2] = replicate (0xC2 - 0xC0) 8" "map byte_class [0xC2..<0xE0] = replicate (0xE0 - 0xC2) 2"
    by (rule map_const_upt, simp add: byte_class_def)+
  moreover have "map byte_class [0xE0..<0x100] =
      [10, 3, 3, 3, 3, 3, 3, 3, 3, 3, 3, 3, 3, 4, 3, 3] @ [11, 6, 6, 6, 5, 8, 8, 8, 8, 8, 8, 8, 8, 8, 8, 8]"
    by (simp add: byte_class_def)
  moreover have "(0x80 - 0 :: nat) = 128" "(0x90 - 0x80 :: nat) = 16" "(0xA0 - 0x90 :: nat) = 16" "(0xC0 - 0xA0 :: nat) = 32"
    "(0xC2 - 0xC0 :: nat) = 2" "(0xE0 - 0xC2 :: nat) = 30"
    by simp_all
  ultimately show ?thesis
    unfolding utf8_rows_def by (simp only: map_append)
qed

lemma utf8d_class: "b < 256 \<Longrightarrow> utf8d ! b = byte_class b"
  unfolding utf8d_def by (simp add: nth_append utf8_rows_length) (simp add: utf8_rows_class)

lemma class_mask: "drop_bit t (0xFF :: nat) AND b = b mod 2 ^ (8 - t)"
proof -
  have "(0xFF :: nat) = mask 8" by (simp add: mask_eq_exp_minus_1)
  then have "drop_bit t (0xFF :: nat) AND b = mask (8 - t) AND b" by (simp only: drop_bit_mask_eq)
  then show ?thesis by (simp add: and.commute [of "mask _"] take_bit_eq_mask [symmetric] take_bit_eq_mod)
qed

lemma cont_bits:
  assumes "cp < 2 ^ 26"
  shows "((b :: nat) AND 0x3F) OR (push_bit 6 cp mod 2 ^ 32) = cp * 64 + b mod 64"
proof -
  have "push_bit 6 cp mod 2 ^ 32 = push_bit 6 cp" using assms by (simp add: push_bit_eq_mult)
  moreover have "b AND 0x3F = take_bit 6 b"
    by (simp add: take_bit_eq_mask mask_eq_exp_minus_1)
  moreover have "take_bit 6 b AND push_bit 6 cp = 0"
    by (rule bit_eqI) (auto simp: bit_and_iff bit_take_bit_iff bit_push_bit_iff)
  then have "take_bit 6 b OR push_bit 6 cp = take_bit 6 b + push_bit 6 cp"
    by (simp add: disjunctive_add_eq_or)
  ultimately show ?thesis by (simp add: take_bit_eq_mod push_bit_eq_mult)
qed

text \<open>The states other than acceptance and rejection, by the bytes that are still to come.\<close>

definition state_rest :: "nat \<Rightarrow> (nat \<times> nat) list" where
  "state_rest st =
     (if st = 2 then [tail_range] else if st = 3 then [tail_range, tail_range]
      else if st = 4 then [(0xA0, 0xBF), tail_range] else if st = 5 then [(0x80, 0x9F), tail_range]
      else if st = 6 then [(0x90, 0xBF), tail_range, tail_range] else if st = 7 then [tail_range, tail_range, tail_range]
      else if st = 8 then [(0x80, 0x8F), tail_range, tail_range] else [])"

definition cp_low :: "nat \<Rightarrow> nat" where
  "cp_low st = (if st = 2 then 2 else if st = 4 \<or> st = 6 then 0 else 1)"

definition cp_high :: "nat \<Rightarrow> nat" where
  "cp_high st = (if length (state_rest st) = 3 then 8 else if length (state_rest st) = 2 then 512 else 32768)"

definition inside :: "nat \<Rightarrow> nat \<Rightarrow> bool" where
  "inside st cp \<longleftrightarrow> 2 \<le> st \<and> st \<le> 8 \<and> cp_low st \<le> cp \<and> cp < cp_high st"

lemma decode_eq:
  assumes "st \<le> 8" and "b < 256"
  shows "decode st cp b = Inr (utf8d ! (256 + st * 16 + byte_class b),
           if st \<noteq> 0 then (b AND 0x3F) OR (push_bit 6 cp mod 2 ^ 32) else b mod 2 ^ (8 - byte_class b))"
proof -
  have "byte_class b < 16" by (simp add: byte_class_def)
  with assms show ?thesis
    by (simp add: decode_def Let_def utf8d_length utf8d_class UTF8_ACCEPT_def class_mask)
qed

lemma utf8d_next: "256 + k < 400 \<Longrightarrow> utf8d ! (256 + k) = drop 256 utf8d ! k"
  by (simp add: utf8d_length)

lemma utf8d_states: "drop 256 utf8d =
     [0, 1, 2, 3, 5, 8, 7, 1, 1, 1, 4, 6, 1, 1, 1, 1,
      1, 1, 1, 1, 1, 1, 1, 1, 1, 1, 1, 1, 1, 1, 1, 1,
      1, 0, 1, 1, 1, 1, 1, 0, 1, 0, 1, 1, 1, 1, 1, 1,
      1, 2, 1, 1, 1, 1, 1, 2, 1, 2, 1, 1, 1, 1, 1, 1,
      1, 1, 1, 1, 1, 1, 1, 2, 1, 1, 1, 1, 1, 1, 1, 1,
      1, 2, 1, 1, 1, 1, 1, 1, 1, 2, 1, 1, 1, 1, 1, 1,
      1, 1, 1, 1, 1, 1, 1, 3, 1, 3, 1, 1, 1, 1, 1, 1,
      1, 3, 1, 1, 1, 1, 1, 3, 1, 3, 1, 1, 1, 1, 1, 1,
      1, 3, 1, 1, 1, 1, 1, 1, 1, 1, 1, 1, 1, 1, 1, 1]"
  by (simp add: utf8d_def utf8_rows_length)

text \<open>From the accepting state.\<close>

lemmas start_simps = byte_class_def utf8_start_def utf8d_states state_rest_def inside_def cp_low_def cp_high_def

lemma decode_start:
  assumes "b < 256"
  obtains "utf8_start b = None" "decode 0 cp b = Inr (1, b mod 2 ^ (8 - byte_class b))"
  | "b < 0x80" "utf8_start b = Some []" "decode 0 cp b = Inr (0, b)"
  | st cp' where "utf8_start b = Some (state_rest st)" "decode 0 cp b = Inr (st, cp')" "inside st cp'"
proof -
  have d: "decode 0 cp b = Inr (drop 256 utf8d ! byte_class b, b mod 2 ^ (8 - byte_class b))"
    using decode_eq [of 0 b cp] utf8d_next [of "byte_class b"] assms by (simp add: byte_class_def)
  consider "b < 0x80" | "0x80 \<le> b" "b < 0xC2" | "0xC2 \<le> b" "b < 0xE0" | "b = 0xE0" | "b = 0xED" | "0xE0 < b" "b < 0xF0" "b \<noteq> 0xED"
    | "b = 0xF0" | "0xF0 < b" "b < 0xF4" | "b = 0xF4" | "0xF4 < b" by linarith
  then show thesis
  proof cases
    case 1
    then have "utf8_start b = Some []" "byte_class b = 0" by (simp_all add: start_simps)
    with 1 show ?thesis using that(2) d by (simp add: utf8d_states)
  next
    case 2
    then have "utf8_start b = None" "byte_class b \<in> {1, 9, 7, 8}" by (simp_all add: start_simps)
    then show ?thesis using that(1) d by (elim insertE) (simp_all add: utf8d_states)
  next
    case 3
    then have c: "utf8_start b = Some (state_rest 2)" "drop 256 utf8d ! byte_class b = 2" "2 ^ (8 - byte_class b) = (64 :: nat)"
      by (simp_all add: start_simps)
    have "b mod 64 = b - 192" using 3 by (intro mod_nat_eqI) auto
    then have "inside 2 (b mod 64)" using 3 by (auto simp: inside_def cp_low_def cp_high_def state_rest_def)
    then show ?thesis using that(3) [OF c(1)] d unfolding c(2,3) by blast
  next
    case 6
    then have c: "utf8_start b = Some (state_rest 3)" "drop 256 utf8d ! byte_class b = 3" "2 ^ (8 - byte_class b) = (32 :: nat)"
      by (simp_all add: start_simps)
    have "b mod 32 = b - 224" using 6 by (intro mod_nat_eqI) auto
    then have "inside 3 (b mod 32)" using 6 by (auto simp: inside_def cp_low_def cp_high_def state_rest_def)
    then show ?thesis using that(3) [OF c(1)] d unfolding c(2,3) by blast
  next
    case 8
    then have c: "utf8_start b = Some (state_rest 7)" "drop 256 utf8d ! byte_class b = 7" "2 ^ (8 - byte_class b) = (4 :: nat)"
      by (simp_all add: start_simps)
    have "b mod 4 = b - 240" using 8 by (intro mod_nat_eqI) auto
    then have "inside 7 (b mod 4)" using 8 by (auto simp: inside_def cp_low_def cp_high_def state_rest_def)
    then show ?thesis using that(3) [OF c(1)] d unfolding c(2,3) by blast
  next
    case 4
    then have c: "utf8_start b = Some (state_rest 4)" "drop 256 utf8d ! byte_class b = 4" "b mod 2 ^ (8 - byte_class b) = 0"
      by (simp_all add: start_simps)
    have "inside 4 0" by (simp add: inside_def cp_low_def cp_high_def state_rest_def)
    then show ?thesis using that(3) [OF c(1)] d unfolding c(2,3) by blast
  next
    case 5
    then have c: "utf8_start b = Some (state_rest 5)" "drop 256 utf8d ! byte_class b = 5" "b mod 2 ^ (8 - byte_class b) = 13"
      by (simp_all add: start_simps)
    have "inside 5 13" by (simp add: inside_def cp_low_def cp_high_def state_rest_def)
    then show ?thesis using that(3) [OF c(1)] d unfolding c(2,3) by blast
  next
    case 7
    then have c: "utf8_start b = Some (state_rest 6)" "drop 256 utf8d ! byte_class b = 6" "b mod 2 ^ (8 - byte_class b) = 0"
      by (simp_all add: start_simps)
    have "inside 6 0" by (simp add: inside_def cp_low_def cp_high_def state_rest_def)
    then show ?thesis using that(3) [OF c(1)] d unfolding c(2,3) by blast
  next
    case 9
    then have c: "utf8_start b = Some (state_rest 8)" "drop 256 utf8d ! byte_class b = 8" "b mod 2 ^ (8 - byte_class b) = 4"
      by (simp_all add: start_simps)
    have "inside 8 4" by (simp add: inside_def cp_low_def cp_high_def state_rest_def)
    then show ?thesis using that(3) [OF c(1)] d unfolding c(2,3) by blast
  next
    case 10
    then have "utf8_start b = None" "byte_class b = 8" by (simp_all add: start_simps)
    then show ?thesis using that(1) d by (simp add: utf8d_states)
  qed
qed

text \<open>Inside a sequence.\<close>

definition next_state :: "nat \<Rightarrow> nat" where
  "next_state st = (if st = 2 then 0 else if st \<le> 5 then 2 else 3)"

lemma table_inside:
  assumes "2 \<le> st" and "st \<le> 8"
  shows "drop 256 utf8d ! (st * 16 + byte_class b) =
    (if fst (hd (state_rest st)) \<le> b \<and> b \<le> snd (hd (state_rest st)) then next_state st else 1)"
proof -
  have st: "st \<in> {2, 3, 4, 5, 6, 7, 8}" using assms by auto
  have "b < 0x80 \<or> 0xC0 \<le> b \<Longrightarrow> byte_class b \<in> {0, 2, 3, 4, 5, 6, 8, 10, 11}" "0x80 \<le> b \<Longrightarrow> b < 0x90 \<Longrightarrow> byte_class b = 1"
    "0x90 \<le> b \<Longrightarrow> b < 0xA0 \<Longrightarrow> byte_class b = 9" "0xA0 \<le> b \<Longrightarrow> b < 0xC0 \<Longrightarrow> byte_class b = 7"
    unfolding byte_class_def by auto
  then consider "byte_class b = 1" "0x80 \<le> b" "b < 0x90" | "byte_class b = 9" "0x90 \<le> b" "b < 0xA0"
    | "byte_class b = 7" "0xA0 \<le> b" "b < 0xC0" | "byte_class b \<in> {0, 2, 3, 4, 5, 6, 8, 10, 11}" "b < 0x80 \<or> 0xC0 \<le> b"
    by (meson not_less)
  then show ?thesis
  proof cases
    case 1
    with st show ?thesis by (elim insertE) (simp_all add: utf8d_states state_rest_def next_state_def)
  next
    case 2
    with st show ?thesis by (elim insertE) (simp_all add: utf8d_states state_rest_def next_state_def)
  next
    case 3
    with st show ?thesis by (elim insertE) (simp_all add: utf8d_states state_rest_def next_state_def)
  next
    case 4
    have "fst (hd (state_rest st)) \<ge> 0x80" "snd (hd (state_rest st)) < 0xC0" using st by (auto simp: state_rest_def)
    with 4(2) have "\<not> (fst (hd (state_rest st)) \<le> b \<and> b \<le> snd (hd (state_rest st)))" by linarith
    moreover have "drop 256 utf8d ! (st * 16 + byte_class b) = 1"
      using st 4(1) unfolding utf8d_states by (elim insertE) simp_all
    ultimately show ?thesis by presburger
  qed
qed

lemma next_inside:
  assumes "inside st cp" and "state_rest st = r # rs" and "fst r \<le> b" and "b \<le> snd r"
  shows "next_state st = 0 \<and> rs = [] \<and> 0x80 \<le> cp * 64 + b mod 64 \<or>
    next_state st \<notin> {0, 1} \<and> rs = state_rest (next_state st) \<and> inside (next_state st) (cp * 64 + b mod 64)"
proof -
  have c: "cp_low st \<le> cp" "cp < cp_high st" and m: "b mod 64 < 64" using assms(1) by (auto simp: inside_def)
  from assms(1) have "st = 2 \<or> st = 3 \<or> st = 5 \<or> st = 4 \<or> st = 6 \<or> st = 7 \<or> st = 8" by (auto simp: inside_def)
  then consider "st = 2" | "st = 3 \<or> st = 5" | "st = 4" | "st = 6" | "st = 7 \<or> st = 8" by blast
  then show ?thesis
  proof cases
    case 1
    with c m assms(2) show ?thesis by (simp add: state_rest_def next_state_def cp_low_def)
  next
    case 2
    with c have "1 \<le> cp" "cp < 512" by (auto simp: cp_low_def cp_high_def state_rest_def)
    with m have "inside 2 (cp * 64 + b mod 64)" by (simp add: inside_def cp_low_def cp_high_def state_rest_def)
    with 2 assms(2) show ?thesis by (auto simp: state_rest_def next_state_def)
  next
    case 3
    with c assms(2-4) have "cp < 512" "0xA0 \<le> b" "b \<le> 0xBF" by (auto simp: cp_high_def state_rest_def)
    moreover from this have "b mod 64 = b - 128" by (intro mod_nat_eqI) auto
    ultimately have "32 \<le> b mod 64" by simp
    with m \<open>cp < 512\<close> have "inside 2 (cp * 64 + b mod 64)" by (simp add: inside_def cp_low_def cp_high_def state_rest_def)
    with 3 assms(2) show ?thesis by (auto simp: state_rest_def next_state_def)
  next
    case 4
    with c assms(2-4) have "cp < 8" "0x90 \<le> b" "b \<le> 0xBF" by (auto simp: cp_high_def state_rest_def)
    moreover from this have "b mod 64 = b - 128" by (intro mod_nat_eqI) auto
    ultimately have "16 \<le> b mod 64" by simp
    with m \<open>cp < 8\<close> have "inside 3 (cp * 64 + b mod 64)" by (simp add: inside_def cp_low_def cp_high_def state_rest_def)
    with 4 assms(2) show ?thesis by (auto simp: state_rest_def next_state_def)
  next
    case 5
    with c have "1 \<le> cp" "cp < 8" by (auto simp: cp_low_def cp_high_def state_rest_def)
    with m have "inside 3 (cp * 64 + b mod 64)" by (simp add: inside_def cp_low_def cp_high_def state_rest_def)
    with 5 assms(2) show ?thesis by (auto simp: state_rest_def next_state_def)
  qed
qed

lemma decode_inside:
  assumes i: "inside st cp" and r: "state_rest st = r # rs"
  obtains "\<not> in_range r c" "decode st cp (of_char c) = Inr (1, cp * 64 + of_char c mod 64)"
  | "in_range r c" "rs = []" "0x80 \<le> cp * 64 + of_char c mod (64 :: nat)" "decode st cp (of_char c) = Inr (0, cp * 64 + of_char c mod 64)"
  | st' where "in_range r c" "rs = state_rest st'" "st' \<notin> {0, 1}" "decode st cp (of_char c) = Inr (st', cp * 64 + of_char c mod 64)"
      "inside st' (cp * 64 + of_char c mod 64)"
proof -
  define b where "b = (of_char c :: nat)"
  have b: "b < 256" unfolding b_def by simp
  have st: "2 \<le> st" "st \<le> 8" "cp < cp_high st" using i by (simp_all add: inside_def)
  have k: "byte_class b < 12" by (simp add: byte_class_def)
  have "cp < 2 ^ 26" using st(3) by (simp add: cp_high_def split: if_splits)
  from cont_bits [OF this, of b]
  have d: "decode st cp b = Inr (drop 256 utf8d ! (st * 16 + byte_class b), cp * 64 + b mod 64)"
    using decode_eq [of st b cp] utf8d_next [of "st * 16 + byte_class b"] b st(1,2) k by (simp add: add.assoc)
  show thesis
  proof (cases "in_range r c")
    case False
    then have "\<not> (fst r \<le> b \<and> b \<le> snd r)" by (simp add: in_range_def b_def)
    with table_inside [OF st(1,2), of b] r have "drop 256 utf8d ! (st * 16 + byte_class b) = 1" by simp
    with d have "decode st cp (of_char c) = Inr (1, cp * 64 + of_char c mod 64)" by (simp only: b_def)
    with False show ?thesis by (rule that(1))
  next
    case True
    then have "fst r \<le> b" "b \<le> snd r" by (simp_all add: in_range_def b_def)
    with next_inside [OF i r this] d table_inside [OF st(1,2), of b] r True show ?thesis
      using that(2,3) [folded b_def] by auto
  qed
qed

section \<open>No buffer overrun\<close>

lemma escape_cp_length: "length (escape_cp a cp c) + by_snprintf (escape_cp a cp c) \<le> 13"
  by (simp add: escape_cp_def u04x_def by_snprintf_def)

lemma escape_cp_plain_length: "length (escape_cp False cp c) + by_snprintf (escape_cp False cp c) \<le> 7"
  by (simp add: escape_cp_def u04x_def by_snprintf_def)

lemma flush13_len: "flush13 b out = (b', o') \<Longrightarrow> length b' \<le> 499"
  by (auto simp: flush13_def split: if_splits)

lemma flush13_text: "flush13 b out = (b', o') \<Longrightarrow> o' @ b' = out @ b"
  by (auto simp: flush13_def split: if_splits)

text \<open>
  The invariant: at most 499 bytes stand in the buffer at the last accepted byte, at most three more
  follow, and the code point and the state fit.
\<close>

definition esc_ok :: "bool \<Rightarrow> esc \<Rightarrow> bool" where
  "esc_ok a e \<longleftrightarrow>
     es_last_accept e \<le> 499 \<and> es_last_accept e \<le> length (es_buf e) \<and>
     length (es_buf e) = es_last_accept e + (if a then 0 else es_undumped e) \<and>
     (es_state e = 0 \<and> es_undumped e = 0 \<or>
      inside (es_state e) (es_codepoint e) \<and> 0 < es_undumped e \<and> es_undumped e + length (state_rest (es_state e)) \<le> 4)"

lemma state_rest_Nil: "inside st cp \<Longrightarrow> state_rest st \<noteq> []"
  by (auto simp: inside_def state_rest_def)

lemma esc_ok_undumped: "esc_ok a e \<Longrightarrow> es_undumped e \<le> 3"
  using state_rest_Nil [of "es_state e" "es_codepoint e"] by (cases "state_rest (es_state e)") (auto simp: esc_ok_def)

lemma esc_accept_ok:
  assumes "esc_ok a e"
  shows "\<exists>e'. esc_accept a cp c e = Inr e' \<and> esc_ok a e' \<and> es_state e' = 0 \<and>
    es_out e' @ es_buf e' = es_out e @ es_buf e @ escape_cp a cp c"
proof -
  let ?w = "escape_cp a cp c"
  have "length (es_buf e) + length ?w + by_snprintf ?w \<le> 512"
    using assms esc_ok_undumped [OF assms] escape_cp_length [of a cp c] escape_cp_plain_length [of cp c]
    by (cases a) (auto simp: esc_ok_def)
  moreover obtain b o' where f: "flush13 (es_buf e @ ?w) (es_out e) = (b, o')" by fastforce
  ultimately show ?thesis
    using flush13_len [OF f] flush13_text [OF f]
    by (simp add: esc_accept_def Let_def buf_write_def esc_ok_def UTF8_ACCEPT_def)
qed

lemma esc_reject_ok:
  assumes "esc_ok a e"
  shows "\<exists>e'. esc_reject r a cp e = Inr e' \<and> esc_ok a e'"
proof -
  let ?b = "take (es_last_accept e) (es_buf e)"
  have l: "length ?b = es_last_accept e" "es_last_accept e \<le> 499" using assms by (auto simp: esc_ok_def)
  obtain b o' where f: "flush13 (?b @ replacement a) (es_out e) = (b, o')" by fastforce
  have "length (replacement a) \<le> 6" by (simp add: replacement_def)
  with l f flush13_len [OF f] show ?thesis
    by (cases r) (simp_all add: esc_reject_def Let_def buf_write_def esc_ok_def UTF8_ACCEPT_def)
qed

lemma esc_partial_ok:
  assumes "esc_ok a e" and "inside st cp" and "es_undumped e + length (state_rest st) \<le> 3"
  shows "\<exists>e'. esc_partial a st cp c e = Inr e' \<and> esc_ok a e' \<and> es_state e' = st \<and> es_codepoint e' = cp \<and>
    es_out e' = es_out e \<and> es_buf e' = (if a then es_buf e else es_buf e @ [c])"
  using assms esc_ok_undumped [OF assms(1)] state_rest_Nil [OF assms(2)]
  by (cases a) (auto simp: esc_partial_def buf_write_def esc_ok_def)

text \<open>What a byte can do in a state of the invariant.\<close>

lemma decode_ok:
  assumes "esc_ok a e"
  obtains (reject) x where "decode (es_state e) (es_codepoint e) (of_char c) = Inr (1, x)"
      "\<And>cs. utf8_tail (state_rest (es_state e)) (c # cs) = False"
  | (ascii) "es_state e = 0" "decode (es_state e) (es_codepoint e) (of_char c) = Inr (0, of_char c)"
      "\<And>cs. utf8_tail (state_rest (es_state e)) (c # cs) = utf8_tail [] cs"
  | (last) x where "0x80 \<le> x" "0x80 \<le> (of_char c :: nat)" "decode (es_state e) (es_codepoint e) (of_char c) = Inr (0, x)"
      "\<And>cs. utf8_tail (state_rest (es_state e)) (c # cs) = utf8_tail [] cs"
  | (more) st x where "0x80 \<le> (of_char c :: nat)" "st \<notin> {0, 1}" "decode (es_state e) (es_codepoint e) (of_char c) = Inr (st, x)" "inside st x"
      "es_undumped e + length (state_rest st) \<le> 3"
      "\<And>cs. utf8_tail (state_rest (es_state e)) (c # cs) = utf8_tail (state_rest st) cs"
proof (cases "es_state e = 0")
  case True
  then have u: "es_undumped e = 0" and r: "state_rest 0 = []" using assms by (auto simp: esc_ok_def inside_def state_rest_def)
  have "(of_char c :: nat) < 256" by simp
  then show thesis
  proof (cases rule: decode_start [of "of_char c" "es_codepoint e"])
    case 1
    with True r show ?thesis using that(1) by simp
  next
    case 2
    with True r show ?thesis using that(2) by simp
  next
    case (3 st cp')
    have "\<not> (of_char c :: nat) \<le> 0x7F" using state_rest_Nil [OF 3(3)] 3(1) by (auto simp: utf8_start_def)
    moreover have "2 \<le> st" "length (state_rest st) \<le> 3" using 3(3) by (auto simp: inside_def state_rest_def)
    ultimately show ?thesis using 3 True r u that(4) [of st cp'] by simp
  qed
next
  case False
  with assms have i: "inside (es_state e) (es_codepoint e)" and u: "es_undumped e + length (state_rest (es_state e)) \<le> 4"
    by (auto simp: esc_ok_def)
  then obtain r rs where r: "state_rest (es_state e) = r # rs" using state_rest_Nil by (cases "state_rest (es_state e)") auto
  have hi: "in_range r c \<Longrightarrow> 0x80 \<le> (of_char c :: nat)"
    using r by (auto simp: in_range_def state_rest_def split: if_splits)
  from i r show thesis
  proof (cases rule: decode_inside [where c = c])
    case 1
    with r show ?thesis using that(1) by simp
  next
    case 2
    with r hi show ?thesis using that(3) by simp
  next
    case (3 st')
    with r hi u show ?thesis using that(4) [of st'] by simp
  qed
qed

text \<open>Every way to handle errors but the strict one succeeds on every input.\<close>

lemma dump_escaped_loop_total:
  "eh \<noteq> Strict \<Longrightarrow> esc_ok a e \<Longrightarrow> \<exists>e'. dump_escaped_loop eh a i s e = Inr e' \<and> esc_ok a e'"
proof (induction eh a i s e rule: dump_escaped_loop.induct)
  case (2 eh a i c cs e)
  from 2(6) show ?case
  proof (cases rule: decode_ok [where c = c])
    case (reject x)
    obtain e' where e': "esc_reject (eh = Replace) a x e = Inr e'" "esc_ok a e'" using esc_reject_ok [OF 2(6)] by blast
    with reject 2 show ?thesis by (simp add: UTF8_REJECT_def UTF8_ACCEPT_def)
  next
    case ascii
    obtain e' where "esc_accept a (of_char c) c e = Inr e'" "esc_ok a e'" using esc_accept_ok [OF 2(6)] by blast
    with ascii 2 show ?thesis by (simp add: UTF8_ACCEPT_def)
  next
    case (last x)
    obtain e' where "esc_accept a x c e = Inr e'" "esc_ok a e'" using esc_accept_ok [OF 2(6)] by blast
    with last 2 show ?thesis by (simp add: UTF8_ACCEPT_def)
  next
    case (more st x)
    obtain e' where "esc_partial a st x c e = Inr e'" "esc_ok a e'" using esc_partial_ok [OF 2(6) more(4,5)] by blast
    with more 2 show ?thesis by (simp add: UTF8_ACCEPT_def UTF8_REJECT_def)
  qed
qed simp

section \<open>Strict escaping\<close>

text \<open>The reference: the bytes of a code point beyond ASCII stay, the others are escaped one by one.\<close>

definition escape :: "string \<Rightarrow> string" where
  "escape s = concat (map (\<lambda>c. escape_cp False (of_char c) c) s)"

lemma escape_simps [simp]: "escape [] = []" "escape (c # s) = escape_cp False (of_char c) c @ escape s"
  "escape (s @ t) = escape s @ escape t"
  by (simp_all add: escape_def)

lemma escape_cp_high: "0x80 \<le> cp \<Longrightarrow> escape_cp False cp c = [c]"
  by (simp add: escape_cp_def)

lemma strict_loop:
  "esc_ok False e \<Longrightarrow>
    (if utf8_tail (state_rest (es_state e)) s
     then \<exists>e'. dump_escaped_loop Strict False i s e = Inr e' \<and> es_state e' = 0 \<and> es_out e' @ es_buf e' = es_out e @ es_buf e @ escape s
     else (\<exists>m. dump_escaped_loop Strict False i s e = Inl (type_error 316 m)) \<or>
          (\<exists>e'. dump_escaped_loop Strict False i s e = Inr e' \<and> es_state e' \<noteq> 0))"
proof (induction s arbitrary: i e)
  case Nil
  have "es_state e = 0 \<or> inside (es_state e) (es_codepoint e)" using Nil by (auto simp: esc_ok_def)
  then have "(state_rest (es_state e) = []) = (es_state e = 0)" by (auto simp: state_rest_def inside_def)
  then show ?case by (cases "state_rest (es_state e)") auto
next
  case (Cons c cs)
  from Cons(2) show ?case
  proof (cases rule: decode_ok [where c = c])
    case (reject x)
    then show ?thesis by (auto simp: UTF8_ACCEPT_def UTF8_REJECT_def)
  next
    case ascii
    obtain e' where e': "esc_accept False (of_char c) c e = Inr e'" "esc_ok False e'" "es_state e' = 0"
      "es_out e' @ es_buf e' = es_out e @ es_buf e @ escape_cp False (of_char c) c"
      using esc_accept_ok [OF Cons(2)] by blast
    have t: "es_out e' @ es_buf e' @ t = es_out e @ es_buf e @ escape_cp False (of_char c) c @ t" for t
      using e'(4) by (metis append_assoc)
    have "state_rest 0 = []" by (simp add: state_rest_def)
    with Cons(1) [OF e'(2), of "Suc i"] show ?thesis
      using ascii(2) e'(1) by (simp add: ascii(3) t e'(3) UTF8_ACCEPT_def split: if_splits)
  next
    case (last x)
    obtain e' where e': "esc_accept False x c e = Inr e'" "esc_ok False e'" "es_state e' = 0"
      "es_out e' @ es_buf e' = es_out e @ es_buf e @ escape_cp False x c"
      using esc_accept_ok [OF Cons(2)] by blast
    have t: "es_out e' @ es_buf e' @ t = es_out e @ es_buf e @ escape_cp False x c @ t" for t
      using e'(4) by (metis append_assoc)
    have "state_rest 0 = []" by (simp add: state_rest_def)
    with Cons(1) [OF e'(2), of "Suc i"] show ?thesis
      using last(3) e'(1) by (simp add: last(4) t e'(3) UTF8_ACCEPT_def escape_cp_high last(1,2) split: if_splits)
  next
    case (more st x)
    obtain e' where e': "esc_partial False st x c e = Inr e'" "esc_ok False e'" "es_state e' = st"
      "es_out e' = es_out e" "es_buf e' = es_buf e @ [c]"
      using esc_partial_ok [OF Cons(2) more(4,5)] by auto
    with Cons(1) [OF e'(2), of "Suc i"] more show ?thesis by (simp add: UTF8_ACCEPT_def UTF8_REJECT_def escape_cp_high split: if_splits)
  qed
qed

lemma esc_init_ok: "esc_ok a (esc_init out)"
  by (simp add: esc_ok_def esc_init_def UTF8_ACCEPT_def)

lemma dump_escaped_utf8: "utf8 s \<Longrightarrow> dump_escaped Strict s False out = Inr (out @ escape s)"
  using strict_loop [OF esc_init_ok, of out s 0]
  by (auto simp: dump_escaped_def utf8_def esc_init_def UTF8_ACCEPT_def state_rest_def)

lemma dump_escaped_invalid: "\<not> utf8 s \<Longrightarrow> \<exists>m. dump_escaped Strict s False out = Inl (type_error 316 m)"
  using strict_loop [OF esc_init_ok, of out s 0]
  by (auto simp: dump_escaped_def utf8_def esc_init_def UTF8_ACCEPT_def state_rest_def)


text \<open>
  C20. With the handlers that do not throw, escaping succeeds on every byte string, well-formed or not: the
  loop, which reads a rejected byte a second time, ends, and no write leaves the 512 bytes of
  \<^verbatim>\<open>string_buffer\<close> or the 400 entries of the table, with or without \<^verbatim>\<open>ensure_ascii\<close>.
\<close>

theorem dump_escaped_lenient: "\<exists>t. dump_escaped (if rep then Replace else Ignore) s ensure_ascii out = Inr t"
proof -
  let ?eh = "if rep then Replace else Ignore"
  have "?eh \<noteq> Strict" by simp
  then obtain e where "dump_escaped_loop ?eh ensure_ascii 0 s (esc_init out) = Inr e"
    using dump_escaped_loop_total [OF _ esc_init_ok] by blast
  then show ?thesis by (simp add: dump_escaped_def split: error_handler_t.splits)
qed

section \<open>Integers\<close>

text \<open>\<^verbatim>\<open>number_unsigned_t\<close> has 64 bits.\<close>

function count_digits :: "nat \<Rightarrow> nat \<Rightarrow> nat" where
  "count_digits x n_digits =
     (if x < 10 then n_digits else if x < 100 then n_digits + 1 else if x < 1000 then n_digits + 2
      else if x < 10000 then n_digits + 3 else count_digits (x div 10000) (n_digits + 4))"
  by pat_completeness auto

termination
  by (relation "measure fst") auto

declare count_digits.simps [simp del]

text \<open>\<^verbatim>\<open>static_cast<number_unsigned_t>(-(x + 1)) + 1\<close>.\<close>

definition remove_sign :: "int \<Rightarrow> nat res" where
  "remove_sign x = cxx_assert (x < 0) (Inr ((size_of_int (- (x + 1)) + 1) mod size_lim))"

text \<open>\<^verbatim>\<open>digits_to_99[i][0]\<close> and \<^verbatim>\<open>digits_to_99[i][1]\<close>.\<close>

definition digits_to_99 :: "nat \<Rightarrow> char \<times> char" where
  "digits_to_99 i = (digit_char (i div 10), digit_char (i mod 10))"

text \<open>Two digits at a time, from the end; the position and the contents of \<^verbatim>\<open>number_buffer\<close>.\<close>

definition put_two :: "nat \<Rightarrow> nat \<times> string \<Rightarrow> nat \<times> string" where
  "put_two i pb = (fst pb - 2, (snd pb)[fst pb - 1 := snd (digits_to_99 i), fst pb - 2 := fst (digits_to_99 i)])"

function int2ascii :: "nat \<Rightarrow> nat \<times> string \<Rightarrow> nat \<times> string" where
  "int2ascii abs_value pb =
     (if abs_value \<ge> 100 then int2ascii (abs_value div 100) (put_two (abs_value mod 100) pb)
      else if abs_value \<ge> 10 then put_two abs_value pb
      else (fst pb - 1, (snd pb)[fst pb - 1 := digit_char abs_value]))"
  by pat_completeness auto

termination
  by (relation "measure fst") auto

declare int2ascii.simps [simp del]

definition dump_integer :: "int \<Rightarrow> string \<Rightarrow> string res" where
  "dump_integer x out =
     (if x = 0 then Inr (out @ ''0'')
      else let number_buffer = replicate 64 (CHR 0x00)
           in bind_res (if x < 0 then bind_res (remove_sign x) (\<lambda>v. Inr (number_buffer[0 := CHR ''-''], v, 1 + count_digits v 1))
                        else Inr (number_buffer, size_of_int x, count_digits (size_of_int x) 1)) (\<lambda>(b, abs_value, n_chars).
              cxx_assert (n_chars < 63) (Inr (out @ take n_chars (snd (int2ascii abs_value (n_chars, b)))))))"

lemma nat_to_string_step: "10 \<le> n \<Longrightarrow> nat_to_string n = nat_to_string (n div 10) @ [digit_char (n mod 10)]"
  by (subst nat_to_string.simps) simp

lemma nat_to_string_digit: "n < 10 \<Longrightarrow> nat_to_string n = [digit_char n]"
  by (subst nat_to_string.simps) simp

lemma nat_to_string_hundred:
  assumes "100 \<le> n"
  shows "nat_to_string n = nat_to_string (n div 100) @ [digit_char (n mod 100 div 10), digit_char (n mod 10)]"
proof -
  have "10 \<le> n" "10 \<le> n div 10" using assms by linarith+
  moreover have "n div 10 div 10 = n div 100" by (simp add: div_mult2_eq [symmetric])
  moreover have "n div 10 mod 10 = n mod 100 div 10" using mod_mult2_eq [of n 10 10] by simp
  ultimately show ?thesis using nat_to_string_step [of n] nat_to_string_step [of "n div 10"] by simp
qed

lemma nat_to_string_length_div: "10 \<le> n \<Longrightarrow> length (nat_to_string n) = Suc (length (nat_to_string (n div 10)))"
  by (simp add: nat_to_string_step)

lemma count_digits_length: "count_digits x n = n + length (nat_to_string x) - 1"
proof (induction x n rule: count_digits.induct)
  case (1 x n)
  have d: "x div 10 div 10 = x div 100" "x div 100 div 10 = x div 1000" "x div 1000 div 10 = x div 10000"
    by (simp_all add: div_mult2_eq [symmetric])
  have one: "length (nat_to_string y) = 1" if "y < 10" for y using that by (simp add: nat_to_string_digit)
  have l: "10 \<le> x \<Longrightarrow> length (nat_to_string x) = Suc (length (nat_to_string (x div 10)))"
    "100 \<le> x \<Longrightarrow> length (nat_to_string (x div 10)) = Suc (length (nat_to_string (x div 100)))"
    "1000 \<le> x \<Longrightarrow> length (nat_to_string (x div 100)) = Suc (length (nat_to_string (x div 1000)))"
    "10000 \<le> x \<Longrightarrow> length (nat_to_string (x div 1000)) = Suc (length (nat_to_string (x div 10000)))"
    using nat_to_string_length_div [of x] nat_to_string_length_div [of "x div 10"] nat_to_string_length_div [of "x div 100"]
      nat_to_string_length_div [of "x div 1000"] unfolding d by simp_all
  have pos: "0 < length (nat_to_string (x div 10000))" by simp
  consider "x < 10" | "10 \<le> x" "x < 100" | "100 \<le> x" "x < 1000" | "1000 \<le> x" "x < 10000" | "10000 \<le> x" by linarith
  then show ?case
  proof cases
    case 5
    with 1 l pos show ?thesis by (subst count_digits.simps) simp
  qed (subst count_digits.simps, use l one [of x] one [of "x div 10"] one [of "x div 100"] one [of "x div 1000"] in simp)+
qed

lemma put_two_append:
  "put_two i (length xs + 2, xs @ u # v # ys) = (length xs, xs @ digit_char (i div 10) # digit_char (i mod 10) # ys)"
  by (simp add: put_two_def digits_to_99_def list_update_append)

text \<open>The digits end up in front of the position, the rest of the buffer is left alone.\<close>

lemma int2ascii_writes:
  "length ds = length (nat_to_string n) \<Longrightarrow> snd (int2ascii n (length xs + length ds, xs @ ds @ ys)) = xs @ nat_to_string n @ ys"
proof (induction n arbitrary: ds ys rule: less_induct)
  case (less n)
  consider "n < 10" | "10 \<le> n" "n < 100" | "100 \<le> n" by linarith
  then show ?case
  proof cases
    case 1
    then obtain d where "ds = [d]" using less(2) by (cases ds) (auto simp: nat_to_string_digit)
    with 1 show ?thesis by (subst int2ascii.simps) (simp add: nat_to_string_digit list_update_append)
  next
    case 2
    then have s: "nat_to_string n = [digit_char (n div 10), digit_char (n mod 10)]"
      by (simp add: nat_to_string_step [of n] nat_to_string_digit)
    then obtain d e where "ds = [d, e]" using less(2) by (cases ds; cases "tl ds") auto
    with 2 s put_two_append [of n xs d e ys] show ?thesis by (subst int2ascii.simps) simp
  next
    case 3
    let ?i = "n mod 100"
    have s: "nat_to_string n = nat_to_string (n div 100) @ [digit_char (?i div 10), digit_char (?i mod 10)]"
      using nat_to_string_hundred [OF 3] mod_mod_cancel [of 10 100 n] by simp
    define k where "k = length (nat_to_string (n div 100))"
    have "length (drop k ds) = Suc (Suc 0)" using less(2) s by (simp add: k_def)
    then obtain d e where de: "drop k ds = [d, e]" by (cases "drop k ds"; cases "tl (drop k ds)") (auto simp del: length_drop)
    define fs where "fs = take k ds"
    have ds: "ds = fs @ [d, e]" "length fs = length (nat_to_string (n div 100))"
      using less(2) s append_take_drop_id [of k ds] unfolding fs_def de by (simp_all add: k_def)
    have "int2ascii n (length xs + length ds, xs @ ds @ ys) =
        int2ascii (n div 100) (length xs + length fs, xs @ fs @ [digit_char (?i div 10), digit_char (?i mod 10)] @ ys)"
      using 3 put_two_append [of ?i "xs @ fs" d e ys] ds by (subst int2ascii.simps) (simp add: add.assoc)
    with less(1) [of "n div 100" fs] 3 ds s show ?thesis by simp
  qed
qed

lemma remove_sign_eq:
  assumes "-(2 ^ 63) \<le> x" and "x < 0"
  shows "remove_sign x = Inr (nat (- x))"
proof -
  have "size_of_int (- (x + 1)) = nat (- x) - 1" using assms by (simp add: size_of_int_def)
  with assms show ?thesis by (simp add: remove_sign_def)
qed

lemma to_string_chars_length:
  assumes "x < 2 ^ 64"
  shows "length (nat_to_string x) \<le> 20"
proof -
  have "x < 10 ^ 20" using assms by simp
  then show ?thesis using length_nat_to_string [of 20 x] by simp
qed

lemma replicate_split: "n \<le> m \<Longrightarrow> replicate m c = replicate n c @ replicate (m - n) c"
  by (simp add: replicate_add [symmetric])

lemma dump_integer_eq:
  assumes "-(2 ^ 63) \<le> x" and "x < 2 ^ 64"
  shows "dump_integer x out = Inr (out @ to_string x)"
proof -
  consider "x = 0" | "x < 0" | "0 < x" by linarith
  then show ?thesis
  proof cases
    case 1
    have "digit_char 0 = CHR ''0''" by (simp add: digit_char_def char_of_eq_iff)
    with 1 show ?thesis by (simp add: dump_integer_def to_string_def nat_to_string_digit)
  next
    case 2
    let ?v = "nat (- x)"
    let ?k = "length (nat_to_string ?v)"
    have k: "?k \<le> 20" using to_string_chars_length [of ?v] assms 2 by simp
    have "(replicate 64 (CHR 0x00))[0 := CHR ''-''] = [CHR ''-''] @ replicate 63 (CHR 0x00)"
      by (simp add: numeral_eq_Suc)
    also have "\<dots> = [CHR ''-''] @ replicate ?k (CHR 0x00) @ replicate (63 - ?k) (CHR 0x00)"
      using replicate_split [of ?k 63] k by simp
    finally have b: "(replicate 64 (CHR 0x00))[0 := CHR ''-''] = \<dots>" .
    have "snd (int2ascii ?v (1 + ?k, (replicate 64 (CHR 0x00))[0 := CHR ''-''])) = [CHR ''-''] @ nat_to_string ?v @ replicate (63 - ?k) (CHR 0x00)"
      using int2ascii_writes [of "replicate ?k (CHR 0x00)" ?v "[CHR ''-'']" "replicate (63 - ?k) (CHR 0x00)"] unfolding b by simp
    with 2 k show ?thesis
      by (simp add: dump_integer_def Let_def remove_sign_eq [OF assms(1) 2] count_digits_length to_string_def)
  next
    case 3
    let ?v = "nat x"
    let ?k = "length (nat_to_string ?v)"
    have k: "?k \<le> 20" using to_string_chars_length [of ?v] assms 3 by simp
    have "snd (int2ascii ?v (?k, replicate 64 (CHR 0x00))) = nat_to_string ?v @ replicate (64 - ?k) (CHR 0x00)"
      using int2ascii_writes [of "replicate ?k (CHR 0x00)" ?v "[]" "replicate (64 - ?k) (CHR 0x00)"] k
      by (subst replicate_split [of ?k 64]) simp_all
    with 3 k assms show ?thesis by (simp add: dump_integer_def Let_def count_digits_length to_string_def)
  qed
qed

section \<open>Values\<close>

text \<open>\<^verbatim>\<open>std::map<std::string, ...>\<close>: assignments in their order, entries in the order of the keys.\<close>

fun map_put :: "string \<Rightarrow> 'v \<Rightarrow> (string \<times> 'v) list \<Rightarrow> (string \<times> 'v) list" where
  "map_put k v [] = [(k, v)]"
| "map_put k v ((k', v') # m) =
     (if k = k' then (k, v) # m else if k < k' then (k, v) # (k', v') # m else (k', v') # map_put k v m)"

definition std_map :: "(string \<times> 'v) list \<Rightarrow> (string \<times> 'v) list" where
  "std_map kvs = foldl (\<lambda>m kv. map_put (fst kv) (snd kv) m) [] kvs"

text \<open>
  The members of an object that is not empty, the elements of an array that is not empty, given what
  prints each.
\<close>

fun dump_members :: "error_handler_t \<Rightarrow> bool \<Rightarrow> (string \<times> (string \<Rightarrow> string res)) list \<Rightarrow> string \<Rightarrow> string res" where
  "dump_members eh a [] out = Inl Assert_Failed"
| "dump_members eh a ((k, d) # m) out =
     bind_res (dump_escaped eh k a (out @ [CHR 0x22])) (\<lambda>o1. bind_res (d (o1 @ [CHR 0x22, CHR '':''])) (\<lambda>o2.
       case m of [] \<Rightarrow> Inr o2 | _ # _ \<Rightarrow> dump_members eh a m (o2 @ [CHR '','']) ))"

fun dump_elements :: "(string \<Rightarrow> string res) list \<Rightarrow> string \<Rightarrow> string res" where
  "dump_elements [] out = Inl Assert_Failed"
| "dump_elements (d # ds) out =
     bind_res (d out) (\<lambda>o1. case ds of [] \<Rightarrow> Inr o1 | _ # _ \<Rightarrow> dump_elements ds (o1 @ [CHR '','']))"

lemma size_member [termination_simp]: "kv \<in> set kvs \<Longrightarrow> size (snd kv) < Suc (size_list (size_prod (\<lambda>_. 0) size) kvs)"
  by (induction kvs) auto

fun serializer_dump :: "error_handler_t \<Rightarrow> bool \<Rightarrow> json \<Rightarrow> string \<Rightarrow> string res" where
  "serializer_dump eh a (JObj kvs) out =
     (case std_map (map (\<lambda>kv. (fst kv, serializer_dump eh a (snd kv))) kvs) of
        [] \<Rightarrow> Inr (out @ ''{}'')
      | m # ms \<Rightarrow> bind_res (dump_members eh a (m # ms) (out @ ''{'')) (\<lambda>o1. Inr (o1 @ ''}'')))"
| "serializer_dump eh a (JArr vs) out =
     (case map (serializer_dump eh a) vs of
        [] \<Rightarrow> Inr (out @ ''[]'')
      | d # ds \<Rightarrow> bind_res (dump_elements (d # ds) (out @ ''['')) (\<lambda>o1. Inr (o1 @ '']'')))"
| "serializer_dump eh a (JStr s) out = bind_res (dump_escaped eh s a (out @ [CHR 0x22])) (\<lambda>o1. Inr (o1 @ [CHR 0x22]))"
| "serializer_dump eh a (JBool b) out = Inr (out @ (if b then ''true'' else ''false''))"
| "serializer_dump eh a (JNum x) out = dump_integer x out"
| "serializer_dump eh a (JFloat l) out = Inl Unmodelled"
| "serializer_dump eh a JNull out = Inr (out @ ''null'')"

definition json_dump :: "json \<Rightarrow> string res" where
  "json_dump v = serializer_dump Strict False v []"

text \<open>The reference: the text of a value, and the values that have one.\<close>

definition quoted :: "string \<Rightarrow> string" where
  "quoted s = CHR 0x22 # escape s @ [CHR 0x22]"

fun comma :: "string list \<Rightarrow> string" where
  "comma [] = []"
| "comma (s # ss) = (if ss = [] then s else s @ CHR '','' # comma ss)"

fun json_text :: "json \<Rightarrow> string" where
  "json_text (JObj kvs) = ''{'' @ comma (map (\<lambda>kt. quoted (fst kt) @ CHR '':'' # snd kt) (std_map (map (\<lambda>kv. (fst kv, json_text (snd kv))) kvs))) @ ''}''"
| "json_text (JArr vs) = ''['' @ comma (map json_text vs) @ '']''"
| "json_text (JStr s) = quoted s"
| "json_text (JBool b) = (if b then ''true'' else ''false'')"
| "json_text (JNum x) = to_string x"
| "json_text (JFloat l) = l"
| "json_text JNull = ''null''"

fun json_ok :: "json \<Rightarrow> bool" where
  "json_ok (JObj kvs) = list_all (\<lambda>kv. utf8 (fst kv) \<and> json_ok (snd kv)) kvs"
| "json_ok (JArr vs) = list_all json_ok vs"
| "json_ok (JStr s) = utf8 s"
| "json_ok (JBool b) = True"
| "json_ok (JNum x) = (-(2 ^ 63) \<le> x \<and> x < 2 ^ 64)"
| "json_ok (JFloat l) = False"
| "json_ok JNull = True"

text \<open>The value a text stands for: in each object, the last member for each key, in the order of the keys.\<close>

fun canon :: "json \<Rightarrow> json" where
  "canon (JObj kvs) = JObj (std_map (map (\<lambda>kv. (fst kv, canon (snd kv))) kvs))"
| "canon (JArr vs) = JArr (map canon vs)"
| "canon v = v"

text \<open>No floating-point numbers, and integers that fit their 64 bits.\<close>

fun json_ints :: "json \<Rightarrow> bool" where
  "json_ints (JObj kvs) = list_all (\<lambda>kv. json_ints (snd kv)) kvs"
| "json_ints (JArr vs) = list_all json_ints vs"
| "json_ints (JNum x) = (-(2 ^ 63) \<le> x \<and> x < 2 ^ 64)"
| "json_ints (JFloat l) = False"
| "json_ints v = True"

lemma map_put_map: "map_put k (f v) (map (\<lambda>kv. (fst kv, f (snd kv))) m) = map (\<lambda>kv. (fst kv, f (snd kv))) (map_put k v m)"
  by (induction k v m rule: map_put.induct) auto

lemma std_map_snoc: "std_map (kvs @ [kv]) = map_put (fst kv) (snd kv) (std_map kvs)"
  by (simp add: std_map_def)

lemma std_map_Nil [simp]: "std_map [] = []"
  by (simp add: std_map_def)

lemma std_map_map: "std_map (map (\<lambda>kv. (fst kv, f (snd kv))) kvs) = map (\<lambda>kv. (fst kv, f (snd kv))) (std_map kvs)"
  by (induction kvs rule: rev_induct) (simp_all add: std_map_snoc map_put_map)

lemma map_put_set: "set (map_put k v m) \<subseteq> insert (k, v) (set m)"
  by (induction k v m rule: map_put.induct) auto

lemma std_map_set: "set (std_map kvs) \<subseteq> set kvs"
proof (induction kvs rule: rev_induct)
  case (snoc kv kvs)
  then show ?case using map_put_set [of "fst kv" "snd kv" "std_map kvs"] by (auto simp: std_map_snoc)
qed simp

lemma list_all_std_map: "list_all P kvs \<Longrightarrow> list_all P (std_map kvs)"
  using std_map_set by (auto simp: list_all_iff)

lemma json_ints_ok: "json_ok v \<Longrightarrow> json_ints v"
  by (induction v rule: json_ok.induct) (auto simp: list_all_iff)

lemma json_ok_canon: "json_ok v \<Longrightarrow> json_ok (canon v)"
proof (induction v rule: json_ok.induct)
  case (1 kvs)
  then show ?case using std_map_set [of kvs] by (auto simp: std_map_map list_all_iff)
qed (auto simp: list_all_iff)

definition dumps :: "(string \<Rightarrow> string res) \<Rightarrow> bool \<Rightarrow> string \<Rightarrow> bool" where
  "dumps d ok t \<longleftrightarrow> (\<forall>out. if ok then d out = Inr (out @ t) else \<exists>m. d out = Inl (type_error 316 m))"

lemma dumps_bind: "dumps d p s \<Longrightarrow> dumps e q t \<Longrightarrow> dumps (\<lambda>o0. bind_res (d o0) (\<lambda>o1. e (o1 @ w))) (p \<and> q) (s @ w @ t)"
  unfolding dumps_def by (cases p; cases q) (simp, simp, metis bind_res_simps(1), metis bind_res_simps(1))

lemma dumps_post: "dumps d p s \<Longrightarrow> dumps (\<lambda>o0. bind_res (d o0) (\<lambda>o1. Inr (o1 @ w))) p (s @ w)"
  unfolding dumps_def by (cases p) (simp, metis bind_res_simps(1))

lemma dumps_pre: "dumps d p s \<Longrightarrow> dumps (\<lambda>o0. d (o0 @ w)) p (w @ s)"
  by (auto simp: dumps_def)

lemma dumps_escaped: "dumps (dump_escaped Strict k False) (utf8 k) (escape k)"
  using dump_escaped_utf8 dump_escaped_invalid by (auto simp: dumps_def)

lemma dumps_key:
  assumes "dumps d p s"
  shows "dumps (\<lambda>o0. bind_res (dump_escaped Strict k False (o0 @ [CHR 0x22])) (\<lambda>o1. d (o1 @ [CHR 0x22, CHR '':'']))) (utf8 k \<and> p) (quoted k @ CHR '':'' # s)"
  using dumps_pre [OF dumps_bind [OF dumps_escaped assms], of k "[CHR 0x22]" "[CHR 0x22, CHR '':'']"] by (simp add: quoted_def)

lemma bind_res_Inr [simp]: "bind_res r Inr = r"
  by (cases r) simp_all

lemma dump_members_Cons:
  "dump_members Strict False ((k, d) # m) = (if m = [] then (\<lambda>o0. bind_res (dump_escaped Strict k False (o0 @ [CHR 0x22])) (\<lambda>o1. d (o1 @ [CHR 0x22, CHR '':''])))
     else (\<lambda>o0. bind_res (bind_res (dump_escaped Strict k False (o0 @ [CHR 0x22])) (\<lambda>o1. d (o1 @ [CHR 0x22, CHR '':''])))
              (\<lambda>o2. dump_members Strict False m (o2 @ [CHR '','']))))"
  by (auto simp: bind_res_assoc fun_eq_iff neq_Nil_conv)

lemma dump_members_exact:
  assumes "kvs \<noteq> []" and "\<forall>kv \<in> set kvs. dumps (f (snd kv)) (g (snd kv)) (h (snd kv))"
  shows "dumps (dump_members Strict False (map (\<lambda>kv. (fst kv, f (snd kv))) kvs)) (list_all (\<lambda>kv. utf8 (fst kv) \<and> g (snd kv)) kvs)
    (comma (map (\<lambda>kv. quoted (fst kv) @ CHR '':'' # h (snd kv)) kvs))"
  using assms
proof (induction kvs rule: list_nonempty_induct)
  case (single kv)
  then show ?case using dumps_key [of "f (snd kv)" _ _ "fst kv"] by (simp add: dump_members_Cons)
next
  case (cons kv kvs)
  then have "dumps (f (snd kv)) (g (snd kv)) (h (snd kv))" by simp
  from dumps_bind [OF dumps_key [OF this, of "fst kv"] cons(2), of "[CHR '','']"] cons(1,3) show ?case
    by (simp add: dump_members_Cons)
qed

lemma dump_elements_Cons:
  "dump_elements (d # ds) = (if ds = [] then d else (\<lambda>o0. bind_res (d o0) (\<lambda>o1. dump_elements ds (o1 @ [CHR '','']))))"
  by (auto simp: fun_eq_iff neq_Nil_conv)

lemma dump_elements_exact:
  assumes "vs \<noteq> []" and "\<forall>v \<in> set vs. dumps (f v) (g v) (h v)"
  shows "dumps (dump_elements (map f vs)) (list_all g vs) (comma (map h vs))"
  using assms
proof (induction vs rule: list_nonempty_induct)
  case (single v)
  then show ?case by (simp add: dump_elements_Cons)
next
  case (cons v vs)
  then have "dumps (f v) (g v) (h v)" by simp
  from dumps_bind [OF this cons(2), of "[CHR '','']"] cons(1,3) show ?case by (simp add: dump_elements_Cons)
qed

lemmas json_cases_induct = canon.induct [case_names object array null boolean number float string]

lemma serializer_dump_exact: "json_ints v \<Longrightarrow> dumps (serializer_dump Strict False v) (json_ok (canon v)) (json_text v)"
proof (induction v rule: json_cases_induct)
  case (object kvs)
  let ?m = "std_map kvs"
  have ih: "\<forall>kv \<in> set ?m. dumps (serializer_dump Strict False (snd kv)) (json_ok (canon (snd kv))) (json_text (snd kv))"
    using object std_map_set [of kvs] by (auto simp: list_all_iff)
  show ?case
  proof (cases ?m)
    case Nil
    then show ?thesis by (simp add: dumps_def std_map_map)
  next
    case (Cons x xs)
    then have "?m \<noteq> []" by simp
    from dumps_pre [OF dumps_post [OF dump_members_exact [OF this ih], of "''}''"], of "''{''"] Cons
    show ?thesis by (simp add: std_map_map comp_def list.pred_map)
  qed
next
  case (array vs)
  then have ih: "\<forall>v \<in> set vs. dumps (serializer_dump Strict False v) (json_ok (canon v)) (json_text v)"
    by (auto simp: list_all_iff)
  show ?case
  proof (cases vs)
    case (Cons x xs)
    then have "vs \<noteq> []" by simp
    from dumps_pre [OF dumps_post [OF dump_elements_exact [OF this ih], of "'']''"], of "''[''"] Cons
    show ?thesis by (simp add: comp_def list.pred_map)
  qed (simp add: dumps_def)
next
  case (string s)
  show ?case using dumps_pre [OF dumps_post [OF dumps_escaped [of s], of "[CHR 0x22]"], of "[CHR 0x22]"] by (simp add: quoted_def)
qed (simp_all add: dumps_def dump_integer_eq)

lemma json_dump_ok: "json_ok v \<Longrightarrow> json_dump v = Inr (json_text v)"
  using serializer_dump_exact [OF json_ints_ok, of v] json_ok_canon [of v] by (simp add: json_dump_def dumps_def)

lemma json_dump_invalid: "json_ints v \<Longrightarrow> \<not> json_ok (canon v) \<Longrightarrow> \<exists>m. json_dump v = Inl (type_error 316 m)"
  using serializer_dump_exact [of v] by (simp add: json_dump_def dumps_def)

text \<open>
  C18. \<^verbatim>\<open>dump()\<close> of a value without floating-point numbers: when every key and string that \<^verbatim>\<open>std::map\<close> keeps is
  well-formed UTF-8 the result is the compact text of the value, with the members of each object in the
  order of their keys and the integers as \<^verbatim>\<open>std::to_string\<close> prints them; otherwise type error 316 is thrown.
\<close>

theorem json_dump_exact:
  assumes "json_ints v"
  shows "if json_ok (canon v) then json_dump v = Inr (json_text v) else \<exists>m. json_dump v = Inl (type_error 316 m)"
  using serializer_dump_exact [OF assms] by (simp add: json_dump_def dumps_def)

theorem json_dump_exact_witness:
  "json_dump (JObj [(''b'', JNum (-307)), (''a'', JStr [CHR 0x22]), (''b'', JBool True)]) =
     Inr (''{'' @ [CHR 0x22, CHR ''a'', CHR 0x22, CHR '':'', CHR 0x22, CHR 0x5C, CHR 0x22, CHR 0x22, CHR '','', CHR 0x22, CHR ''b'', CHR 0x22] @ '':true}'') \<and>
   (\<exists>m. json_dump (JArr [JStr [CHR 0xC3], JNum 1]) = Inl (type_error 316 m))"
  using json_dump_exact [of "JObj [(''b'', JNum (-307)), (''a'', JStr [CHR 0x22]), (''b'', JBool True)]"]
    json_dump_exact [of "JArr [JStr [CHR 0xC3], JNum 1]"]
  by (simp add: std_map_def utf8_def utf8_start_def quoted_def escape_cp_def)

text \<open>ASCII text is well-formed.\<close>

lemma utf8_ascii: "\<forall>c \<in> set s. of_char c < (0x80 :: nat) \<Longrightarrow> utf8 s"
  unfolding utf8_def by (induction s) (simp_all add: utf8_start_def)

lemma utf8_tail_split: "utf8_tail rs s \<Longrightarrow> utf8_tail [] t \<Longrightarrow> utf8_tail rs (s @ t)"
  by (induction rs s rule: utf8_tail.induct) (auto split: option.splits)

lemma utf8_append: "utf8 s \<Longrightarrow> utf8 t \<Longrightarrow> utf8 (s @ t)"
  unfolding utf8_def by (rule utf8_tail_split)

lemma utf8_to_string: "utf8 (to_string z)"
proof (rule utf8_ascii, rule ballI)
  fix c assume "c \<in> set (to_string z)"
  then have "c = CHR ''-'' \<or> is_digit c" using nat_to_string_digits by (auto simp: to_string_def split: if_splits)
  then show "of_char c < (0x80 :: nat)" by (auto simp: is_digit_def)
qed

text \<open>Where no key is assigned twice, \<^verbatim>\<open>std::map\<close> keeps everything.\<close>

fun json_distinct :: "json \<Rightarrow> bool" where
  "json_distinct (JObj kvs) = (distinct (map fst kvs) \<and> list_all (\<lambda>kv. json_distinct (snd kv)) kvs)"
| "json_distinct (JArr vs) = list_all json_distinct vs"
| "json_distinct v = True"

lemma map_put_new: "k \<notin> fst ` set m \<Longrightarrow> set (map_put k v m) = insert (k, v) (set m)"
  by (induction k v m rule: map_put.induct) auto

lemma std_map_distinct: "distinct (map fst kvs) \<Longrightarrow> set (std_map kvs) = set kvs"
proof (induction kvs rule: rev_induct)
  case (snoc kv kvs)
  then show ?case by (cases kv) (simp add: std_map_snoc map_put_new)
qed simp

lemma json_ok_canon_iff: "json_distinct v \<Longrightarrow> json_ok (canon v) = json_ok v"
proof (induction v rule: canon.induct)
  case (1 kvs)
  then have "distinct (map fst kvs)" by simp
  from std_map_distinct [OF this] 1 show ?case by (auto simp: std_map_map list_all_iff)
qed (auto simp: list_all_iff)

lemma json_dump_throws: "json_ints v \<Longrightarrow> json_distinct v \<Longrightarrow> \<not> json_ok v \<Longrightarrow> \<exists>m. json_dump v = Inl (type_error 316 m)"
  using json_dump_invalid [of v] json_ok_canon_iff [of v] by simp

text \<open>The entries of a \<^verbatim>\<open>std::map\<close> are in the strict order of their keys, and entering them again changes nothing.\<close>

lemma map_put_keys: "fst ` set (map_put k v m) = insert k (fst ` set m)"
  by (induction k v m rule: map_put.induct) auto

lemma map_put_sorted: "sorted_wrt (<) (map fst m) \<Longrightarrow> sorted_wrt (<) (map fst (map_put k v m))"
proof (induction k v m rule: map_put.induct)
  case (2 k v k' v' m)
  have "\<forall>x \<in> fst ` set (map_put k v m). k' < x" if "k' < k" using 2(2) that by (simp add: map_put_keys)
  with 2 show ?case by (auto dest: order.strict_trans)
qed simp

lemma std_map_sorted: "sorted_wrt (<) (map fst (std_map kvs))"
  by (induction kvs rule: rev_induct) (simp_all add: std_map_snoc map_put_sorted)

lemma map_put_last: "\<forall>x \<in> fst ` set m. x < k \<Longrightarrow> map_put k v m = m @ [(k, v)]"
  by (induction k v m rule: map_put.induct) (auto dest: order.asym)

lemma std_map_of_sorted: "sorted_wrt (<) (map fst kvs) \<Longrightarrow> std_map kvs = kvs"
proof (induction kvs rule: rev_induct)
  case (snoc kv kvs)
  then show ?case by (cases kv) (auto simp: std_map_snoc sorted_wrt_append intro!: map_put_last)
qed simp

lemma std_map_idem: "std_map (std_map kvs) = std_map kvs"
  by (rule std_map_of_sorted [OF std_map_sorted])

end
