(* ===== verification/JsonLexer.thy ===== *)
theory JsonLexer
  imports JsonDump
begin

text \<open>
  The scanner of the JSON library in \<^verbatim>\<open>src/utils/json.hpp\<close>, as \<^verbatim>\<open>json::parse(std::string)\<close> runs it (comments
  are not ignored, the locale is the C locale): reading with one character of look-back, the position for error
  messages, string literals with their escapes and UTF-8 ranges, the automaton for numbers, literals, and the
  tokens. The lemmas show that the scanner never fails an assertion, that every token but the end of the
  input consumes some of it, and which token is found at the text of a string, a number and a literal.
\<close>

section \<open>Tokens and reading\<close>

datatype token_type = T_uninitialized | T_literal_true | T_literal_false | T_literal_null | T_value_string | T_value_unsigned
  | T_value_integer | T_value_float | T_begin_array | T_begin_object | T_end_array | T_end_object | T_name_separator
  | T_value_separator | T_parse_error | T_end_of_input | T_literal_or_value

fun token_type_name :: "token_type \<Rightarrow> string" where
  "token_type_name T_uninitialized = ''<uninitialized>''"
| "token_type_name T_literal_true = ''true literal''"
| "token_type_name T_literal_false = ''false literal''"
| "token_type_name T_literal_null = ''null literal''"
| "token_type_name T_value_string = ''string literal''"
| "token_type_name T_value_unsigned = ''number literal''"
| "token_type_name T_value_integer = ''number literal''"
| "token_type_name T_value_float = ''number literal''"
| "token_type_name T_begin_array = [CHR 0x27, CHR ''['', CHR 0x27]"
| "token_type_name T_begin_object = [CHR 0x27, CHR ''{'', CHR 0x27]"
| "token_type_name T_end_array = [CHR 0x27, CHR '']'', CHR 0x27]"
| "token_type_name T_end_object = [CHR 0x27, CHR ''}'', CHR 0x27]"
| "token_type_name T_name_separator = [CHR 0x27, CHR '':'', CHR 0x27]"
| "token_type_name T_value_separator = [CHR 0x27, CHR '','', CHR 0x27]"
| "token_type_name T_parse_error = ''<parse error>''"
| "token_type_name T_end_of_input = ''end of input''"
| "token_type_name T_literal_or_value = [CHR 0x27, CHR ''['', CHR 0x27, CHR '','', CHR '' '', CHR 0x27, CHR ''{'', CHR 0x27] @ '', or a literal''"

text \<open>
  The members of the lexer. \<open>lx_rest\<close> is what the input adapter has not handed out yet, \<^const>\<open>None\<close> as current
  character is the end of the input, and a floating-point number is kept as its literal.
\<close>

record lexer =
  lx_rest :: string
  lx_current :: "char option"
  lx_unget :: bool
  lx_total :: nat
  lx_line_chars :: nat
  lx_lines :: nat
  lx_token_string :: string
  lx_buffer :: string
  lx_error :: string
  lx_unsigned :: nat
  lx_integer :: int
  lx_float :: string

definition lexer_ctor :: "string \<Rightarrow> lexer" where
  "lexer_ctor s = \<lparr>lx_rest = s, lx_current = None, lx_unget = False, lx_total = 0, lx_line_chars = 0, lx_lines = 0,
     lx_token_string = [], lx_buffer = [], lx_error = [], lx_unsigned = 0, lx_integer = 0, lx_float = []\<rparr>"

text \<open>\<^verbatim>\<open>ia.get_character()\<close>.\<close>

definition get_character :: "lexer \<Rightarrow> lexer" where
  "get_character lx = (case lx_rest lx of [] \<Rightarrow> lx\<lparr>lx_current := None\<rparr> | c # cs \<Rightarrow> lx\<lparr>lx_current := Some c, lx_rest := cs\<rparr>)"

definition lx_get :: "lexer \<Rightarrow> lexer" where
  "lx_get lx =
     (let lx1 = lx\<lparr>lx_total := lx_total lx + 1, lx_line_chars := lx_line_chars lx + 1\<rparr>;
          lx2 = (if lx_unget lx1 then lx1\<lparr>lx_unget := False\<rparr> else get_character lx1);
          lx3 = (case lx_current lx2 of None \<Rightarrow> lx2 | Some c \<Rightarrow> lx2\<lparr>lx_token_string := lx_token_string lx2 @ [c]\<rparr>)
      in if lx_current lx3 = Some (CHR 0x0A) then lx3\<lparr>lx_lines := lx_lines lx3 + 1, lx_line_chars := 0\<rparr> else lx3)"

definition lx_unget_char :: "lexer \<Rightarrow> lexer res" where
  "lx_unget_char lx =
     (let lx1 = lx\<lparr>lx_unget := True, lx_total := lx_total lx - 1\<rparr>;
          lx2 = (if lx_line_chars lx1 = 0
                 then (if lx_lines lx1 > 0 then lx1\<lparr>lx_lines := lx_lines lx1 - 1\<rparr> else lx1)
                 else lx1\<lparr>lx_line_chars := lx_line_chars lx1 - 1\<rparr>)
      in if lx_current lx2 \<noteq> None
         then cxx_assert (lx_token_string lx2 \<noteq> []) (Inr (lx2\<lparr>lx_token_string := butlast (lx_token_string lx2)\<rparr>))
         else Inr lx2)"

definition lx_add :: "char \<Rightarrow> lexer \<Rightarrow> lexer" where
  "lx_add c lx = lx\<lparr>lx_buffer := lx_buffer lx @ [c]\<rparr>"

text \<open>\<^verbatim>\<open>add(current)\<close>, where the current character is not the end of the input.\<close>

definition lx_add_current :: "lexer \<Rightarrow> lexer" where
  "lx_add_current lx = (case lx_current lx of None \<Rightarrow> lx | Some c \<Rightarrow> lx_add c lx)"

text \<open>\<^verbatim>\<open>reset()\<close>; it is called after a character was read.\<close>

definition lx_reset :: "lexer \<Rightarrow> lexer" where
  "lx_reset lx = lx\<lparr>lx_buffer := [], lx_token_string := (case lx_current lx of None \<Rightarrow> [CHR 0xFF] | Some c \<Rightarrow> [c])\<rparr>"

definition lx_fail :: "string \<Rightarrow> lexer \<Rightarrow> lexer" where
  "lx_fail m lx = lx\<lparr>lx_error := m\<rparr>"

text \<open>What is still to be read, and how many characters that is.\<close>

definition todo :: "lexer \<Rightarrow> string" where
  "todo lx = (if lx_unget lx then (case lx_current lx of None \<Rightarrow> lx_rest lx | Some c \<Rightarrow> c # lx_rest lx) else lx_rest lx)"

definition remaining :: "lexer \<Rightarrow> nat" where
  "remaining lx = length (todo lx)"

lemma lx_get_simps [simp]:
  "lx_unget (lx_get lx) = False" "lx_buffer (lx_get lx) = lx_buffer lx" "lx_rest (lx_get lx) = (if lx_unget lx then lx_rest lx else tl (lx_rest lx))"
  by (cases "lx_rest lx"; simp add: lx_get_def get_character_def Let_def split: option.splits)+

lemma lx_get_current:
  "lx_current (lx_get lx) = (if lx_unget lx then lx_current lx else case lx_rest lx of [] \<Rightarrow> None | c # _ \<Rightarrow> Some c)"
  by (cases "lx_rest lx") (simp_all add: lx_get_def get_character_def Let_def split: option.splits)

lemma lx_get_todo: "lx_current (lx_get lx) = Some c \<Longrightarrow> todo lx = c # todo (lx_get lx)"
  by (auto simp: lx_get_current todo_def split: list.splits if_splits)

lemma lx_get_remaining: "lx_current (lx_get lx) \<noteq> None \<Longrightarrow> remaining (lx_get lx) < remaining lx"
  using lx_get_todo [of lx] by (auto simp: remaining_def)

lemma lx_get_remaining_le: "remaining (lx_get lx) \<le> remaining lx"
  by (simp add: remaining_def todo_def split: option.splits)

lemma todo_simps [simp]:
  "todo (lx_add c lx) = todo lx" "todo (lx_add_current lx) = todo lx" "todo (lx_reset lx) = todo lx" "todo (lx_fail m lx) = todo lx"
  "todo (lx\<lparr>lx_unsigned := n\<rparr>) = todo lx" "todo (lx\<lparr>lx_integer := i\<rparr>) = todo lx" "todo (lx\<lparr>lx_float := f\<rparr>) = todo lx"
  by (simp_all add: todo_def lx_add_def lx_add_current_def lx_reset_def lx_fail_def split: option.splits)

lemma remaining_simps [simp]:
  "remaining (lx_add c lx) = remaining lx" "remaining (lx_add_current lx) = remaining lx" "remaining (lx_reset lx) = remaining lx"
  "remaining (lx_fail m lx) = remaining lx" "remaining (lx\<lparr>lx_unsigned := n\<rparr>) = remaining lx" "remaining (lx\<lparr>lx_integer := i\<rparr>) = remaining lx"
  "remaining (lx\<lparr>lx_float := f\<rparr>) = remaining lx"
  by (simp_all add: remaining_def)

section \<open>String literals\<close>

text \<open>The four hexadecimal digits after \<^verbatim>\<open>\u\<close>; \<^const>\<open>None\<close> is \<^verbatim>\<open>-1\<close>.\<close>

definition hex_digit :: "char option \<Rightarrow> nat option" where
  "hex_digit cur =
     (case cur of None \<Rightarrow> None
      | Some c \<Rightarrow> let n = of_char c :: nat in
          if 0x30 \<le> n \<and> n \<le> 0x39 then Some (n - 0x30)
          else if 0x41 \<le> n \<and> n \<le> 0x46 then Some (n - 0x37)
          else if 0x61 \<le> n \<and> n \<le> 0x66 then Some (n - 0x57) else None)"

fun get_codepoint_loop :: "nat list \<Rightarrow> nat \<Rightarrow> lexer \<Rightarrow> nat option \<times> lexer" where
  "get_codepoint_loop [] codepoint lx = (Some codepoint, lx)"
| "get_codepoint_loop (factor # fs) codepoint lx =
     (let lx1 = lx_get lx in
      case hex_digit (lx_current lx1) of
        None \<Rightarrow> (None, lx1)
      | Some d \<Rightarrow> get_codepoint_loop fs (codepoint + push_bit factor d) lx1)"

definition get_codepoint :: "lexer \<Rightarrow> (nat option \<times> lexer) res" where
  "get_codepoint lx =
     cxx_assert (lx_current lx = Some (CHR ''u''))
      (case get_codepoint_loop [12, 8, 4, 0] 0 lx of
         (None, lx1) \<Rightarrow> Inr (None, lx1)
       | (Some codepoint, lx1) \<Rightarrow> cxx_assert (codepoint \<le> 0xFFFF) (Inr (Some codepoint, lx1)))"

fun byte_ranges :: "(nat \<times> nat) list \<Rightarrow> lexer \<Rightarrow> bool \<times> lexer" where
  "byte_ranges [] lx = (True, lx)"
| "byte_ranges (r # rs) lx =
     (let lx1 = lx_get lx in
      case lx_current lx1 of
        None \<Rightarrow> (False, lx_fail ''invalid string: ill-formed UTF-8 byte'' lx1)
      | Some c \<Rightarrow> if fst r \<le> of_char c \<and> of_char c \<le> snd r then byte_ranges rs (lx_add c lx1)
                  else (False, lx_fail ''invalid string: ill-formed UTF-8 byte'' lx1))"

definition next_byte_in_range :: "(nat \<times> nat) list \<Rightarrow> lexer \<Rightarrow> bool \<times> lexer" where
  "next_byte_in_range ranges lx = byte_ranges ranges (lx_add_current lx)"

text \<open>The bytes of a code point.\<close>

definition codepoint_bytes :: "nat \<Rightarrow> string" where
  "codepoint_bytes cp =
     (if cp < 0x80 then [char_of cp]
      else if cp \<le> 0x7FF then [char_of (0xC0 OR drop_bit 6 cp), char_of (0x80 OR (cp AND 0x3F))]
      else if cp \<le> 0xFFFF
      then [char_of (0xE0 OR drop_bit 12 cp), char_of (0x80 OR (drop_bit 6 cp AND 0x3F)), char_of (0x80 OR (cp AND 0x3F))]
      else [char_of (0xF0 OR drop_bit 18 cp), char_of (0x80 OR (drop_bit 12 cp AND 0x3F)), char_of (0x80 OR (drop_bit 6 cp AND 0x3F)),
            char_of (0x80 OR (cp AND 0x3F))])"

definition add_all :: "string \<Rightarrow> lexer \<Rightarrow> lexer" where
  "add_all w lx = lx\<lparr>lx_buffer := lx_buffer lx @ w\<rparr>"

definition msg_hex4 :: string where
  "msg_hex4 = ''invalid string: '' @ [CHR 0x27, CHR 0x5C, CHR ''u'', CHR 0x27] @ '' must be followed by 4 hex digits''"

definition msg_high :: string where
  "msg_high = ''invalid string: surrogate U+D800..U+DBFF must be followed by U+DC00..U+DFFF''"

definition msg_low :: string where
  "msg_low = ''invalid string: surrogate U+DC00..U+DFFF must follow U+D800..U+DBFF''"

text \<open>After a high surrogate: the second half. The result is the code point, or that there was an error.\<close>

definition scan_low_surrogate :: "nat \<Rightarrow> lexer \<Rightarrow> (nat option \<times> lexer) res" where
  "scan_low_surrogate codepoint1 lx =
     (let lx1 = lx_get lx in
      if lx_current lx1 \<noteq> Some (CHR 0x5C) then Inr (None, lx_fail msg_high lx1)
      else let lx2 = lx_get lx1 in
           if lx_current lx2 \<noteq> Some (CHR ''u'') then Inr (None, lx_fail msg_high lx2)
           else bind_res (get_codepoint lx2) (\<lambda>(c2, lx3).
                  case c2 of
                    None \<Rightarrow> Inr (None, lx_fail msg_hex4 lx3)
                  | Some codepoint2 \<Rightarrow>
                      if 0xDC00 \<le> codepoint2 \<and> codepoint2 \<le> 0xDFFF
                      then Inr (Some ((push_bit 10 codepoint1 + codepoint2 + (2 ^ 32 - 0x35FDC00)) mod 2 ^ 32), lx3)
                      else Inr (None, lx_fail msg_high lx3)))"

definition scan_unicode :: "lexer \<Rightarrow> (bool \<times> lexer) res" where
  "scan_unicode lx =
     bind_res (get_codepoint lx) (\<lambda>(c1, lx1).
       case c1 of
         None \<Rightarrow> Inr (False, lx_fail msg_hex4 lx1)
       | Some codepoint1 \<Rightarrow>
           bind_res (if 0xD800 \<le> codepoint1 \<and> codepoint1 \<le> 0xDBFF then scan_low_surrogate codepoint1 lx1
                     else if 0xDC00 \<le> codepoint1 \<and> codepoint1 \<le> 0xDFFF then Inr (None, lx_fail msg_low lx1)
                     else Inr (Some codepoint1, lx1)) (\<lambda>(c, lx2).
             case c of
               None \<Rightarrow> Inr (False, lx2)
             | Some codepoint \<Rightarrow> cxx_assert (codepoint \<le> 0x10FFFF) (Inr (True, add_all (codepoint_bytes codepoint) lx2))))"

definition scan_escape :: "lexer \<Rightarrow> (bool \<times> lexer) res" where
  "scan_escape lx =
     (let lx1 = lx_get lx; cur = lx_current lx1 in
      if cur = Some (CHR 0x22) then Inr (True, lx_add (CHR 0x22) lx1)
      else if cur = Some (CHR 0x5C) then Inr (True, lx_add (CHR 0x5C) lx1)
      else if cur = Some (CHR ''/'') then Inr (True, lx_add (CHR ''/'') lx1)
      else if cur = Some (CHR ''b'') then Inr (True, lx_add (CHR 0x08) lx1)
      else if cur = Some (CHR ''f'') then Inr (True, lx_add (CHR 0x0C) lx1)
      else if cur = Some (CHR ''n'') then Inr (True, lx_add (CHR 0x0A) lx1)
      else if cur = Some (CHR ''r'') then Inr (True, lx_add (CHR 0x0D) lx1)
      else if cur = Some (CHR ''t'') then Inr (True, lx_add (CHR 0x09) lx1)
      else if cur = Some (CHR ''u'') then scan_unicode lx1
      else Inr (False, lx_fail ''invalid string: forbidden character after backslash'' lx1))"

text \<open>The messages for control characters: the name, and the short escape where there is one.\<close>

definition control_names :: "string list" where
  "control_names = [''NUL'', ''SOH'', ''STX'', ''ETX'', ''EOT'', ''ENQ'', ''ACK'', ''BEL'', ''BS'', ''HT'', ''LF'', ''VT'', ''FF'', ''CR'', ''SO'', ''SI'',
     ''DLE'', ''DC1'', ''DC2'', ''DC3'', ''DC4'', ''NAK'', ''SYN'', ''ETB'', ''CAN'', ''EM'', ''SUB'', ''ESC'', ''FS'', ''GS'', ''RS'', ''US'']"

definition control_short :: "nat \<Rightarrow> string" where
  "control_short n =
     (if n = 8 then '' or '' @ [CHR 0x5C, CHR ''b''] else if n = 9 then '' or '' @ [CHR 0x5C, CHR ''t'']
      else if n = 10 then '' or '' @ [CHR 0x5C, CHR ''n''] else if n = 12 then '' or '' @ [CHR 0x5C, CHR ''f'']
      else if n = 13 then '' or '' @ [CHR 0x5C, CHR ''r''] else [])"

definition control_message :: "nat \<Rightarrow> string" where
  "control_message n =
     ''invalid string: control character U+00'' @ hex_bytes n @ '' ('' @ control_names ! n @ '') must be escaped to '' @ [CHR 0x5C] @ ''u00'' @
     hex_bytes n @ control_short n"

text \<open>A character of a string that is neither the end of the input, a quote nor a backslash.\<close>

definition scan_string_char :: "char \<Rightarrow> lexer \<Rightarrow> bool \<times> lexer" where
  "scan_string_char c lx =
     (let n = of_char c :: nat in
      if n \<le> 0x1F then (False, lx_fail (control_message n) lx)
      else if n \<le> 0x7F then (True, lx_add c lx)
      else if 0xC2 \<le> n \<and> n \<le> 0xDF then next_byte_in_range [(0x80, 0xBF)] lx
      else if n = 0xE0 then next_byte_in_range [(0xA0, 0xBF), (0x80, 0xBF)] lx
      else if 0xE1 \<le> n \<and> n \<le> 0xEC \<or> n = 0xEE \<or> n = 0xEF then next_byte_in_range [(0x80, 0xBF), (0x80, 0xBF)] lx
      else if n = 0xED then next_byte_in_range [(0x80, 0x9F), (0x80, 0xBF)] lx
      else if n = 0xF0 then next_byte_in_range [(0x90, 0xBF), (0x80, 0xBF), (0x80, 0xBF)] lx
      else if 0xF1 \<le> n \<and> n \<le> 0xF3 then next_byte_in_range [(0x80, 0xBF), (0x80, 0xBF), (0x80, 0xBF)] lx
      else if n = 0xF4 then next_byte_in_range [(0x80, 0x8F), (0x80, 0xBF), (0x80, 0xBF)] lx
      else (False, lx_fail ''invalid string: ill-formed UTF-8 byte'' lx))"

lemma codepoint_loop_remaining: "remaining (snd (get_codepoint_loop fs cp lx)) \<le> remaining lx"
proof (induction fs cp lx rule: get_codepoint_loop.induct)
  case (2 factor fs cp lx)
  then show ?case using lx_get_remaining_le [of lx] by (auto simp: Let_def split: option.splits intro: order_trans)
qed simp

lemma get_codepoint_remaining: "get_codepoint lx = Inr (c, lx') \<Longrightarrow> remaining lx' \<le> remaining lx"
  using codepoint_loop_remaining [of "[12, 8, 4, 0]" 0 lx]
  by (auto simp: get_codepoint_def res_simps split: prod.splits option.splits)

lemma scan_low_remaining: "scan_low_surrogate cp lx = Inr (c, lx') \<Longrightarrow> remaining lx' \<le> remaining lx"
  using lx_get_remaining_le [of lx] lx_get_remaining_le [of "lx_get lx"]
  by (auto simp: scan_low_surrogate_def Let_def res_simps split: if_splits option.splits dest!: get_codepoint_remaining)

lemma add_all_remaining [simp]: "remaining (add_all w lx) = remaining lx"
  by (simp add: add_all_def remaining_def todo_def split: option.splits)

lemma scan_unicode_remaining: "scan_unicode lx = Inr (b, lx') \<Longrightarrow> remaining lx' \<le> remaining lx"
  by (force simp: scan_unicode_def Let_def res_simps split: if_splits option.splits dest: get_codepoint_remaining scan_low_remaining)

lemma scan_escape_remaining: "scan_escape lx = Inr (b, lx') \<Longrightarrow> remaining lx' \<le> remaining lx"
  using lx_get_remaining_le [of lx]
  by (auto simp: scan_escape_def Let_def res_simps split: if_splits dest!: scan_unicode_remaining)

lemma byte_ranges_remaining: "remaining (snd (byte_ranges rs lx)) \<le> remaining lx"
proof (induction rs lx rule: byte_ranges.induct)
  case (2 r rs lx)
  then show ?case using lx_get_remaining_le [of lx] by (auto simp: Let_def split: option.splits intro: order_trans)
qed simp

lemma scan_string_char_remaining: "remaining (snd (scan_string_char c lx)) \<le> remaining lx"
proof -
  have "remaining (snd (next_byte_in_range rs lx)) \<le> remaining lx" for rs
    using byte_ranges_remaining [of rs "lx_add_current lx"] by (simp add: next_byte_in_range_def)
  then show ?thesis by (simp add: scan_string_char_def Let_def)
qed

lemma scan_string_step:
  assumes "lx_current (lx_get lx) = Some c"
    and "(if c = CHR 0x5C then scan_escape (lx_get lx) else Inr (scan_string_char c (lx_get lx))) = Inr (ok, lx1)"
  shows "remaining lx1 < remaining lx"
  using lx_get_remaining [of lx] assms scan_escape_remaining [of "lx_get lx" ok lx1] scan_string_char_remaining [of c "lx_get lx"]
  by (auto split: if_splits)

function scan_string_loop :: "lexer \<Rightarrow> (token_type \<times> lexer) res" where
  "scan_string_loop lx =
     (case lx_current (lx_get lx) of
        None \<Rightarrow> Inr (T_parse_error, lx_fail ''invalid string: missing closing quote'' (lx_get lx))
      | Some c \<Rightarrow>
          if c = CHR 0x22 then Inr (T_value_string, lx_get lx)
          else bind_res (if c = CHR 0x5C then scan_escape (lx_get lx) else Inr (scan_string_char c (lx_get lx))) (\<lambda>(ok, lx1).
                 if ok then scan_string_loop lx1 else Inr (T_parse_error, lx1)))"
  by pat_completeness auto

termination
  by (relation "measure remaining") (auto dest: scan_string_step)

declare scan_string_loop.simps [simp del]

definition scan_string :: "lexer \<Rightarrow> (token_type \<times> lexer) res" where
  "scan_string lx = cxx_assert (lx_current lx = Some (CHR 0x22)) (scan_string_loop (lx_reset lx))"

section \<open>Number literals\<close>

text \<open>The labels of \<^verbatim>\<open>scan_number\<close>, and where the character read there leads.\<close>

datatype number_state = N_minus | N_zero | N_any1 | N_decimal1 | N_decimal2 | N_exponent | N_sign | N_any2

datatype jump = Goto number_state | Done | Fail string

definition opt_digit :: "char option \<Rightarrow> bool" where
  "opt_digit cur = (case cur of None \<Rightarrow> False | Some c \<Rightarrow> is_digit c)"

fun number_jump :: "number_state \<Rightarrow> char option \<Rightarrow> jump" where
  "number_jump N_minus cur =
     (if cur = Some (CHR ''0'') then Goto N_zero else if opt_digit cur then Goto N_any1
      else Fail (''invalid number; expected digit after '' @ [CHR 0x27, CHR ''-'', CHR 0x27]))"
| "number_jump N_zero cur =
     (if cur = Some (CHR ''.'') then Goto N_decimal1
      else if cur = Some (CHR ''e'') \<or> cur = Some (CHR ''E'') then Goto N_exponent else Done)"
| "number_jump N_any1 cur =
     (if opt_digit cur then Goto N_any1 else if cur = Some (CHR ''.'') then Goto N_decimal1
      else if cur = Some (CHR ''e'') \<or> cur = Some (CHR ''E'') then Goto N_exponent else Done)"
| "number_jump N_decimal1 cur =
     (if opt_digit cur then Goto N_decimal2 else Fail (''invalid number; expected digit after '' @ [CHR 0x27, CHR ''.'', CHR 0x27]))"
| "number_jump N_decimal2 cur =
     (if opt_digit cur then Goto N_decimal2 else if cur = Some (CHR ''e'') \<or> cur = Some (CHR ''E'') then Goto N_exponent else Done)"
| "number_jump N_exponent cur =
     (if cur = Some (CHR ''+'') \<or> cur = Some (CHR ''-'') then Goto N_sign else if opt_digit cur then Goto N_any2
      else Fail (''invalid number; expected '' @ [CHR 0x27, CHR ''+'', CHR 0x27, CHR '','', CHR '' '', CHR 0x27, CHR ''-'', CHR 0x27] @ '', or digit after exponent''))"
| "number_jump N_sign cur = (if opt_digit cur then Goto N_any2 else Fail ''invalid number; expected digit after exponent sign'')"
| "number_jump N_any2 cur = (if opt_digit cur then Goto N_any2 else Done)"

text \<open>The assignments to \<^verbatim>\<open>number_type\<close> at the labels.\<close>

definition number_type_at :: "number_state \<Rightarrow> token_type \<Rightarrow> token_type" where
  "number_type_at st ty = (if st = N_minus then T_value_integer else if st = N_decimal1 \<or> st = N_exponent then T_value_float else ty)"

lemma jump_reads: "number_jump st cur = Goto st' \<Longrightarrow> cur \<noteq> None"
  by (cases st; cases cur) (auto simp: opt_digit_def split: if_splits)

text \<open>\<^verbatim>\<open>add(current)\<close>; the decimal point of the C locale is the one read.\<close>

function scan_number_loop :: "number_state \<Rightarrow> token_type \<Rightarrow> lexer \<Rightarrow> token_type option \<times> lexer" where
  "scan_number_loop st ty lx =
     (case number_jump st (lx_current (lx_get lx)) of
        Goto st' \<Rightarrow> scan_number_loop st' (number_type_at st ty) (lx_add_current (lx_get lx))
      | Done \<Rightarrow> (Some (number_type_at st ty), lx_get lx)
      | Fail m \<Rightarrow> (None, lx_fail m (lx_get lx)))"
  by pat_completeness auto

termination
  by (relation "measure (\<lambda>(_, _, lx). remaining lx)") (auto dest: jump_reads simp: lx_get_remaining)

declare scan_number_loop.simps [simp del]

text \<open>
  The conversions. \<^verbatim>\<open>strtoull\<close> and \<^verbatim>\<open>strtoll\<close> set \<^verbatim>\<open>errno\<close> outside their ranges, here \<^const>\<open>None\<close>; a literal that
  \<^verbatim>\<open>strtod\<close> rounds to infinity is at least \<open>2 ^ 1024 - 2 ^ 970\<close>.
\<close>

definition strtoull :: "string \<Rightarrow> nat option" where
  "strtoull ds = (let v = digits_val ds in if v < 2 ^ 64 then Some v else None)"

definition strtoll :: "string \<Rightarrow> int option" where
  "strtoll s = (let z = (case s of c # ds \<Rightarrow> if c = CHR ''-'' then - int (digits_val ds) else int (digits_val s) | [] \<Rightarrow> 0)
     in if -(2 ^ 63) \<le> z \<and> z < 2 ^ 63 then Some z else None)"

definition isfinite_literal :: "string \<Rightarrow> bool" where
  "isfinite_literal s =
     (let t = dropWhile (\<lambda>c. c = CHR ''-'') s;
          ip = takeWhile is_digit t; t1 = dropWhile is_digit t;
          fp = (case t1 of c # r \<Rightarrow> if c = CHR ''.'' then takeWhile is_digit r else [] | [] \<Rightarrow> []);
          t2 = (case t1 of c # r \<Rightarrow> if c = CHR ''.'' then dropWhile is_digit r else t1 | [] \<Rightarrow> []);
          neg = (case t2 of _ # c # _ \<Rightarrow> c = CHR ''-'' | _ \<Rightarrow> False);
          e = int (digits_val (filter is_digit t2));
          p = (if neg then - e else e) - int (length fp);
          d = digits_val (ip @ fp)
      in if 0 \<le> p then d * 10 ^ nat p < 2 ^ 1024 - 2 ^ 970 else d < (2 ^ 1024 - 2 ^ 970) * 10 ^ nat (- p))"

definition number_done :: "token_type \<Rightarrow> lexer \<Rightarrow> token_type \<times> lexer" where
  "number_done ty lx =
     (let as_float = (T_value_float, lx\<lparr>lx_float := lx_buffer lx\<rparr>) in
      if ty = T_value_unsigned
      then (case strtoull (lx_buffer lx) of Some x \<Rightarrow> (T_value_unsigned, lx\<lparr>lx_unsigned := x\<rparr>) | None \<Rightarrow> as_float)
      else if ty = T_value_integer
      then (case strtoll (lx_buffer lx) of Some x \<Rightarrow> (T_value_integer, lx\<lparr>lx_integer := x\<rparr>) | None \<Rightarrow> as_float)
      else as_float)"

definition scan_number :: "lexer \<Rightarrow> (token_type \<times> lexer) res" where
  "scan_number lx =
     (let lx0 = lx_reset lx; cur = lx_current lx0 in
      cxx_assert (cur = Some (CHR ''-'') \<or> opt_digit cur)
       (case scan_number_loop (if cur = Some (CHR ''-'') then N_minus else if cur = Some (CHR ''0'') then N_zero else N_any1)
               T_value_unsigned (lx_add_current lx0) of
          (None, lx1) \<Rightarrow> Inr (T_parse_error, lx1)
        | (Some ty, lx1) \<Rightarrow> bind_res (lx_unget_char lx1) (\<lambda>lx2. Inr (number_done ty lx2))))"

section \<open>Tokens\<close>

fun scan_literal_loop :: "string \<Rightarrow> token_type \<Rightarrow> lexer \<Rightarrow> token_type \<times> lexer" where
  "scan_literal_loop [] ty lx = (ty, lx)"
| "scan_literal_loop (c # cs) ty lx =
     (if lx_current (lx_get lx) \<noteq> Some c then (T_parse_error, lx_fail ''invalid literal'' (lx_get lx))
      else scan_literal_loop cs ty (lx_get lx))"

definition scan_literal :: "string \<Rightarrow> token_type \<Rightarrow> lexer \<Rightarrow> (token_type \<times> lexer) res" where
  "scan_literal literal_text ty lx = cxx_assert (lx_current lx = Some (hd literal_text)) (Inr (scan_literal_loop (tl literal_text) ty lx))"

definition skip_bom :: "lexer \<Rightarrow> (bool \<times> lexer) res" where
  "skip_bom lx =
     (let lx1 = lx_get lx in
      if lx_current lx1 = Some (CHR 0xEF)
      then let lx2 = lx_get lx1 in
           if lx_current lx2 = Some (CHR 0xBB) then Inr (lx_current (lx_get lx2) = Some (CHR 0xBF), lx_get lx2) else Inr (False, lx2)
      else bind_res (lx_unget_char lx1) (\<lambda>lx2. Inr (True, lx2)))"

definition json_space :: "char option \<Rightarrow> bool" where
  "json_space cur \<longleftrightarrow> cur \<in> {Some (CHR '' ''), Some (CHR 0x09), Some (CHR 0x0A), Some (CHR 0x0D)}"

function skip_whitespace :: "lexer \<Rightarrow> lexer" where
  "skip_whitespace lx = (if json_space (lx_current (lx_get lx)) then skip_whitespace (lx_get lx) else lx_get lx)"
  by pat_completeness auto

termination
proof (relation "measure remaining")
  fix lx assume "json_space (lx_current (lx_get lx))"
  then have "lx_current (lx_get lx) \<noteq> None" by (auto simp: json_space_def)
  then show "(lx_get lx, lx) \<in> measure remaining" by (simp add: lx_get_remaining)
qed simp

declare skip_whitespace.simps [simp del]

definition scan_current :: "lexer \<Rightarrow> (token_type \<times> lexer) res" where
  "scan_current lx =
     (case lx_current lx of
        None \<Rightarrow> Inr (T_end_of_input, lx)
      | Some c \<Rightarrow>
          if c = CHR ''['' then Inr (T_begin_array, lx)
          else if c = CHR '']'' then Inr (T_end_array, lx)
          else if c = CHR ''{'' then Inr (T_begin_object, lx)
          else if c = CHR ''}'' then Inr (T_end_object, lx)
          else if c = CHR '':'' then Inr (T_name_separator, lx)
          else if c = CHR '','' then Inr (T_value_separator, lx)
          else if c = CHR ''t'' then scan_literal ''true'' T_literal_true lx
          else if c = CHR ''f'' then scan_literal ''false'' T_literal_false lx
          else if c = CHR ''n'' then scan_literal ''null'' T_literal_null lx
          else if c = CHR 0x22 then scan_string lx
          else if c = CHR ''-'' \<or> is_digit c then scan_number lx
          else if c = CHR 0x00 then Inr (T_end_of_input, lx)
          else Inr (T_parse_error, lx_fail ''invalid literal'' lx))"

definition scan :: "lexer \<Rightarrow> (token_type \<times> lexer) res" where
  "scan lx =
     bind_res (if lx_total lx = 0 then skip_bom lx else Inr (True, lx)) (\<lambda>(ok, lx1).
       if \<not> ok then Inr (T_parse_error, lx_fail ''invalid BOM; must be 0xEF 0xBB 0xBF if given'' lx1)
       else scan_current (skip_whitespace lx1))"

definition get_token_string :: "lexer \<Rightarrow> string" where
  "get_token_string lx =
     concat (map (\<lambda>c. if of_char c \<le> (0x1F :: nat) then ''<U+00'' @ hex_bytes (of_char c) @ ''>'' else [c]) (lx_token_string lx))"

section \<open>Reading and giving back\<close>

lemma unget_total: "\<exists>lx'. lx_unget_char (lx_get lx) = Inr lx' \<and> todo lx' = todo lx \<and> lx_unget lx' \<and> lx_current lx' = lx_current (lx_get lx) \<and>
    lx_rest lx' = lx_rest (lx_get lx) \<and> lx_buffer lx' = lx_buffer lx"
proof -
  have ts: "lx_current (lx_get lx) \<noteq> None \<Longrightarrow> lx_token_string (lx_get lx) \<noteq> []"
    by (auto simp: lx_get_def Let_def split: option.splits)
  have td: "(case lx_current (lx_get lx) of None \<Rightarrow> lx_rest (lx_get lx) | Some c \<Rightarrow> c # lx_rest (lx_get lx)) = todo lx"
    by (auto simp: lx_get_current todo_def split: list.splits option.splits)
  show ?thesis using ts td by (auto simp: lx_unget_char_def Let_def todo_def)
qed

section \<open>The scanner ends with a token\<close>

lemma hex_digit_lt: "hex_digit cur = Some d \<Longrightarrow> d < 16"
  by (auto simp: hex_digit_def Let_def split: option.splits if_splits)

lemma get_codepoint_total: "lx_current lx = Some (CHR ''u'') \<Longrightarrow> \<exists>c lx'. get_codepoint lx = Inr (c, lx') \<and> lx_buffer lx' = lx_buffer lx \<and>
    (\<forall>cp. c = Some cp \<longrightarrow> cp \<le> 0xFFFF)"
proof -
  assume u: "lx_current lx = Some (CHR ''u'')"
  have b: "lx_buffer (snd (get_codepoint_loop fs cp l)) = lx_buffer l" for fs cp l
    by (induction fs cp l rule: get_codepoint_loop.induct) (auto simp: Let_def split: option.splits)
  have "fst (get_codepoint_loop [12, 8, 4, 0] 0 lx) = Some cp \<Longrightarrow> cp \<le> 0xFFFF" for cp
    by (auto simp: Let_def push_bit_eq_mult split: option.splits dest!: hex_digit_lt)
  with u b [of "[12, 8, 4, 0]" 0 lx] show ?thesis
    by (auto simp: get_codepoint_def split: prod.splits option.splits)
qed

lemma scan_low_total:
  assumes "0xD800 \<le> cp" and "cp \<le> 0xDBFF"
  shows "\<exists>c lx'. scan_low_surrogate cp lx = Inr (c, lx') \<and> lx_buffer lx' = lx_buffer lx \<and> (\<forall>x. c = Some x \<longrightarrow> 0x10000 \<le> x \<and> x \<le> 0x10FFFF)"
proof (cases "lx_current (lx_get (lx_get lx)) = Some (CHR ''u'')")
  case True
  from get_codepoint_total [OF this] obtain c2 lx3 where g: "get_codepoint (lx_get (lx_get lx)) = Inr (c2, lx3)" "lx_buffer lx3 = lx_buffer lx" by auto
  have "0x10000 \<le> (push_bit 10 cp + x + (2 ^ 32 - 0x35FDC00)) mod 2 ^ 32 \<and> (push_bit 10 cp + x + (2 ^ 32 - 0x35FDC00)) mod 2 ^ 32 \<le> 0x10FFFF"
    if "0xDC00 \<le> x" "x \<le> 0xDFFF" for x :: nat
  proof -
    have "push_bit 10 cp + x + (2 ^ 32 - 0x35FDC00) = (cp * 1024 + x - 0x35FDC00) + 2 ^ 32"
      using assms that by (simp add: push_bit_eq_mult)
    moreover have "cp * 1024 + x - 0x35FDC00 < 2 ^ 32" using assms that by simp
    ultimately have "(push_bit 10 cp + x + (2 ^ 32 - 0x35FDC00)) mod 2 ^ 32 = cp * 1024 + x - 0x35FDC00"
      by (simp only: mod_add_self2 mod_less)
    then show ?thesis using assms that by linarith
  qed
  with True g show ?thesis by (auto simp: scan_low_surrogate_def Let_def lx_fail_def split: option.splits)
next
  case False
  then show ?thesis by (auto simp: scan_low_surrogate_def Let_def lx_fail_def)
qed

text \<open>The bytes that a code point is translated to are well-formed.\<close>

lemma or_low: "x < 2 ^ k \<Longrightarrow> push_bit k (q :: nat) OR x = q * 2 ^ k + x"
proof -
  assume "x < 2 ^ k"
  then have t: "x = take_bit k x" by (simp add: take_bit_nat_eq_self)
  have "push_bit k q AND take_bit k x = 0"
    by (rule bit_eqI) (auto simp: bit_and_iff bit_take_bit_iff bit_push_bit_iff)
  then have "push_bit k q OR take_bit k x = push_bit k q + take_bit k x" by (simp add: disjunctive_add_eq_or)
  with t show ?thesis by (simp add: push_bit_eq_mult)
qed

lemma or_parts:
  "x < 64 \<Longrightarrow> 0x80 OR x = 0x80 + (x :: nat)" "x < 32 \<Longrightarrow> 0xC0 OR x = 0xC0 + (x :: nat)"
  "x < 16 \<Longrightarrow> 0xE0 OR x = 0xE0 + (x :: nat)" "x < 8 \<Longrightarrow> 0xF0 OR x = 0xF0 + (x :: nat)"
  using or_low [of x 6 2] or_low [of x 5 6] or_low [of x 4 14] or_low [of x 3 30] by (simp_all add: push_bit_eq_mult)

lemma and_63: "x AND 0x3F = x mod (64 :: nat)"
proof -
  have "(0x3F :: nat) = mask 6" by (simp add: mask_eq_exp_minus_1)
  then have "x AND 0x3F = take_bit 6 x" by (simp only: take_bit_eq_mask)
  then show ?thesis by (simp add: take_bit_eq_mod)
qed

definition utf8_bytes :: "nat \<Rightarrow> nat list" where
  "utf8_bytes cp =
     (if cp < 0x80 then [cp] else if cp \<le> 0x7FF then [0xC0 + cp div 64, 0x80 + cp mod 64]
      else if cp \<le> 0xFFFF then [0xE0 + cp div 4096, 0x80 + cp div 64 mod 64, 0x80 + cp mod 64]
      else [0xF0 + cp div 262144, 0x80 + cp div 4096 mod 64, 0x80 + cp div 64 mod 64, 0x80 + cp mod 64])"

lemma codepoint_bytes_eq: "cp \<le> 0x10FFFF \<Longrightarrow> codepoint_bytes cp = map char_of (utf8_bytes cp)"
proof -
  assume cp: "cp \<le> 0x10FFFF"
  have m: "x mod 64 < 64" for x :: nat by simp
  have d: "cp \<le> 0x7FF \<Longrightarrow> cp div 64 < 32" "cp \<le> 0xFFFF \<Longrightarrow> cp div 4096 < 16" "cp div 262144 < 8" using cp by linarith+
  show ?thesis
    unfolding codepoint_bytes_def utf8_bytes_def and_63 drop_bit_eq_div
    using d by (simp add: or_parts(1) [OF m] or_parts(2-4))
qed

lemma utf8_codepoint:
  assumes "cp \<le> 0x10FFFF" and "\<not> (0xD800 \<le> cp \<and> cp \<le> 0xDFFF)"
  shows "utf8 (codepoint_bytes cp)"
proof -
  consider "cp < 0x80" | "0x80 \<le> cp" "cp \<le> 0x7FF" | "0x800 \<le> cp" "cp \<le> 0xFFFF" | "0x10000 \<le> cp" by linarith
  then show ?thesis
  proof cases
    case 1
    then show ?thesis unfolding codepoint_bytes_eq [OF assms(1)] by (simp add: utf8_bytes_def utf8_def utf8_start_def)
  next
    case 2
    then have "2 \<le> cp div 64" "cp div 64 < 32" by linarith+
    moreover have "cp mod 64 < 64" by simp
    ultimately show ?thesis using 2 unfolding codepoint_bytes_eq [OF assms(1)]
      by (simp add: utf8_bytes_def utf8_def utf8_start_def in_range_def)
  next
    case 3
    have dv: "cp div 64 div 64 = cp div 4096" by (simp add: div_mult2_eq [symmetric])
    have eq: "cp div 64 = 64 * (cp div 4096) + cp div 64 mod 64" using div_mult_mod_eq [of "cp div 64" 64] dv by simp
    have "cp div 4096 < 16" using 3 by linarith
    moreover have "cp mod 64 \<le> 63" "cp div 64 mod 64 \<le> 63" using mod_less_divisor [of 64 cp] mod_less_divisor [of 64 "cp div 64"] by linarith+
    moreover have "cp div 4096 = 0 \<Longrightarrow> 32 \<le> cp div 64 mod 64" "cp div 4096 = 0 \<Longrightarrow> cp div 64 \<le> 63" using eq 3 by linarith+
    moreover have "cp div 4096 = 13 \<Longrightarrow> cp div 64 mod 64 \<le> 31" using eq 3 assms(2) by linarith
    ultimately show ?thesis using 3 unfolding codepoint_bytes_eq [OF assms(1)]
      by (simp add: utf8_bytes_def utf8_def utf8_start_def in_range_def)
  next
    case 4
    have dv: "cp div 4096 div 64 = cp div 262144" by (simp add: div_mult2_eq [symmetric])
    have eq: "cp div 4096 = 64 * (cp div 262144) + cp div 4096 mod 64" using div_mult_mod_eq [of "cp div 4096" 64] dv by simp
    have "cp div 262144 < 5" using assms(1) by linarith
    moreover have "cp mod 64 \<le> 63" "cp div 64 mod 64 \<le> 63" "cp div 4096 mod 64 \<le> 63"
      using mod_less_divisor [of 64 cp] mod_less_divisor [of 64 "cp div 64"] mod_less_divisor [of 64 "cp div 4096"] by linarith+
    moreover have "cp div 262144 = 0 \<Longrightarrow> 16 \<le> cp div 4096 mod 64" "cp div 262144 = 0 \<Longrightarrow> cp div 4096 \<le> 63" using eq 4 by linarith+
    moreover have "cp div 262144 = 4 \<Longrightarrow> cp div 4096 mod 64 \<le> 15" using eq assms(1) by linarith
    ultimately show ?thesis using 4 unfolding codepoint_bytes_eq [OF assms(1)]
      by (simp add: utf8_bytes_def utf8_def utf8_start_def in_range_def)
  qed
qed

lemma buffer_simps [simp]:
  "lx_buffer (lx_add c lx) = lx_buffer lx @ [c]" "lx_buffer (add_all w lx) = lx_buffer lx @ w" "lx_buffer (lx_fail m lx) = lx_buffer lx"
  "lx_buffer (lx_reset lx) = []" "lx_current (lx_add c lx) = lx_current lx" "lx_current (lx_reset lx) = lx_current lx"
  "lx_current (lx_fail m lx) = lx_current lx"
  by (simp_all add: lx_add_def add_all_def lx_fail_def lx_reset_def)

lemma utf8_single: "of_char c \<le> (0x7F :: nat) \<Longrightarrow> utf8 [c]"
  by (rule utf8_ascii) auto

lemma scan_unicode_total:
  assumes "lx_current lx = Some (CHR ''u'')" and "utf8 (lx_buffer lx)"
  shows "\<exists>b lx'. scan_unicode lx = Inr (b, lx') \<and> (b \<longrightarrow> utf8 (lx_buffer lx'))"
proof -
  from get_codepoint_total [OF assms(1)] obtain c1 lx1 where g: "get_codepoint lx = Inr (c1, lx1)" "lx_buffer lx1 = lx_buffer lx"
    "\<And>cp. c1 = Some cp \<Longrightarrow> cp \<le> 0xFFFF" by blast
  show ?thesis
  proof (cases c1)
    case None
    with g show ?thesis by (auto simp: scan_unicode_def)
  next
    case (Some cp)
    with g have cp: "cp \<le> 0xFFFF" by simp
    consider "0xD800 \<le> cp" "cp \<le> 0xDBFF" | "0xDC00 \<le> cp" "cp \<le> 0xDFFF" | "\<not> (0xD800 \<le> cp \<and> cp \<le> 0xDFFF)" by linarith
    then show ?thesis
    proof cases
      case 1
      from scan_low_total [OF 1] obtain c lx2 where l: "scan_low_surrogate cp lx1 = Inr (c, lx2)" "lx_buffer lx2 = lx_buffer lx1"
        "\<And>x. c = Some x \<Longrightarrow> 0x10000 \<le> x \<and> x \<le> 0x10FFFF" by blast
      show ?thesis
      proof (cases c)
        case None
        with Some g l 1 show ?thesis by (auto simp: scan_unicode_def)
      next
        case (Some x)
        with l(3) have x: "0x10000 \<le> x" "x \<le> 0x10FFFF" by blast+
        with utf8_append [OF assms(2) utf8_codepoint [of x]] Some \<open>c1 = Some cp\<close> g l 1 show ?thesis by (auto simp: scan_unicode_def)
      qed
    next
      case 2
      with Some g show ?thesis by (auto simp: scan_unicode_def)
    next
      case 3
      with utf8_append [OF assms(2) utf8_codepoint [of cp]] Some g cp show ?thesis by (auto simp: scan_unicode_def)
    qed
  qed
qed

lemma scan_escape_total: "utf8 (lx_buffer lx) \<Longrightarrow> \<exists>b lx'. scan_escape lx = Inr (b, lx') \<and> (b \<longrightarrow> utf8 (lx_buffer lx'))"
proof (cases "lx_current (lx_get lx) = Some (CHR ''u'')")
  case True
  assume "utf8 (lx_buffer lx)"
  with scan_unicode_total [OF True] True show ?thesis by (simp add: scan_escape_def Let_def)
next
  case False
  assume "utf8 (lx_buffer lx)"
  then have "of_char c \<le> (0x7F :: nat) \<Longrightarrow> utf8 (lx_buffer lx @ [c])" for c by (blast intro: utf8_append utf8_single)
  with False show ?thesis by (auto simp: scan_escape_def Let_def)
qed

text \<open>Bytes beyond ASCII: the ranges are those of the table.\<close>

lemma scan_string_char_high:
  assumes "(0x7F :: nat) < of_char c"
  shows "scan_string_char c lx = (case utf8_start (of_char c) of
    None \<Rightarrow> (False, lx_fail ''invalid string: ill-formed UTF-8 byte'' lx) | Some rs \<Rightarrow> next_byte_in_range rs lx)"
  using assms unfolding scan_string_char_def utf8_start_def Let_def by auto

lemma byte_ranges_true: "byte_ranges rs lx = (True, lx') \<Longrightarrow> \<exists>cs. list_all2 in_range rs cs \<and> lx_buffer lx' = lx_buffer lx @ cs"
proof (induction rs lx rule: byte_ranges.induct)
  case (2 r rs lx)
  then obtain c where c: "lx_current (lx_get lx) = Some c" "in_range r c" "byte_ranges rs (lx_add c (lx_get lx)) = (True, lx')"
    by (auto simp: Let_def in_range_def split: option.splits if_splits)
  with 2(1) [OF refl c(1)] obtain cs where "list_all2 in_range rs cs" "lx_buffer lx' = lx_buffer lx @ c # cs"
    by (fastforce simp: in_range_def [of r])
  with c(2) have "list_all2 in_range (r # rs) (c # cs)" "lx_buffer lx' = lx_buffer lx @ c # cs" by simp_all
  then show ?case by blast
qed simp

lemma scan_string_char_utf8:
  assumes "lx_current lx = Some c" and "utf8 (lx_buffer lx)" and "scan_string_char c lx = (True, lx')"
  shows "utf8 (lx_buffer lx')"
proof (cases "of_char c \<le> (0x7F :: nat)")
  case True
  with assms(3) have "lx' = lx_add c lx" by (auto simp: scan_string_char_def Let_def split: if_splits)
  with True assms(2) show ?thesis by (simp add: utf8_append utf8_single)
next
  case False
  with assms(3) obtain rs where rs: "utf8_start (of_char c) = Some rs" "byte_ranges rs (lx_add_current lx) = (True, lx')"
    by (auto simp: scan_string_char_high next_byte_in_range_def split: option.splits)
  from byte_ranges_true [OF rs(2)] assms(1) obtain cs where cs: "list_all2 in_range rs cs" "lx_buffer lx' = lx_buffer lx @ c # cs"
    by (auto simp: lx_add_current_def)
  have "utf8 (c # cs)" using rs(1) utf8_tail_app [OF cs(1), of "[]"] by (simp add: utf8_def)
  with cs(2) assms(2) show ?thesis by (simp add: utf8_append)
qed

lemma scan_string_loop_total:
  "utf8 (lx_buffer lx) \<Longrightarrow> \<exists>tok lx'. scan_string_loop lx = Inr (tok, lx') \<and> remaining lx' \<le> remaining lx \<and>
    (tok = T_parse_error \<or> tok = T_value_string \<and> utf8 (lx_buffer lx'))"
proof (induction lx rule: scan_string_loop.induct)
  case (1 lx)
  show ?case
  proof (cases "lx_current (lx_get lx)")
    case None
    then show ?thesis using lx_get_remaining_le [of lx] by (subst scan_string_loop.simps) simp
  next
    case (Some c)
    let ?r = "if c = CHR 0x5C then scan_escape (lx_get lx) else Inr (scan_string_char c (lx_get lx))"
    have "\<exists>ok lx1. ?r = Inr (ok, lx1) \<and> (ok \<longrightarrow> utf8 (lx_buffer lx1))"
    proof (cases "c = CHR 0x5C")
      case True
      then show ?thesis using scan_escape_total [of "lx_get lx"] 1(2) by simp
    next
      case False
      then show ?thesis using 1(2) scan_string_char_utf8 [OF Some] by (cases "scan_string_char c (lx_get lx)") auto
    qed
    then obtain ok lx1 where r: "?r = Inr (ok, lx1)" "ok \<longrightarrow> utf8 (lx_buffer lx1)" by blast
    have "remaining lx1 < remaining lx" using scan_string_step [OF Some r(1)] .
    show ?thesis
    proof (cases "c \<noteq> CHR 0x22 \<and> ok")
      case True
      then obtain tok lx' where "scan_string_loop lx1 = Inr (tok, lx')" "remaining lx' \<le> remaining lx1"
        "tok = T_parse_error \<or> tok = T_value_string \<and> utf8 (lx_buffer lx')"
        using 1(1) [OF Some _ r(1) refl] r(2) by blast
      with True Some r \<open>remaining lx1 < remaining lx\<close> show ?thesis by (subst scan_string_loop.simps) auto
    next
      case False
      with Some r \<open>remaining lx1 < remaining lx\<close> 1(2) lx_get_remaining_le [of lx] show ?thesis by (subst scan_string_loop.simps) auto
    qed
  qed
qed

lemma scan_number_loop_ends:
  "scan_number_loop st ty lx = (r, lx1) \<Longrightarrow> remaining lx1 \<le> remaining lx \<and> (r \<noteq> None \<longrightarrow> (\<exists>lx0. lx1 = lx_get lx0 \<and> remaining lx0 \<le> remaining lx))"
proof (induction st ty lx rule: scan_number_loop.induct)
  case (1 st ty lx)
  note eq = trans [OF scan_number_loop.simps [symmetric] 1(2)]
  have le: "remaining (lx_get lx) \<le> remaining lx" by (rule lx_get_remaining_le)
  show ?case
  proof (cases "number_jump st (lx_current (lx_get lx))")
    case (Goto st')
    with eq have "scan_number_loop st' (number_type_at st ty) (lx_add_current (lx_get lx)) = (r, lx1)" by simp
    from 1(1) [OF Goto this] le show ?thesis by (auto dest: order_trans)
  next
    case Done
    with eq le show ?thesis by auto
  next
    case (Fail m)
    with eq le show ?thesis by auto
  qed
qed

lemma number_done_token: "number_done ty lx = (tok, lx') \<Longrightarrow> todo lx' = todo lx \<and> tok \<in> {T_value_unsigned, T_value_integer, T_value_float} \<and>
   (tok = T_value_unsigned \<longrightarrow> lx_unsigned lx' < 2 ^ 64) \<and> (tok = T_value_integer \<longrightarrow> -(2 ^ 63) \<le> lx_integer lx' \<and> lx_integer lx' < 2 ^ 63)"
  by (auto simp: number_done_def strtoull_def strtoll_def Let_def split: if_splits option.splits)

text \<open>What holds of every token that a step finds.\<close>

definition token_ok :: "token_type \<Rightarrow> lexer \<Rightarrow> bool" where
  "token_ok tok lx \<longleftrightarrow> (tok = T_value_string \<longrightarrow> utf8 (lx_buffer lx)) \<and> (tok = T_value_unsigned \<longrightarrow> lx_unsigned lx < 2 ^ 64) \<and>
     (tok = T_value_integer \<longrightarrow> -(2 ^ 63) \<le> lx_integer lx \<and> lx_integer lx < 2 ^ 63)"

lemma token_ok_simps [simp]: "token_ok T_parse_error lx" "token_ok T_value_float lx"
  by (simp_all add: token_ok_def)

lemma scan_number_total:
  assumes "lx_current lx = Some (CHR ''-'') \<or> opt_digit (lx_current lx)"
  shows "\<exists>tok lx'. scan_number lx = Inr (tok, lx') \<and> remaining lx' \<le> remaining lx \<and> token_ok tok lx'"
proof -
  let ?cur = "lx_current lx"
  let ?st = "if ?cur = Some (CHR ''-'') then N_minus else if ?cur = Some (CHR ''0'') then N_zero else N_any1"
  obtain r lx1 where l: "scan_number_loop ?st T_value_unsigned (lx_add_current (lx_reset lx)) = (r, lx1)" by fastforce
  from scan_number_loop_ends [OF l] have e: "remaining lx1 \<le> remaining lx" "r \<noteq> None \<Longrightarrow> \<exists>lx0. lx1 = lx_get lx0 \<and> remaining lx0 \<le> remaining lx" by simp_all
  show ?thesis
  proof (cases r)
    case None
    with assms l e(1) show ?thesis by (auto simp: scan_number_def Let_def)
  next
    case (Some ty)
    with e(2) obtain lx0 where lx0: "lx1 = lx_get lx0" "remaining lx0 \<le> remaining lx" by auto
    from unget_total [of lx0] obtain lx2 where u: "lx_unget_char lx1 = Inr lx2" "todo lx2 = todo lx0" unfolding lx0(1) by blast
    obtain tok lx' where d: "number_done ty lx2 = (tok, lx')" by fastforce
    from number_done_token [OF d] u(2) lx0(2) have "remaining lx' \<le> remaining lx" "token_ok tok lx'" by (auto simp: remaining_def token_ok_def)
    with assms l Some u(1) d show ?thesis by (auto simp: scan_number_def Let_def)
  qed
qed

lemma scan_literal_remaining: "remaining (snd (scan_literal_loop cs ty lx)) \<le> remaining lx \<and> fst (scan_literal_loop cs ty lx) \<in> {ty, T_parse_error}"
proof (induction cs ty lx rule: scan_literal_loop.induct)
  case (2 c cs ty lx)
  then show ?case using lx_get_remaining_le [of lx] by auto
qed simp

lemma scan_literal_total:
  assumes "lx_current lx = Some (hd w)" and "ty \<in> {T_literal_true, T_literal_false, T_literal_null}"
  shows "\<exists>tok lx'. scan_literal w ty lx = Inr (tok, lx') \<and> remaining lx' \<le> remaining lx \<and> token_ok tok lx'"
  using assms scan_literal_remaining [of "tl w" ty lx]
  by (cases "scan_literal_loop (tl w) ty lx") (auto simp: scan_literal_def token_ok_def)

lemma scan_current_number:
  assumes "lx_current lx = Some c" and "c = CHR ''-'' \<or> is_digit c"
  shows "scan_current lx = scan_number lx"
proof -
  from assms(2) have "c \<notin> {CHR ''['', CHR '']'', CHR ''{'', CHR ''}'', CHR '':'', CHR '','', CHR ''t'', CHR ''f'', CHR ''n'', CHR 0x22}"
    by (auto simp: is_digit_def)
  with assms show ?thesis by (simp add: scan_current_def)
qed

lemma scan_current_total:
  "\<exists>tok lx'. scan_current lx = Inr (tok, lx') \<and> remaining lx' \<le> remaining lx \<and> (lx_current lx = None \<longrightarrow> tok = T_end_of_input) \<and> token_ok tok lx'"
proof (cases "lx_current lx")
  case None
  then show ?thesis by (simp add: scan_current_def token_ok_def)
next
  case (Some c)
  consider "c = CHR ''t''" | "c = CHR ''f''" | "c = CHR ''n''" | "c = CHR 0x22" | "c = CHR ''-'' \<or> is_digit c"
    | "c \<noteq> CHR ''t''" "c \<noteq> CHR ''f''" "c \<noteq> CHR ''n''" "c \<noteq> CHR 0x22" "\<not> (c = CHR ''-'' \<or> is_digit c)" by blast
  then show ?thesis
  proof cases
    case 1
    with Some scan_literal_total [of lx "''true''" T_literal_true] show ?thesis by (simp add: scan_current_def)
  next
    case 2
    with Some scan_literal_total [of lx "''false''" T_literal_false] show ?thesis by (simp add: scan_current_def)
  next
    case 3
    with Some scan_literal_total [of lx "''null''" T_literal_null] show ?thesis by (simp add: scan_current_def)
  next
    case 4
    have "utf8 (lx_buffer (lx_reset lx))" by (simp add: utf8_ascii)
    from scan_string_loop_total [OF this] 4 Some show ?thesis by (auto simp: scan_current_def scan_string_def token_ok_def)
  next
    case 5
    with Some scan_number_total [of lx] scan_current_number [OF Some 5] show ?thesis by (simp add: opt_digit_def)
  next
    case 6
    with Some show ?thesis by (simp add: scan_current_def token_ok_def)
  qed
qed

lemma skip_whitespace_ends:
  "(lx_current (skip_whitespace lx) \<noteq> None \<longrightarrow> remaining (skip_whitespace lx) < remaining lx) \<and> remaining (skip_whitespace lx) \<le> remaining lx"
proof (induction lx rule: skip_whitespace.induct)
  case (1 lx)
  show ?case
  proof (cases "json_space (lx_current (lx_get lx))")
    case True
    then have "skip_whitespace lx = skip_whitespace (lx_get lx)" by (subst skip_whitespace.simps) simp
    with 1 True lx_get_remaining_le [of lx] show ?thesis by auto
  next
    case False
    then have "skip_whitespace lx = lx_get lx" by (subst skip_whitespace.simps) simp
    with lx_get_remaining [of lx] lx_get_remaining_le [of lx] show ?thesis by auto
  qed
qed

lemma skip_bom_total: "\<exists>ok lx'. skip_bom lx = Inr (ok, lx') \<and> remaining lx' \<le> remaining lx \<and> (\<not> ok \<longrightarrow> remaining lx' < remaining lx)"
proof (cases "lx_current (lx_get lx) = Some (CHR 0xEF)")
  case True
  then have "remaining (lx_get lx) < remaining lx" by (simp add: lx_get_remaining)
  with True lx_get_remaining_le [of "lx_get lx"] lx_get_remaining_le [of "lx_get (lx_get lx)"] show ?thesis
    by (auto simp: skip_bom_def Let_def)
next
  case False
  with unget_total [of lx] show ?thesis by (auto simp: skip_bom_def Let_def remaining_def)
qed

lemma scan_total:
  "\<exists>tok lx'. scan lx = Inr (tok, lx') \<and> remaining lx' \<le> remaining lx \<and> (tok = T_end_of_input \<or> remaining lx' < remaining lx) \<and> token_ok tok lx'"
proof -
  obtain ok lx1 where b: "(if lx_total lx = 0 then skip_bom lx else Inr (True, lx)) = Inr (ok, lx1)" "remaining lx1 \<le> remaining lx"
    "\<not> ok \<Longrightarrow> remaining lx1 < remaining lx" using skip_bom_total [of lx] by (cases "lx_total lx = 0") auto
  show ?thesis
  proof (cases ok)
    case True
    from scan_current_total [of "skip_whitespace lx1"] skip_whitespace_ends [of lx1] b True show ?thesis by (fastforce simp: scan_def)
  next
    case False
    with b show ?thesis by (simp add: scan_def)
  qed
qed

lemma scan_consumes: "scan lx = Inr (tok, lx') \<Longrightarrow> remaining lx' \<le> remaining lx \<and> (tok = T_end_of_input \<or> remaining lx' < remaining lx) \<and> token_ok tok lx'"
  using scan_total [of lx] by auto

section \<open>Reading given text\<close>

definition lx_wf :: "lexer \<Rightarrow> bool" where
  "lx_wf lx \<longleftrightarrow> (lx_unget lx \<and> lx_current lx = None \<longrightarrow> lx_rest lx = [])"

text \<open>The state between two calls of \<^verbatim>\<open>get\<close>: nothing is given back, \<open>r\<close> is to be read.\<close>

definition at_text :: "lexer \<Rightarrow> string \<Rightarrow> bool" where
  "at_text lx r \<longleftrightarrow> \<not> lx_unget lx \<and> lx_rest lx = r"

lemma at_text_wf: "at_text lx r \<Longrightarrow> lx_wf lx \<and> todo lx = r"
  by (simp add: at_text_def lx_wf_def todo_def)

lemma at_text_simps [simp]:
  "at_text (lx_add c lx) r = at_text lx r" "at_text (lx_reset lx) r = at_text lx r" "at_text (lx_add_current lx) r = at_text lx r"
  "at_text (add_all w lx) r = at_text lx r" "at_text (lx_fail m lx) r = at_text lx r"
  by (simp_all add: at_text_def lx_add_def lx_reset_def lx_add_current_def add_all_def lx_fail_def split: option.splits)

lemma get_at: "at_text lx (c # r) \<Longrightarrow> lx_current (lx_get lx) = Some c \<and> at_text (lx_get lx) r"
  by (simp add: at_text_def lx_get_current)

lemma get_todo: "lx_wf lx \<Longrightarrow> todo lx = c # r \<Longrightarrow> lx_current (lx_get lx) = Some c \<and> at_text (lx_get lx) r"
  by (auto simp: at_text_def lx_wf_def todo_def lx_get_current split: option.splits if_splits)

lemma get_end: "lx_wf lx \<Longrightarrow> todo lx = [] \<Longrightarrow> lx_current (lx_get lx) = None \<and> at_text (lx_get lx) []"
  by (auto simp: at_text_def lx_wf_def todo_def lx_get_current split: option.splits if_splits)

lemma unget_wf: "lx_wf lx \<Longrightarrow> lx_unget_char (lx_get lx) = Inr lx' \<Longrightarrow> lx_wf lx'"
  using unget_total [of lx] by (auto simp: lx_wf_def lx_get_current split: list.splits if_splits)

text \<open>The start of a token.\<close>

lemma scan_start:
  assumes "lx_wf lx" and "\<And>c. lx_current (lx_get lx) = Some c \<Longrightarrow> c \<noteq> CHR 0xEF \<and> \<not> json_space (Some c)"
  shows "\<exists>lx1. scan lx = scan_current (lx_get lx1) \<and> lx_wf lx1 \<and> todo lx1 = todo lx"
proof -
  obtain lx1 where l: "(if lx_total lx = 0 then skip_bom lx else Inr (True, lx)) = Inr (True, lx1)" "lx_wf lx1" "todo lx1 = todo lx"
  proof (cases "lx_total lx = 0")
    case True
    have "lx_current (lx_get lx) \<noteq> Some (CHR 0xEF)" using assms(2) by blast
    with unget_total [of lx] unget_wf [OF assms(1)] True that show ?thesis by (auto simp: skip_bom_def Let_def)
  qed (use assms(1) that in auto)
  have "lx_current (lx_get lx1) = lx_current (lx_get lx)"
    using get_todo [OF l(2)] get_todo [OF assms(1)] get_end [OF l(2)] get_end [OF assms(1)] l(3) by (cases "todo lx") auto
  then have "\<not> json_space (lx_current (lx_get lx1))" using assms(2) by (cases "lx_current (lx_get lx)") (auto simp: json_space_def)
  then have "skip_whitespace lx1 = lx_get lx1" by (subst skip_whitespace.simps) simp
  with l show ?thesis by (auto simp: scan_def)
qed

lemma scan_at:
  assumes "lx_wf lx" and "todo lx = c # r" and "c \<noteq> CHR 0xEF" "\<not> json_space (Some c)"
  shows "\<exists>lx1. scan lx = scan_current lx1 \<and> lx_current lx1 = Some c \<and> at_text lx1 r"
  using scan_start [OF assms(1)] get_todo [OF assms(1,2)] assms(3,4) get_todo [of _ c r] assms(2) by fastforce

lemma scan_end:
  assumes "lx_wf lx" and "todo lx = []"
  shows "\<exists>lx'. scan lx = Inr (T_end_of_input, lx')"
  using scan_start [OF assms(1)] get_end [OF assms] get_end assms(2) by (fastforce simp: scan_current_def)

definition punctuation :: "char \<Rightarrow> token_type option" where
  "punctuation c =
     (if c = CHR ''['' then Some T_begin_array else if c = CHR '']'' then Some T_end_array else if c = CHR ''{'' then Some T_begin_object
      else if c = CHR ''}'' then Some T_end_object else if c = CHR '':'' then Some T_name_separator
      else if c = CHR '','' then Some T_value_separator else None)"

lemma scan_punctuation:
  assumes "lx_wf lx" and "todo lx = c # r" and "punctuation c = Some tok"
  shows "\<exists>lx1. scan lx = Inr (tok, lx1) \<and> at_text lx1 r"
proof -
  have "c \<noteq> CHR 0xEF" "\<not> json_space (Some c)" using assms(3) by (auto simp: punctuation_def json_space_def split: if_splits)
  from scan_at [OF assms(1,2) this] assms(3) show ?thesis by (auto simp: scan_current_def punctuation_def split: if_splits)
qed

lemma literal_at: "at_text lx (cs @ r) \<Longrightarrow> \<exists>lx1. scan_literal_loop cs ty lx = (ty, lx1) \<and> at_text lx1 r"
proof (induction cs arbitrary: lx)
  case (Cons c cs)
  then have "lx_current (lx_get lx) = Some c" "at_text (lx_get lx) (cs @ r)" using get_at [of lx c "cs @ r"] by simp_all
  with Cons.IH show ?case by simp
qed simp

lemma scan_literal_at:
  assumes "lx_wf lx" and "todo lx = w @ r" and "(w, tok) \<in> {(''true'', T_literal_true), (''false'', T_literal_false), (''null'', T_literal_null)}"
  shows "\<exists>lx1. scan lx = Inr (tok, lx1) \<and> at_text lx1 r"
proof -
  from assms(3) obtain c cs where w: "w = c # cs" "c \<in> {CHR ''t'', CHR ''f'', CHR ''n''}" by auto
  then have "c \<noteq> CHR 0xEF" "\<not> json_space (Some c)" by (auto simp: json_space_def)
  from scan_at [OF assms(1) _ this] assms(2) w obtain lx1 where l: "scan lx = scan_current lx1" "lx_current lx1 = Some c" "at_text lx1 (cs @ r)" by auto
  obtain lx2 where l2: "scan_literal_loop cs tok lx1 = (tok, lx2)" "at_text lx2 r" using literal_at [OF l(3)] by blast
  from assms(3) w(1) consider "c = CHR ''t''" "cs = ''rue''" "tok = T_literal_true" | "c = CHR ''f''" "cs = ''alse''" "tok = T_literal_false"
    | "c = CHR ''n''" "cs = ''ull''" "tok = T_literal_null" by auto
  then have "scan_current lx1 = Inr (tok, lx2)"
    by cases (use l(2) l2(1) in \<open>simp_all add: scan_current_def scan_literal_def del: scan_literal_loop.simps\<close>)
  with l(1) l2(2) show ?thesis by simp
qed

text \<open>The escaped text of one character.\<close>

lemma char_eqI: "of_char c = (of_char d :: nat) \<Longrightarrow> c = d"
  by (simp only: of_char_eq_iff)

lemma hex_digit_lower: "d < 16 \<Longrightarrow> hex_digit (Some (lower_hex d)) = Some d"
proof -
  have "list_all (\<lambda>d. hex_digit (Some (lower_hex d)) = Some d) [0..<16]" by code_simp
  then show "d < 16 \<Longrightarrow> hex_digit (Some (lower_hex d)) = Some d" by (simp add: list_all_iff)
qed

lemma get_codepoint_at:
  assumes u: "lx_current lx = Some (CHR ''u'')" and t: "at_text lx (tl (tl (u04x n)) @ r)" and n: "n < 256"
  shows "\<exists>lx1. get_codepoint lx = Inr (Some n, lx1) \<and> at_text lx1 r \<and> lx_buffer lx1 = lx_buffer lx"
proof -
  have h: "n div 4096 mod 16 = 0" "n div 256 mod 16 = 0" "n div 16 mod 16 = n div 16" using n by simp_all
  let ?l1 = "lx_get lx" and ?l2 = "lx_get (lx_get lx)" and ?l3 = "lx_get (lx_get (lx_get lx))" and ?l4 = "lx_get (lx_get (lx_get (lx_get lx)))"
  have t1: "lx_current ?l1 = Some (lower_hex 0)" "at_text ?l1 (lower_hex 0 # lower_hex (n div 16) # lower_hex (n mod 16) # r)"
    using get_at t by (simp_all add: u04x_def h)
  have t2: "lx_current ?l2 = Some (lower_hex 0)" "at_text ?l2 (lower_hex (n div 16) # lower_hex (n mod 16) # r)" using get_at t1(2) by blast+
  have t3: "lx_current ?l3 = Some (lower_hex (n div 16))" "at_text ?l3 (lower_hex (n mod 16) # r)" using get_at t2(2) by blast+
  have t4: "lx_current ?l4 = Some (lower_hex (n mod 16))" "at_text ?l4 r" using get_at t3(2) by blast+
  have "n div 16 < 16" using n by linarith
  then have "get_codepoint_loop [12, 8, 4, 0] 0 lx = (Some (push_bit 4 (n div 16) + n mod 16), ?l4)"
    by (simp add: Let_def t1(1) t2(1) t3(1) t4(1) hex_digit_lower)
  moreover have "push_bit 4 (n div 16) + n mod 16 = n" by (simp add: push_bit_eq_mult)
  ultimately show ?thesis using u t4(2) n by (simp add: get_codepoint_def)
qed

lemma escape_char_at:
  assumes c: "of_char c \<le> (0x7F :: nat)" and t: "at_text lx (escape_cp False (of_char c) c @ r)"
  shows "\<exists>lx1. scan_string_loop lx = scan_string_loop lx1 \<and> at_text lx1 r \<and> lx_buffer lx1 = lx_buffer lx @ [c]"
proof -
  define n where "n = (of_char c :: nat)"
  consider (short) e where "escape_cp False n c = [CHR 0x5C, e]"
      "(e, c) \<in> {(CHR ''b'', CHR 0x08), (CHR ''t'', CHR 0x09), (CHR ''n'', CHR 0x0A), (CHR ''f'', CHR 0x0C), (CHR ''r'', CHR 0x0D),
         (CHR 0x22, CHR 0x22), (CHR 0x5C, CHR 0x5C)}"
    | (control) "escape_cp False n c = u04x n" "n \<le> 0x1F" | (plain) "escape_cp False n c = [c]" "0x20 \<le> n" "c \<noteq> CHR 0x22" "c \<noteq> CHR 0x5C"
  proof -
    have d: "n = of_char d \<Longrightarrow> c = d" for d using char_eqI unfolding n_def by blast
    show thesis
    proof (cases "n \<in> {0x08, 0x09, 0x0A, 0x0C, 0x0D, 0x22, 0x5C}")
      case True
      then show ?thesis using that(1) d [of "CHR 0x08"] d [of "CHR 0x09"] d [of "CHR 0x0A"] d [of "CHR 0x0C"] d [of "CHR 0x0D"] d [of "CHR 0x22"] d [of "CHR 0x5C"]
        by (elim insertE) (simp_all add: escape_cp_def)
    next
      case False
      then have q: "c \<noteq> CHR 0x22" "c \<noteq> CHR 0x5C" unfolding n_def by auto
      show ?thesis
      proof (cases "n \<le> 0x1F")
        case True
        with False show ?thesis using that(2) by (simp add: escape_cp_def)
      next
        case no: False
        with False show ?thesis using that(3) q by (simp add: escape_cp_def)
      qed
    qed
  qed
  then show ?thesis
  proof cases
    case short
    then have t1: "lx_current (lx_get lx) = Some (CHR 0x5C)" "at_text (lx_get lx) (e # r)" using get_at t by (simp_all add: n_def)
    have t2: "lx_current (lx_get (lx_get lx)) = Some e" "at_text (lx_get (lx_get lx)) r" using get_at t1(2) by blast+
    have "scan_escape (lx_get lx) = Inr (True, lx_add c (lx_get (lx_get lx)))"
      using short(2) t2(1) by (elim insertE) (simp_all add: scan_escape_def Let_def)
    with t1(1) have "scan_string_loop lx = scan_string_loop (lx_add c (lx_get (lx_get lx)))" by (subst scan_string_loop.simps) simp
    with t2(2) show ?thesis by (intro exI [of _ "lx_add c (lx_get (lx_get lx))"]) simp
  next
    case control
    then have t1: "lx_current (lx_get lx) = Some (CHR 0x5C)" "at_text (lx_get lx) (CHR ''u'' # tl (tl (u04x n)) @ r)"
      using get_at t by (simp_all add: n_def u04x_def)
    have t2: "lx_current (lx_get (lx_get lx)) = Some (CHR ''u'')" "at_text (lx_get (lx_get lx)) (tl (tl (u04x n)) @ r)" using get_at t1(2) by blast+
    from get_codepoint_at [OF t2] control(2) obtain lx1 where g: "get_codepoint (lx_get (lx_get lx)) = Inr (Some n, lx1)" "at_text lx1 r"
      "lx_buffer lx1 = lx_buffer lx" by auto
    have "codepoint_bytes n = [c]" using control(2) by (simp add: codepoint_bytes_def n_def)
    then have "scan_escape (lx_get lx) = Inr (True, add_all [c] lx1)"
      using t2(1) g(1) control(2) by (simp add: scan_escape_def Let_def scan_unicode_def)
    with t1(1) have "scan_string_loop lx = scan_string_loop (add_all [c] lx1)" by (subst scan_string_loop.simps) simp
    with g(2,3) show ?thesis by (intro exI [of _ "add_all [c] lx1"]) simp
  next
    case plain
    then have t1: "lx_current (lx_get lx) = Some c" "at_text (lx_get lx) r" using get_at t by (simp_all add: n_def)
    have "scan_string_char c (lx_get lx) = (True, lx_add c (lx_get lx))" using plain(2) c by (simp add: scan_string_char_def n_def)
    with t1(1) plain(3,4) have "scan_string_loop lx = scan_string_loop (lx_add c (lx_get lx))" by (subst scan_string_loop.simps) simp
    with t1(2) show ?thesis by (intro exI [of _ "lx_add c (lx_get lx)"]) simp
  qed
qed

text \<open>A sequence of several bytes is copied.\<close>

lemma byte_ranges_at:
  "list_all2 in_range rs cs \<Longrightarrow> at_text lx (cs @ r) \<Longrightarrow> \<exists>lx1. byte_ranges rs lx = (True, lx1) \<and> at_text lx1 r \<and> lx_buffer lx1 = lx_buffer lx @ cs"
proof (induction rs cs arbitrary: lx rule: list_all2_induct)
  case (Cons q rs c cs)
  have g: "lx_current (lx_get lx) = Some c" "at_text (lx_get lx) (cs @ r)" using get_at Cons.prems by (metis append_Cons)+
  from Cons.IH [of "lx_add c (lx_get lx)"] g Cons.hyps(1) show ?case by (auto simp: Let_def in_range_def)
qed simp

lemma utf8_start_ranges: "utf8_start b = Some rs \<Longrightarrow> rs \<noteq> [] \<Longrightarrow> 0x80 \<le> b \<and> (\<forall>q \<in> set rs. 0x80 \<le> fst q)"
  by (auto simp: utf8_start_def split: if_splits)

lemma escape_high: "\<forall>c \<in> set s. (0x80 :: nat) \<le> of_char c \<Longrightarrow> escape s = s"
  by (induction s) (simp_all add: escape_cp_high)

lemma seq_at:
  assumes w: "utf8_seq w" and t: "at_text lx (escape w @ r)"
  shows "\<exists>lx1. scan_string_loop lx = scan_string_loop lx1 \<and> at_text lx1 r \<and> lx_buffer lx1 = lx_buffer lx @ w"
proof -
  from w obtain c cs rs where c: "w = c # cs" "utf8_start (of_char c) = Some rs" "list_all2 in_range rs cs"
    by (auto simp: utf8_seq_def split: list.splits option.splits)
  show ?thesis
  proof (cases "rs = []")
    case True
    with c have "cs = []" "of_char c \<le> (0x7F :: nat)" by (auto simp: utf8_start_def split: if_splits)
    with escape_char_at [of c lx r] t c(1) show ?thesis by simp
  next
    case False
    note h = utf8_start_ranges [OF c(2) False]
    have "\<forall>d \<in> set cs. (0x80 :: nat) \<le> of_char d"
    proof
      fix d assume "d \<in> set cs"
      then obtain q where "q \<in> set rs" "in_range q d" using c(3) by (metis list_all2_conv_all_nth in_set_conv_nth)
      with h show "(0x80 :: nat) \<le> of_char d" unfolding in_range_def by (meson order_trans)
    qed
    with h c(1) have e: "escape w = c # cs" using escape_high [of "c # cs"] by simp
    have t1: "lx_current (lx_get lx) = Some c" "at_text (lx_get lx) (cs @ r)" using get_at t e by (metis append_Cons)+
    obtain lx1 where b: "byte_ranges rs (lx_add_current (lx_get lx)) = (True, lx1)" "at_text lx1 r" "lx_buffer lx1 = lx_buffer lx @ c # cs"
      using byte_ranges_at [OF c(3), of "lx_add_current (lx_get lx)" r] t1 by (auto simp: lx_add_current_def)
    have n: "c \<noteq> CHR 0x22" "c \<noteq> CHR 0x5C" "(0x7F :: nat) < of_char c" using h by auto
    have "scan_string_char c (lx_get lx) = (True, lx1)" using n(3) c(2) b(1) by (simp add: scan_string_char_high next_byte_in_range_def)
    with t1(1) n(1,2) have "scan_string_loop lx = scan_string_loop lx1" by (subst scan_string_loop.simps) simp
    with b(2,3) c(1) show ?thesis by auto
  qed
qed

lemma string_at:
  assumes "utf8 s" and "at_text lx (escape s @ CHR 0x22 # r)"
  shows "\<exists>lx1. scan_string_loop lx = Inr (T_value_string, lx1) \<and> at_text lx1 r \<and> lx_buffer lx1 = lx_buffer lx @ s"
proof -
  from assms(1) obtain ws where ws: "\<forall>w \<in> set ws. utf8_seq w" "s = concat ws" by (auto simp: utf8_grammar)
  have "\<exists>lx1. scan_string_loop lx = Inr (T_value_string, lx1) \<and> at_text lx1 r \<and> lx_buffer lx1 = lx_buffer lx @ concat ws"
    if "\<forall>w \<in> set ws. utf8_seq w" "at_text lx (escape (concat ws) @ CHR 0x22 # r)" for lx
    using that
  proof (induction ws arbitrary: lx)
    case Nil
    then have "lx_current (lx_get lx) = Some (CHR 0x22)" "at_text (lx_get lx) r" using get_at by auto
    then show ?case by (subst scan_string_loop.simps) simp
  next
    case (Cons w ws)
    then obtain lx1 where "scan_string_loop lx = scan_string_loop lx1" "at_text lx1 (escape (concat ws) @ CHR 0x22 # r)" "lx_buffer lx1 = lx_buffer lx @ w"
      using seq_at [of w lx "escape (concat ws) @ CHR 0x22 # r"] by auto
    with Cons.IH [of lx1] Cons.prems(1) show ?case by auto
  qed
  with ws assms(2) show ?thesis by blast
qed

lemma scan_quoted:
  assumes "lx_wf lx" and "todo lx = quoted s @ r" and "utf8 s"
  shows "\<exists>lx1. scan lx = Inr (T_value_string, lx1) \<and> at_text lx1 r \<and> lx_buffer lx1 = s"
proof -
  have "CHR 0x22 \<noteq> CHR 0xEF" "\<not> json_space (Some (CHR 0x22))" by (auto simp: json_space_def)
  from scan_at [OF assms(1) _ this] assms(2) obtain lx1 where l: "scan lx = scan_current lx1" "lx_current lx1 = Some (CHR 0x22)"
    "at_text lx1 (escape s @ CHR 0x22 # r)" by (auto simp: quoted_def)
  from string_at [OF assms(3), of "lx_reset lx1" r] l show ?thesis by (auto simp: scan_current_def scan_string_def)
qed

text \<open>Numbers end where neither a digit, a point nor an exponent follows.\<close>

definition number_ends :: "string \<Rightarrow> bool" where
  "number_ends r \<longleftrightarrow> (case r of [] \<Rightarrow> True | c # _ \<Rightarrow> \<not> is_digit c \<and> c \<noteq> CHR ''.'' \<and> c \<noteq> CHR ''e'' \<and> c \<noteq> CHR ''E'')"

lemma number_stops:
  assumes "at_text lx r" and "number_ends r" and "st = N_zero \<or> st = N_any1"
  shows "scan_number_loop st ty lx = (Some ty, lx_get lx)"
proof -
  have "lx_current (lx_get lx) = (case r of [] \<Rightarrow> None | c # _ \<Rightarrow> Some c)" using assms(1) by (simp add: at_text_def lx_get_current)
  then have "number_jump st (lx_current (lx_get lx)) = Done"
    using assms(2,3) by (auto simp: number_ends_def opt_digit_def split: list.splits)
  moreover have "number_type_at st ty = ty" using assms(3) by (auto simp: number_type_at_def)
  ultimately show ?thesis by (subst scan_number_loop.simps) simp
qed

lemma digits_at:
  "\<forall>c \<in> set ds. is_digit c \<Longrightarrow> at_text lx (ds @ r) \<Longrightarrow> number_ends r \<Longrightarrow>
    \<exists>lx0. scan_number_loop N_any1 ty lx = (Some ty, lx_get lx0) \<and> at_text lx0 r \<and> lx_buffer lx0 = lx_buffer lx @ ds"
proof (induction ds arbitrary: lx)
  case Nil
  then show ?case using number_stops [of lx r N_any1 ty] by auto
next
  case (Cons d ds)
  then have g: "lx_current (lx_get lx) = Some d" "at_text (lx_get lx) (ds @ r)" using get_at [of lx d "ds @ r"] by simp_all
  have "is_digit d" using Cons.prems(1) by simp
  then have "scan_number_loop N_any1 ty lx = scan_number_loop N_any1 ty (lx_add_current (lx_get lx))"
    using g(1) by (subst scan_number_loop.simps) (simp add: opt_digit_def number_type_at_def)
  moreover have "lx_buffer (lx_add_current (lx_get lx)) = lx_buffer lx @ [d]" using g(1) by (simp add: lx_add_current_def)
  ultimately show ?case using Cons.IH [of "lx_add_current (lx_get lx)"] g(2) Cons.prems by auto
qed

text \<open>A whole number, after its first character was read.\<close>

lemma nat_number_at:
  assumes c: "nat_to_string n = c # cs" and t: "at_text lx (cs @ r)" and r: "number_ends r"
  shows "\<exists>lx0. scan_number_loop (if c = CHR ''0'' then N_zero else N_any1) ty lx = (Some ty, lx_get lx0) \<and> at_text lx0 r \<and> lx_buffer lx0 = lx_buffer lx @ cs"
proof (cases "c = CHR ''0''")
  case True
  have "n = 0"
  proof (rule ccontr)
    assume "n \<noteq> 0"
    then have "hd (nat_to_string n) \<noteq> CHR ''0''" by (intro nat_to_string_hd) simp
    with c True show False by simp
  qed
  with c have "cs = []" by (simp add: nat_to_string_digit)
  with True t number_stops [of lx r N_zero ty] r show ?thesis by auto
next
  case False
  have "\<forall>d \<in> set cs. is_digit d" using nat_to_string_digits [of n] c by simp
  from digits_at [OF this t r] False show ?thesis by simp
qed

lemma scan_integer:
  assumes w: "lx_wf lx" and t: "todo lx = to_string x @ r" and x: "-(2 ^ 63) \<le> x" "x < 2 ^ 64" and r: "number_ends r"
  shows "\<exists>lx1. scan lx = Inr (if x < 0 then T_value_integer else T_value_unsigned, lx1) \<and> lx_wf lx1 \<and> todo lx1 = r \<and>
    (if x < 0 then lx_integer lx1 = x else int (lx_unsigned lx1) = x)"
proof -
  obtain c cs where c: "nat_to_string (nat \<bar>x\<bar>) = c # cs" "is_digit c" by (rule nat_to_string_Cons)
  define f fs where "f = (if x < 0 then CHR ''-'' else c)" and "fs = (if x < 0 then c # cs else cs)"
  have ts: "to_string x = f # fs" using c by (cases "x < 0") (simp_all add: to_string_def f_def fs_def)
  have f: "f \<noteq> CHR 0xEF" "\<not> json_space (Some f)" "f = CHR ''-'' \<or> is_digit f" using c(2) by (auto simp: f_def json_space_def is_digit_def)
  obtain lx1 where l: "scan lx = scan_current lx1" "lx_current lx1 = Some f" "at_text lx1 (fs @ r)"
    using scan_at [OF w _ f(1,2), of "fs @ r"] t ts by auto
  let ?lx = "lx_add_current (lx_reset lx1)"
  let ?ty = "if x < 0 then T_value_integer else T_value_unsigned"
  let ?st = "if f = CHR ''-'' then N_minus else if f = CHR ''0'' then N_zero else N_any1"
  have b: "lx_buffer ?lx = [f]" "at_text ?lx (fs @ r)" using l(2,3) by (simp_all add: lx_add_current_def)
  have "\<exists>lx0. scan_number_loop ?st T_value_unsigned ?lx = (Some ?ty, lx_get lx0) \<and> at_text lx0 r \<and> lx_buffer lx0 = to_string x"
  proof (cases "x < 0")
    case True
    then have g: "lx_current (lx_get ?lx) = Some c" "at_text (lx_get ?lx) (cs @ r)" using get_at b(2) by (simp_all add: fs_def)
    have "scan_number_loop N_minus T_value_unsigned ?lx = scan_number_loop (if c = CHR ''0'' then N_zero else N_any1) T_value_integer (lx_add_current (lx_get ?lx))"
      using g(1) c(2) by (subst scan_number_loop.simps) (simp add: opt_digit_def number_type_at_def)
    moreover have "lx_buffer (lx_add_current (lx_get ?lx)) = [f, c]" using g(1) b(1) by (simp add: lx_add_current_def)
    ultimately show ?thesis using nat_number_at [OF c(1), of "lx_add_current (lx_get ?lx)" r T_value_integer] g(2) r True ts by (simp add: f_def fs_def)
  next
    case False
    then have "f = c" "fs = cs" "c \<noteq> CHR ''-''" using c(2) by (auto simp: f_def fs_def is_digit_def)
    with nat_number_at [OF c(1), of ?lx r T_value_unsigned] b r False ts show ?thesis by (simp split del: if_split)
  qed
  then obtain lx0 where n: "scan_number_loop ?st T_value_unsigned ?lx = (Some ?ty, lx_get lx0)" "at_text lx0 r" "lx_buffer lx0 = to_string x" by blast
  have w0: "lx_wf lx0" "todo lx0 = r" using at_text_wf [OF n(2)] by auto
  from unget_total [of lx0] obtain lx2 where u: "lx_unget_char (lx_get lx0) = Inr lx2" "todo lx2 = r" "lx_buffer lx2 = to_string x" "lx_wf lx2"
    using unget_wf [OF w0(1)] w0(2) n(3) by auto
  have "scan_number lx1 = Inr (number_done ?ty lx2)" using l(2) f(3) n(1) u(1) by (simp add: scan_number_def Let_def opt_digit_def cong: if_cong split del: if_split)
  moreover have "scan_current lx1 = scan_number lx1" using scan_current_number [OF l(2) f(3)] .
  moreover have "\<exists>lx3. number_done ?ty lx2 = (?ty, lx3) \<and> lx_wf lx3 \<and> todo lx3 = r \<and> (if x < 0 then lx_integer lx3 = x else int (lx_unsigned lx3) = x)"
  proof (cases "x < 0")
    case True
    then have "strtoll (to_string x) = Some x" using x(1) by (simp add: strtoll_def to_string_def)
    with True u show ?thesis by (simp add: number_done_def lx_wf_def)
  next
    case False
    then have "nat x < 2 ^ 64" using x(2) by simp
    with False have "strtoull (to_string x) = Some (nat x)" by (simp add: strtoull_def to_string_def)
    with False u show ?thesis by (simp add: number_done_def lx_wf_def)
  qed
  ultimately show ?thesis using l(1) by auto
qed

end
