(* ===== verification/JsonParse.thy ===== *)
theory JsonParse
  imports JsonLexer
begin

text \<open>
  The parser of the JSON library in \<^verbatim>\<open>src/utils/json.hpp\<close>, as \<^verbatim>\<open>json::parse(std::string)\<close> runs it: the loop
  \<^verbatim>\<open>sax_parse_internal\<close> with its stack of open arrays and objects, the construction of the value by
  \<^verbatim>\<open>json_sax_dom_parser\<close>, and the exceptions. The lemmas show that parsing always ends, with a value whose
  texts are well-formed UTF-8 or with an exception of the library, never with a failed assertion, and that
  parsing the text that \<^verbatim>\<open>dump\<close> prints gives the value back.
\<close>

section \<open>Building the value\<close>

text \<open>
  The pointers of \<^verbatim>\<open>ref_stack\<close> lead from the root to the innermost open array or object. The stack is modelled by
  these containers, the innermost first, each with its members so far; an object remembers the key whose
  member \<^verbatim>\<open>object_element\<close> points to. As in the code, an opened container is entered into its parent at once; it
  is written there again, with its members, when it is closed.
\<close>

datatype frame = Arr_Frame "json list" | Obj_Frame "(string \<times> json) list" "string option"

record sax =
  sx_root :: json
  sx_stack :: "frame list"

definition sax_ctor :: sax where
  "sax_ctor = \<lparr>sx_root = JNull, sx_stack = []\<rparr>"

definition handle_value :: "json \<Rightarrow> sax \<Rightarrow> sax res" where
  "handle_value v sx =
     (case sx_stack sx of
        [] \<Rightarrow> Inr (sx\<lparr>sx_root := v\<rparr>)
      | Arr_Frame vs # fs \<Rightarrow> Inr (sx\<lparr>sx_stack := Arr_Frame (vs @ [v]) # fs\<rparr>)
      | Obj_Frame m (Some k) # fs \<Rightarrow> Inr (sx\<lparr>sx_stack := Obj_Frame (map_put k v m) (Some k) # fs\<rparr>)
      | Obj_Frame m None # fs \<Rightarrow> Inl Assert_Failed)"

definition push_frame :: "frame \<Rightarrow> sax \<Rightarrow> sax" where
  "push_frame f sx = sx\<lparr>sx_stack := f # sx_stack sx\<rparr>"

definition start_object :: "sax \<Rightarrow> sax res" where
  "start_object sx = bind_res (handle_value (JObj []) sx) (\<lambda>sx1. Inr (push_frame (Obj_Frame [] None) sx1))"

definition start_array :: "sax \<Rightarrow> sax res" where
  "start_array sx = bind_res (handle_value (JArr []) sx) (\<lambda>sx1. Inr (push_frame (Arr_Frame []) sx1))"

text \<open>\<^verbatim>\<open>operator[](key)\<close> enters null under a new key.\<close>

definition sax_key :: "string \<Rightarrow> sax \<Rightarrow> sax res" where
  "sax_key k sx =
     (case sx_stack sx of
        Obj_Frame m _ # fs \<Rightarrow> Inr (sx\<lparr>sx_stack := Obj_Frame (if map_of m k = None then map_put k JNull m else m) (Some k) # fs\<rparr>)
      | _ \<Rightarrow> Inl Assert_Failed)"

text \<open>The closed container, at the place where it was entered.\<close>

definition settle :: "json \<Rightarrow> frame list \<Rightarrow> sax \<Rightarrow> sax res" where
  "settle v fs sx =
     (case fs of
        [] \<Rightarrow> Inr (sx\<lparr>sx_root := v, sx_stack := []\<rparr>)
      | Arr_Frame vs # r \<Rightarrow> Inr (sx\<lparr>sx_stack := Arr_Frame (butlast vs @ [v]) # r\<rparr>)
      | Obj_Frame m (Some k) # r \<Rightarrow> Inr (sx\<lparr>sx_stack := Obj_Frame (map_put k v m) (Some k) # r\<rparr>)
      | Obj_Frame m None # r \<Rightarrow> Inl Assert_Failed)"

definition end_object :: "sax \<Rightarrow> sax res" where
  "end_object sx = (case sx_stack sx of Obj_Frame m _ # fs \<Rightarrow> settle (JObj m) fs sx | _ \<Rightarrow> Inl Assert_Failed)"

definition end_array :: "sax \<Rightarrow> sax res" where
  "end_array sx = (case sx_stack sx of Arr_Frame vs # fs \<Rightarrow> settle (JArr vs) fs sx | _ \<Rightarrow> Inl Assert_Failed)"

section \<open>Exceptions\<close>

definition position_string :: "lexer \<Rightarrow> string" where
  "position_string lx = '' at line '' @ to_string (int (lx_lines lx + 1)) @ '', column '' @ to_string (int (lx_line_chars lx))"

definition parse_error :: "int \<Rightarrow> lexer \<Rightarrow> string \<Rightarrow> cxx_error" where
  "parse_error err_id lx what_arg =
     Json_Exception (exception_name ''parse_error'' err_id @ ''parse error'' @ position_string lx @ '': '' @ what_arg)"

definition exception_message :: "token_type \<Rightarrow> string \<Rightarrow> token_type \<Rightarrow> lexer \<Rightarrow> string" where
  "exception_message expected ctx last_token lx =
     ''syntax error '' @ (if ctx \<noteq> [] then ''while parsing '' @ ctx @ '' '' else []) @ ''- '' @
     (if last_token = T_parse_error then lx_error lx @ ''; last read: '' @ [CHR 0x27] @ get_token_string lx @ [CHR 0x27]
      else ''unexpected '' @ token_type_name last_token) @
     (if expected \<noteq> T_uninitialized then ''; expected '' @ token_type_name expected else [])"

definition syntax_error :: "token_type \<Rightarrow> string \<Rightarrow> token_type \<Rightarrow> lexer \<Rightarrow> cxx_error" where
  "syntax_error expected ctx last_token lx = parse_error 101 lx (exception_message expected ctx last_token lx)"

section \<open>The loop\<close>

text \<open>A key and the colon after it; then the token of the value.\<close>

definition parse_key :: "token_type \<Rightarrow> lexer \<Rightarrow> sax \<Rightarrow> (token_type \<times> lexer \<times> sax) res" where
  "parse_key tok lx sx =
     (if tok \<noteq> T_value_string then Inl (syntax_error T_value_string ''object key'' tok lx)
      else bind_res (sax_key (lx_buffer lx) sx) (\<lambda>sx1.
           bind_res (scan lx) (\<lambda>(tok1, lx1).
           if tok1 \<noteq> T_name_separator then Inl (syntax_error T_name_separator ''object separator'' tok1 lx1)
           else bind_res (scan lx1) (\<lambda>(tok2, lx2). Inr (tok2, lx2, sx1)))))"

text \<open>What the first half of an iteration leads to: the evaluation of the state, or the next iteration.\<close>

datatype value_step = Evaluate lexer sax | Continue token_type lexer "bool list" sax

definition plain_value :: "json \<Rightarrow> lexer \<Rightarrow> sax \<Rightarrow> value_step res" where
  "plain_value v lx sx = bind_res (handle_value v sx) (\<lambda>sx1. Inr (Evaluate lx sx1))"

definition parse_value :: "token_type \<Rightarrow> lexer \<Rightarrow> bool list \<Rightarrow> sax \<Rightarrow> value_step res" where
  "parse_value tok lx states sx =
     (case tok of
        T_begin_object \<Rightarrow>
          bind_res (start_object sx) (\<lambda>sx1.
          bind_res (scan lx) (\<lambda>(tok1, lx1).
          if tok1 = T_end_object then bind_res (end_object sx1) (\<lambda>sx2. Inr (Evaluate lx1 sx2))
          else bind_res (parse_key tok1 lx1 sx1) (\<lambda>(tok2, lx2, sx2). Inr (Continue tok2 lx2 (False # states) sx2))))
      | T_begin_array \<Rightarrow>
          bind_res (start_array sx) (\<lambda>sx1.
          bind_res (scan lx) (\<lambda>(tok1, lx1).
          if tok1 = T_end_array then bind_res (end_array sx1) (\<lambda>sx2. Inr (Evaluate lx1 sx2))
          else Inr (Continue tok1 lx1 (True # states) sx1)))
      | T_value_float \<Rightarrow>
          if \<not> isfinite_literal (lx_float lx)
          then Inl (out_of_range 406 (''number overflow parsing '' @ [CHR 0x27] @ get_token_string lx @ [CHR 0x27]))
          else plain_value (JFloat (lx_float lx)) lx sx
      | T_literal_false \<Rightarrow> plain_value (JBool False) lx sx
      | T_literal_null \<Rightarrow> plain_value JNull lx sx
      | T_literal_true \<Rightarrow> plain_value (JBool True) lx sx
      | T_value_integer \<Rightarrow> plain_value (JNum (lx_integer lx)) lx sx
      | T_value_string \<Rightarrow> plain_value (JStr (lx_buffer lx)) lx sx
      | T_value_unsigned \<Rightarrow> plain_value (JNum (int (lx_unsigned lx))) lx sx
      | T_parse_error \<Rightarrow> Inl (syntax_error T_uninitialized ''value'' tok lx)
      | T_end_of_input \<Rightarrow>
          if lx_total lx = 1
          then Inl (parse_error 101 lx ''attempting to parse an empty input; check that your input string or stream contains the expected JSON'')
          else Inl (syntax_error T_literal_or_value ''value'' tok lx)
      | _ \<Rightarrow> Inl (syntax_error T_literal_or_value ''value'' tok lx))"

text \<open>The evaluation of the state, where some container is open: the next value, or the end of the container.\<close>

datatype state_step = Next token_type lexer sax | Closed lexer sax

definition evaluate_state :: "bool \<Rightarrow> lexer \<Rightarrow> sax \<Rightarrow> state_step res" where
  "evaluate_state is_array lx sx =
     bind_res (scan lx) (\<lambda>(tok, lx1).
       if is_array
       then (if tok = T_value_separator then bind_res (scan lx1) (\<lambda>(tok2, lx2). Inr (Next tok2 lx2 sx))
             else if tok = T_end_array then bind_res (end_array sx) (\<lambda>sx1. Inr (Closed lx1 sx1))
             else Inl (syntax_error T_end_array ''array'' tok lx1))
       else (if tok = T_value_separator
             then bind_res (scan lx1) (\<lambda>(tok2, lx2). bind_res (parse_key tok2 lx2 sx) (\<lambda>(tok3, lx3, sx3). Inr (Next tok3 lx3 sx3)))
             else if tok = T_end_object then bind_res (end_object sx) (\<lambda>sx1. Inr (Closed lx1 sx1))
             else Inl (syntax_error T_end_object ''object'' tok lx1)))"

lemma parse_key_consumes:
  "parse_key tok lx sx = Inr (tok2, lx2, sx2) \<Longrightarrow> tok = T_value_string \<and> token_ok tok2 lx2 \<and> remaining lx2 \<le> remaining lx"
  by (force simp: parse_key_def res_simps split: if_splits dest: scan_consumes)

text \<open>The measure: what is left to read, and whether the last token can still lead anywhere.\<close>

definition progress :: "bool \<Rightarrow> token_type \<Rightarrow> lexer \<Rightarrow> nat" where
  "progress skip tok lx = 2 * remaining lx + (if \<not> skip \<and> tok = T_end_of_input then 0 else 1)"

lemma scan_progress: "scan lx = Inr (tok, lx') \<Longrightarrow> progress False tok lx' < 2 * remaining lx + 1"
  using scan_consumes [of lx tok lx'] by (auto simp: progress_def)

lemma progress_le: "progress b tok lx \<le> 2 * remaining lx + 1"
  by (simp add: progress_def)

lemma plain_value_Evaluate: "plain_value v lx sx = Inr st \<Longrightarrow> \<exists>sx1. st = Evaluate lx sx1"
  by (auto simp: plain_value_def res_simps)

lemma parse_value_Continue:
  assumes "parse_value tok lx states sx = Inr (Continue tok1 lx1 states1 sx1)"
  shows "progress False tok1 lx1 < progress False tok lx"
proof -
  consider "tok = T_begin_object" | "tok = T_begin_array" using assms plain_value_Evaluate
    by (cases tok) (fastforce simp: parse_value_def split: if_splits)+
  then show ?thesis
  proof cases
    case 1
    with assms obtain t lx0 sx0 where s: "scan lx = Inr (t, lx0)" "t \<noteq> T_end_object" "parse_key t lx0 sx0 = Inr (tok1, lx1, sx1)"
      by (auto simp: parse_value_def res_simps split: if_splits)
    from parse_key_consumes [OF s(3)] scan_consumes [OF s(1)] have "remaining lx1 < remaining lx" by auto
    with progress_le [of False tok1 lx1] 1 show ?thesis by (simp add: progress_def)
  next
    case 2
    with assms have "scan lx = Inr (tok1, lx1)" by (auto simp: parse_value_def res_simps split: if_splits)
    from scan_progress [OF this] 2 show ?thesis by (simp add: progress_def)
  qed
qed

lemma parse_value_Evaluate:
  assumes "parse_value tok lx states sx = Inr (Evaluate lx1 sx1)"
  shows "tok \<noteq> T_end_of_input \<and> remaining lx1 \<le> remaining lx"
proof -
  have "remaining lx1 \<le> remaining lx" if "scan lx = Inr (t, lx1)" for t using scan_consumes [OF that] by simp
  with assms show ?thesis
    by (cases tok) (auto simp: parse_value_def res_simps split: if_splits dest!: plain_value_Evaluate)
qed

lemma evaluate_state_consumes:
  assumes "evaluate_state b lx sx = Inr st"
  shows "(case st of Next tok1 lx1 sx1 \<Rightarrow> progress False tok1 lx1 < 2 * remaining lx + 1 | Closed lx1 sx1 \<Rightarrow> remaining lx1 < remaining lx)"
proof -
  from assms obtain tok lx1 where s: "scan lx = Inr (tok, lx1)" by (auto simp: evaluate_state_def res_simps)
  note c = scan_consumes [OF s]
  show ?thesis
  proof (cases st)
    case (Next tok2 lx2 sx2)
    have "\<exists>t2. scan lx1 = Inr (t2, lx') \<and> progress False tok2 lx2 \<le> 2 * remaining lx' + 1 \<or> scan lx1 = Inr (tok2, lx2)"
      if "scan lx1 = Inr (t', lx')" for t' lx'
      using that assms s Next by (auto simp: evaluate_state_def res_simps split: if_splits dest!: parse_key_consumes intro: progress_le order_trans simp: progress_def)
    moreover obtain t' lx' where s2: "scan lx1 = Inr (t', lx')" using scan_total [of lx1] by blast
    moreover have "tok \<noteq> T_end_of_input" using assms s Next by (auto simp: evaluate_state_def split: if_splits)
    ultimately show ?thesis using c scan_consumes [OF s2] Next by (auto simp: progress_def split: if_splits)
  next
    case (Closed lx2 sx2)
    with assms s have "lx2 = lx1" "tok \<noteq> T_end_of_input" by (auto simp: evaluate_state_def res_simps split: if_splits)
    with c Closed show ?thesis by simp
  qed
qed

function sax_loop :: "bool \<Rightarrow> token_type \<Rightarrow> lexer \<Rightarrow> bool list \<Rightarrow> sax \<Rightarrow> (lexer \<times> sax) res" where
  "sax_loop skip tok lx states sx =
     bind_res (if skip then Inr (Evaluate lx sx) else parse_value tok lx states sx) (\<lambda>st.
       case st of
         Continue tok1 lx1 states1 sx1 \<Rightarrow> sax_loop False tok1 lx1 states1 sx1
       | Evaluate lx1 sx1 \<Rightarrow>
           (case states of
              [] \<Rightarrow> Inr (lx1, sx1)
            | is_array # outer \<Rightarrow>
                bind_res (evaluate_state is_array lx1 sx1) (\<lambda>st2.
                  case st2 of
                    Next tok2 lx2 sx2 \<Rightarrow> sax_loop False tok2 lx2 states sx2
                  | Closed lx2 sx2 \<Rightarrow> sax_loop True tok lx2 outer sx2)))"
  by pat_completeness auto

termination
proof (relation "measure (\<lambda>(skip, tok, lx, _, _). progress skip tok lx)", goal_cases)
  case (4 skip tok lx states sx x tok1 lx1 states1 sx1)
  then show ?case using parse_value_Continue by (auto split: if_splits)
next
  case (2 skip tok lx states sx x lx1 sx1 is_array outer st2 tok2 lx2 sx2)
  then have "progress False tok2 lx2 < 2 * remaining lx1 + 1" using evaluate_state_consumes by fastforce
  moreover have "2 * remaining lx1 + 1 \<le> progress skip tok lx" using 2 parse_value_Evaluate by (fastforce simp: progress_def split: if_splits)
  ultimately show ?case by simp
next
  case (3 skip tok lx states sx x lx1 sx1 is_array outer st2 lx2 sx2)
  then have "remaining lx2 < remaining lx1" using evaluate_state_consumes by fastforce
  moreover have "2 * remaining lx1 + 1 \<le> progress skip tok lx" using 3 parse_value_Evaluate by (fastforce simp: progress_def split: if_splits)
  ultimately show ?case by (simp add: progress_def)
qed simp

declare sax_loop.simps [simp del]

text \<open>\<^verbatim>\<open>json::parse\<close>: the constructor of the parser reads the first token, and the input has to end after the value.\<close>

definition json_parse :: "string \<Rightarrow> json res" where
  "json_parse s =
     bind_res (scan (lexer_ctor s)) (\<lambda>(tok, lx).
     bind_res (sax_loop False tok lx [] sax_ctor) (\<lambda>(lx1, sx).
     bind_res (scan lx1) (\<lambda>(tok2, lx2).
     if tok2 \<noteq> T_end_of_input then Inl (syntax_error T_end_of_input ''value'' tok2 lx2) else Inr (sx_root sx))))"

section \<open>Every text is parsed or rejected\<close>

fun json_good :: "json \<Rightarrow> bool" where
  "json_good (JObj kvs) = list_all (\<lambda>kv. utf8 (fst kv) \<and> json_good (snd kv)) kvs"
| "json_good (JArr vs) = list_all json_good vs"
| "json_good (JStr s) = utf8 s"
| "json_good (JNum x) = (-(2 ^ 63) \<le> x \<and> x < 2 ^ 64)"
| "json_good v = True"

fun is_farr :: "frame \<Rightarrow> bool" where
  "is_farr (Arr_Frame vs) = True"
| "is_farr (Obj_Frame m k) = False"

fun frame_good :: "frame \<Rightarrow> bool" where
  "frame_good (Arr_Frame vs) = list_all json_good vs"
| "frame_good (Obj_Frame m k) = (list_all (\<lambda>kv. utf8 (fst kv) \<and> json_good (snd kv)) m \<and> (case k of None \<Rightarrow> False | Some x \<Rightarrow> utf8 x))"

definition sax_inv :: "bool list \<Rightarrow> sax \<Rightarrow> bool" where
  "sax_inv states sx \<longleftrightarrow> map is_farr (sx_stack sx) = states \<and> list_all frame_good (sx_stack sx) \<and> json_good (sx_root sx)"

definition good :: "('a \<Rightarrow> bool) \<Rightarrow> 'a res \<Rightarrow> bool" where
  "good P r \<longleftrightarrow> (\<exists>x. r = Inr x \<and> P x) \<or> (\<exists>m. r = Inl (Json_Exception m))"

lemma good_bind: "good P r \<Longrightarrow> (\<And>x. r = Inr x \<Longrightarrow> P x \<Longrightarrow> good Q (f x)) \<Longrightarrow> good Q (bind_res r f)"
  by (auto simp: good_def)

lemma good_Inr [simp]: "good P (Inr x) = P x"
  by (simp add: good_def)

lemma good_errors [simp]: "good P (Inl (syntax_error a b c d))" "good P (Inl (parse_error i lx m))" "good P (Inl (out_of_range i m))"
  by (auto simp: good_def syntax_error_def parse_error_def out_of_range_def)

lemma good_scan: "good (\<lambda>(tok, lx'). token_ok tok lx') (scan lx)"
  using scan_total [of lx] by (auto simp: good_def)

lemma list_all_put: "list_all P m \<Longrightarrow> P (k, v) \<Longrightarrow> list_all P (map_put k v m)"
  using map_put_set [of k v m] by (auto simp: list_all_iff)

lemma good_handle_value: "sax_inv states sx \<Longrightarrow> json_good v \<Longrightarrow> good (sax_inv states) (handle_value v sx)"
proof -
  assume a: "sax_inv states sx" "json_good v"
  show ?thesis
  proof (cases "sx_stack sx")
    case (Cons f fs)
    show ?thesis
    proof (cases f)
      case (Arr_Frame vs)
      with Cons a show ?thesis by (simp add: handle_value_def sax_inv_def)
    next
      case (Obj_Frame m k)
      with Cons a obtain x where k: "k = Some x" "utf8 x" by (auto simp: sax_inv_def split: option.splits)
      have "list_all (\<lambda>kv. utf8 (fst kv) \<and> json_good (snd kv)) (map_put x v m)"
        using Cons Obj_Frame a k by (intro list_all_put) (simp_all add: sax_inv_def)
      with Cons Obj_Frame a k show ?thesis by (simp add: handle_value_def sax_inv_def)
    qed
  qed (use a in \<open>simp add: handle_value_def sax_inv_def\<close>)
qed

lemma good_settle:
  assumes "sax_inv states (sx\<lparr>sx_stack := fs\<rparr>)" and "json_good v"
  shows "good (sax_inv states) (settle v fs sx)"
proof (cases fs)
  case (Cons f r)
  show ?thesis
  proof (cases f)
    case (Arr_Frame vs)
    with Cons assms show ?thesis by (simp add: settle_def sax_inv_def list_all_iff in_set_butlastD)
  next
    case (Obj_Frame m k)
    with Cons assms obtain x where k: "k = Some x" "utf8 x" by (auto simp: sax_inv_def split: option.splits)
    have "list_all (\<lambda>kv. utf8 (fst kv) \<and> json_good (snd kv)) (map_put x v m)"
      using Cons Obj_Frame assms k by (intro list_all_put) (simp_all add: sax_inv_def)
    with Cons Obj_Frame assms k show ?thesis by (simp add: settle_def sax_inv_def)
  qed
qed (use assms in \<open>simp add: settle_def sax_inv_def\<close>)

lemma good_end_array: "sax_inv (True # states) sx \<Longrightarrow> good (sax_inv states) (end_array sx)"
proof -
  assume a: "sax_inv (True # states) sx"
  then obtain f fs where s: "sx_stack sx = f # fs" "is_farr f" by (auto simp: sax_inv_def)
  then obtain vs where f: "f = Arr_Frame vs" by (cases f) simp_all
  have "good (sax_inv states) (settle (JArr vs) fs sx)" by (rule good_settle) (use a s f in \<open>simp_all add: sax_inv_def\<close>)
  with s f show ?thesis by (simp add: end_array_def)
qed

text \<open>An object whose current key may not be set yet.\<close>

definition open_object :: "bool list \<Rightarrow> sax \<Rightarrow> bool" where
  "open_object states sx \<longleftrightarrow> (\<exists>m k fs. sx_stack sx = Obj_Frame m k # fs \<and> list_all (\<lambda>kv. utf8 (fst kv) \<and> json_good (snd kv)) m \<and> sax_inv states (sx\<lparr>sx_stack := fs\<rparr>))"

lemma sax_inv_open: "sax_inv (False # states) sx \<Longrightarrow> open_object states sx"
proof -
  assume a: "sax_inv (False # states) sx"
  then obtain f fs where s: "sx_stack sx = f # fs" "\<not> is_farr f" by (auto simp: sax_inv_def)
  then obtain m k where f: "f = Obj_Frame m k" by (cases f) simp_all
  with a s show ?thesis by (simp add: sax_inv_def open_object_def)
qed

lemma good_end_object: "open_object states sx \<Longrightarrow> good (sax_inv states) (end_object sx)"
  by (auto simp: open_object_def end_object_def intro!: good_settle)

lemma good_start_object: "sax_inv states sx \<Longrightarrow> good (open_object states) (start_object sx)"
  unfolding start_object_def
  by (rule good_bind [OF good_handle_value]) (auto simp: open_object_def push_frame_def)

lemma good_start_array: "sax_inv states sx \<Longrightarrow> good (sax_inv (True # states)) (start_array sx)"
  unfolding start_array_def
  by (rule good_bind [OF good_handle_value]) (auto simp: sax_inv_def push_frame_def)

lemma good_key: "open_object states sx \<Longrightarrow> utf8 k \<Longrightarrow> good (sax_inv (False # states)) (sax_key k sx)"
proof -
  assume a: "open_object states sx" "utf8 k"
  then obtain m k0 fs where s: "sx_stack sx = Obj_Frame m k0 # fs" "list_all (\<lambda>kv. utf8 (fst kv) \<and> json_good (snd kv)) m" "sax_inv states (sx\<lparr>sx_stack := fs\<rparr>)"
    by (auto simp: open_object_def)
  have "list_all (\<lambda>kv. utf8 (fst kv) \<and> json_good (snd kv)) (if map_of m k = None then map_put k JNull m else m)"
    using list_all_put [OF s(2), of k JNull] s(2) a(2) by simp
  with s a(2) show ?thesis by (simp add: sax_key_def sax_inv_def)
qed

lemma good_parse_key:
  assumes "open_object states sx" and "token_ok tok lx"
  shows "good (\<lambda>(tok2, lx2, sx2). token_ok tok2 lx2 \<and> sax_inv (False # states) sx2) (parse_key tok lx sx)"
proof (cases "tok = T_value_string")
  case True
  with assms(2) have "utf8 (lx_buffer lx)" by (simp add: token_ok_def)
  from good_key [OF assms(1) this] True show ?thesis
    unfolding parse_key_def by (auto intro!: good_bind [OF _ ] good_bind [OF good_scan] split: prod.splits)
qed (simp add: parse_key_def)

fun value_good :: "bool list \<Rightarrow> value_step \<Rightarrow> bool" where
  "value_good states (Evaluate lx sx) = sax_inv states sx"
| "value_good states (Continue tok lx states1 sx) = (token_ok tok lx \<and> sax_inv states1 sx)"

fun state_good :: "bool \<Rightarrow> bool list \<Rightarrow> state_step \<Rightarrow> bool" where
  "state_good b states (Next tok lx sx) = (token_ok tok lx \<and> sax_inv (b # states) sx)"
| "state_good b states (Closed lx sx) = sax_inv states sx"

lemma good_plain_value: "sax_inv states sx \<Longrightarrow> json_good v \<Longrightarrow> good (value_good states) (plain_value v lx sx)"
  unfolding plain_value_def by (rule good_bind [OF good_handle_value]) simp_all

lemma good_parse_value:
  assumes "sax_inv states sx" and "token_ok tok lx"
  shows "good (value_good states) (parse_value tok lx states sx)"
proof -
  have ea: "good (value_good states) (bind_res (end_array sx1) (\<lambda>sx2. Inr (Evaluate lx1 sx2)))" if "sax_inv (True # states) sx1" for sx1 lx1
    by (rule good_bind [OF good_end_array [OF that]]) simp
  have eo: "good (value_good states) (bind_res (end_object sx1) (\<lambda>sx2. Inr (Evaluate lx1 sx2)))" if "open_object states sx1" for sx1 lx1
    by (rule good_bind [OF good_end_object [OF that]]) simp
  have k: "good (value_good states) (bind_res (parse_key t lx1 sx1) (\<lambda>(tok2, lx2, sx2). Inr (Continue tok2 lx2 (False # states) sx2)))"
    if "open_object states sx1" "token_ok t lx1" for sx1 t lx1
    by (rule good_bind [OF good_parse_key [OF that]]) auto
  have arr: "good (value_good states) (parse_value T_begin_array lx states sx)"
    unfolding parse_value_def token_type.case
    by (rule good_bind [OF good_start_array [OF assms(1)]], rule good_bind [OF good_scan]) (auto intro: ea)
  have obj: "good (value_good states) (parse_value T_begin_object lx states sx)"
    unfolding parse_value_def token_type.case
    by (rule good_bind [OF good_start_object [OF assms(1)]], rule good_bind [OF good_scan]) (auto intro: eo k)
  have num: "json_good (JNum (int n))" if "n < 2 ^ 64" for n
  proof -
    have "int n < int (2 ^ 64)" using that by (simp only: of_nat_less_iff)
    then show ?thesis by simp
  qed
  show ?thesis
    using arr obj good_plain_value [OF assms(1)] assms(2) num
    by (cases tok) (simp_all add: parse_value_def token_ok_def)
qed

lemma good_evaluate_state:
  assumes "sax_inv (b # states) sx"
  shows "good (state_good b states) (evaluate_state b lx sx)"
proof (cases b)
  case True
  with assms have a: "sax_inv (True # states) sx" by simp
  have n: "good (state_good True states) (bind_res (scan lx1) (\<lambda>(tok2, lx2). Inr (Next tok2 lx2 sx)))" for lx1
    by (rule good_bind [OF good_scan]) (use a in auto)
  have c: "good (state_good True states) (bind_res (end_array sx) (\<lambda>sx1. Inr (Closed lx1 sx1)))" for lx1
    by (rule good_bind [OF good_end_array [OF a]]) simp
  show ?thesis unfolding evaluate_state_def by (rule good_bind [OF good_scan]) (use True n c in auto)
next
  case False
  with assms have o: "open_object states sx" by (simp add: sax_inv_open)
  have k: "good (state_good False states) (bind_res (parse_key t lx2 sx) (\<lambda>(tok3, lx3, sx3). Inr (Next tok3 lx3 sx3)))" if "token_ok t lx2" for t lx2
    by (rule good_bind [OF good_parse_key [OF o that]]) auto
  have n: "good (state_good False states) (bind_res (scan lx1) (\<lambda>(tok2, lx2). bind_res (parse_key tok2 lx2 sx) (\<lambda>(tok3, lx3, sx3). Inr (Next tok3 lx3 sx3))))" for lx1
    by (rule good_bind [OF good_scan]) (use k in auto)
  have c: "good (state_good False states) (bind_res (end_object sx) (\<lambda>sx1. Inr (Closed lx1 sx1)))" for lx1
    by (rule good_bind [OF good_end_object [OF o]]) simp
  show ?thesis unfolding evaluate_state_def by (rule good_bind [OF good_scan]) (use False n c in auto)
qed

lemma good_sax_loop:
  "sax_inv states sx \<Longrightarrow> (skip \<or> token_ok tok lx) \<Longrightarrow> good (\<lambda>(lx', sx'). sax_inv [] sx') (sax_loop skip tok lx states sx)"
proof (induction skip tok lx states sx rule: sax_loop.induct)
  case (1 skip tok lx states sx)
  have first: "good (value_good states) (if skip then Inr (Evaluate lx sx) else parse_value tok lx states sx)"
    using 1(4,5) good_parse_value by auto
  show ?case
  proof (subst sax_loop.simps, rule good_bind [OF first], goal_cases)
    case (1 st)
    note st = this
    show ?case
    proof (cases st)
      case (Continue tok1 lx1 states1 sx1)
      with st "1.IH"(3) [OF st(1)] show ?thesis by simp
    next
      case (Evaluate lx1 sx1)
      with st have inv: "sax_inv states sx1" by simp
      show ?thesis
      proof (cases states)
        case Nil
        with Evaluate inv show ?thesis by simp
      next
        case (Cons b outer)
        have "good (\<lambda>(lx', sx'). sax_inv [] sx') (bind_res (evaluate_state b lx1 sx1) (\<lambda>st2. case st2 of
            Next tok2 lx2 sx2 \<Rightarrow> sax_loop False tok2 lx2 states sx2 | Closed lx2 sx2 \<Rightarrow> sax_loop True tok lx2 outer sx2))"
        proof (rule good_bind [OF good_evaluate_state [of b outer]], goal_cases)
          case 1
          then show ?case using inv Cons by simp
        next
          case (2 st2)
          then show ?case using "1.IH"(1) [OF st(1) Evaluate Cons] "1.IH"(2) [OF st(1) Evaluate Cons] Cons by (cases st2) auto
        qed
        with Evaluate Cons show ?thesis by (simp only: value_step.case list.case)
      qed
    qed
  qed
qed

lemma json_parse_good: "good json_good (json_parse s)"
  unfolding json_parse_def
proof (rule good_bind [OF good_scan], clarsimp)
  fix tok lx assume t: "token_ok tok lx"
  have "sax_inv [] sax_ctor" by (simp add: sax_inv_def sax_ctor_def)
  from good_sax_loop [OF this, of False tok lx] t
  have g: "good (\<lambda>(lx', sx'). sax_inv [] sx') (sax_loop False tok lx [] sax_ctor)" by simp
  show "good json_good (bind_res (sax_loop False tok lx [] sax_ctor) (\<lambda>(lx1, sx). bind_res (scan lx1) (\<lambda>(tok2, lx2).
      if tok2 \<noteq> T_end_of_input then Inl (syntax_error T_end_of_input ''value'' tok2 lx2) else Inr (sx_root sx))))"
  proof (rule good_bind [OF g], clarsimp)
    fix lx1 sx assume "sax_inv [] sx"
    then show "good json_good (bind_res (scan lx1) (\<lambda>(tok2, lx2).
      if tok2 \<noteq> T_end_of_input then Inl (syntax_error T_end_of_input ''value'' tok2 lx2) else Inr (sx_root sx)))"
      by (intro good_bind [OF good_scan]) (auto simp: sax_inv_def)
  qed
qed

text \<open>
  C17. Parsing ends on every byte string: \<^verbatim>\<open>json::parse\<close> returns a value in which every key and string is
  well-formed UTF-8 and every integer fits 64 bits, or throws an exception of the library. No assertion of
  the scanner, of the parser or of the builder of the value fails, whatever the input.
\<close>

theorem json_parse_total:
  "(\<exists>v. json_parse s = Inr v \<and> json_good v) \<noteq> (\<exists>m. json_parse s = Inl (Json_Exception m))"
  using json_parse_good [of s] by (auto simp: good_def)

lemma json_parse_value_good: "json_parse s = Inr v \<Longrightarrow> json_good v"
  using json_parse_good [of s] by (simp add: good_def)

section \<open>Parsing what was printed\<close>

lemma sax_loop_eval_token: "sax_loop True t lx states sx = sax_loop True t' lx states sx"
proof (induction states arbitrary: lx sx)
  case Nil
  show ?case by (subst (1 2) sax_loop.simps) simp
next
  case (Cons b outer)
  have "(\<lambda>st2. case st2 of Next tok2 lx2 sx2 \<Rightarrow> sax_loop False tok2 lx2 (b # outer) sx2 | Closed lx2 sx2 \<Rightarrow> sax_loop True t lx2 outer sx2) =
    (\<lambda>st2. case st2 of Next tok2 lx2 sx2 \<Rightarrow> sax_loop False tok2 lx2 (b # outer) sx2 | Closed lx2 sx2 \<Rightarrow> sax_loop True t' lx2 outer sx2)"
    using Cons by (auto simp: fun_eq_iff split: state_step.split)
  then show ?case by (subst (1 2) sax_loop.simps) simp
qed

definition evaluate :: "lexer \<Rightarrow> bool list \<Rightarrow> sax \<Rightarrow> (lexer \<times> sax) res" where
  "evaluate lx states sx = sax_loop True T_uninitialized lx states sx"

lemma evaluate_Nil: "evaluate lx [] sx = Inr (lx, sx)"
  unfolding evaluate_def by (subst sax_loop.simps) simp

lemma evaluate_Cons:
  "evaluate lx (b # outer) sx = bind_res (evaluate_state b lx sx) (\<lambda>st2.
     case st2 of Next tok2 lx2 sx2 \<Rightarrow> sax_loop False tok2 lx2 (b # outer) sx2 | Closed lx2 sx2 \<Rightarrow> evaluate lx2 outer sx2)"
  unfolding evaluate_def by (subst sax_loop.simps) simp

lemma loop_Evaluate: "parse_value tok lx states sx = Inr (Evaluate lx1 sx1) \<Longrightarrow> sax_loop False tok lx states sx = evaluate lx1 states sx1"
proof -
  assume "parse_value tok lx states sx = Inr (Evaluate lx1 sx1)"
  then have "sax_loop False tok lx states sx = sax_loop True tok lx1 states sx1" by (subst (1 2) sax_loop.simps) simp
  then show ?thesis unfolding evaluate_def using sax_loop_eval_token by metis
qed

lemma loop_Continue:
  "parse_value tok lx states sx = Inr (Continue tok1 lx1 states1 sx1) \<Longrightarrow> sax_loop False tok lx states sx = sax_loop False tok1 lx1 states1 sx1"
  by (subst sax_loop.simps) simp

text \<open>A closed container stands where it was opened.\<close>

lemma map_put_twice [simp]: "map_put k v (map_put k w m) = map_put k v m"
  by (induction k w m rule: map_put.induct) auto

lemma settle_opened: "handle_value w sx = Inr sx1 \<Longrightarrow> settle v (sx_stack sx1) (push_frame f sx1) = handle_value v sx"
  by (cases sx) (auto simp: handle_value_def settle_def push_frame_def split: list.splits frame.splits option.splits)

text \<open>Where a value may stand, every value may.\<close>

lemma handle_value_any: "handle_value v sx = Inr sx' \<Longrightarrow> \<exists>sx1. handle_value w sx = Inr sx1"
  by (auto simp: handle_value_def split: list.splits frame.splits option.splits)

text \<open>What follows a value in a text.\<close>

definition follow :: "string \<Rightarrow> bool" where
  "follow r \<longleftrightarrow> (case r of [] \<Rightarrow> True | c # _ \<Rightarrow> c \<in> {CHR '','', CHR '']'', CHR ''}''})"

lemma follow_number_ends: "follow r \<Longrightarrow> number_ends r"
  by (auto simp: follow_def number_ends_def is_digit_def split: list.splits)

text \<open>The text of the value \<open>v\<close> is read as \<open>v\<close>.\<close>

definition parses :: "json \<Rightarrow> string \<Rightarrow> bool" where
  "parses v w \<longleftrightarrow> (\<forall>lx r. lx_wf lx \<and> todo lx = w @ r \<and> follow r \<longrightarrow>
     (\<exists>tok lx1 lx2. scan lx = Inr (tok, lx1) \<and> tok \<noteq> T_end_array \<and> lx_wf lx2 \<and> todo lx2 = r \<and>
        (\<forall>states sx sx'. handle_value v sx = Inr sx' \<longrightarrow> sax_loop False tok lx1 states sx = evaluate lx2 states sx')))"

lemma parsesE:
  assumes "parses v w" and "lx_wf lx" and "todo lx = w @ r" and "follow r"
  obtains tok lx1 lx2 where "scan lx = Inr (tok, lx1)" "tok \<noteq> T_end_array" "lx_wf lx2" "todo lx2 = r"
    "\<And>states sx sx'. handle_value v sx = Inr sx' \<Longrightarrow> sax_loop False tok lx1 states sx = evaluate lx2 states sx'"
  using assms unfolding parses_def by blast

lemma parses_plain:
  assumes "\<And>lx r. lx_wf lx \<Longrightarrow> todo lx = w @ r \<Longrightarrow> follow r \<Longrightarrow> \<exists>tok lx1. scan lx = Inr (tok, lx1) \<and> tok \<noteq> T_end_array \<and> lx_wf lx1 \<and> todo lx1 = r \<and>
    (\<forall>states sx. parse_value tok lx1 states sx = plain_value v lx1 sx)"
  shows "parses v w"
  unfolding parses_def
proof (intro allI impI, elim conjE)
  fix lx r assume "lx_wf lx" "todo lx = w @ r" "follow r"
  from assms [OF this] obtain tok lx1 where a: "scan lx = Inr (tok, lx1)" "tok \<noteq> T_end_array" "lx_wf lx1" "todo lx1 = r"
    "\<And>states sx. parse_value tok lx1 states sx = plain_value v lx1 sx" by blast
  have "sax_loop False tok lx1 states sx = evaluate lx1 states sx'" if "handle_value v sx = Inr sx'" for states sx sx'
    using a(5) that by (intro loop_Evaluate) (simp add: plain_value_def)
  with a(1-4) show "\<exists>tok lx1 lx2. scan lx = Inr (tok, lx1) \<and> tok \<noteq> T_end_array \<and> lx_wf lx2 \<and> todo lx2 = r \<and>
        (\<forall>states sx sx'. handle_value v sx = Inr sx' \<longrightarrow> sax_loop False tok lx1 states sx = evaluate lx2 states sx')" by blast
qed

lemma parses_token:
  assumes "\<And>lx r. lx_wf lx \<Longrightarrow> todo lx = w @ r \<Longrightarrow> \<exists>lx1. scan lx = Inr (tok, lx1) \<and> at_text lx1 r \<and> P lx1"
    and "\<And>lx1 states sx. P lx1 \<Longrightarrow> parse_value tok lx1 states sx = plain_value v lx1 sx" and "tok \<noteq> T_end_array"
  shows "parses v w"
proof (rule parses_plain)
  fix lx r assume "lx_wf lx" "todo lx = w @ r"
  from assms(1) [OF this] obtain lx1 where l: "scan lx = Inr (tok, lx1)" "at_text lx1 r" "P lx1" by blast
  with at_text_wf [OF l(2)] assms(2) [OF l(3)] assms(3)
  show "\<exists>tok lx1. scan lx = Inr (tok, lx1) \<and> tok \<noteq> T_end_array \<and> lx_wf lx1 \<and> todo lx1 = r \<and>
    (\<forall>states sx. parse_value tok lx1 states sx = plain_value v lx1 sx)" by blast
qed

lemma parses_true: "parses (JBool True) ''true''"
  by (rule parses_token [where P = "\<lambda>_. True" and tok = T_literal_true]) (use scan_literal_at in \<open>simp_all add: parse_value_def\<close>)

lemma parses_false: "parses (JBool False) ''false''"
  by (rule parses_token [where P = "\<lambda>_. True" and tok = T_literal_false]) (use scan_literal_at in \<open>simp_all add: parse_value_def\<close>)

lemma parses_null: "parses JNull ''null''"
  by (rule parses_token [where P = "\<lambda>_. True" and tok = T_literal_null]) (use scan_literal_at in \<open>simp_all add: parse_value_def\<close>)

lemma parses_string: "utf8 s \<Longrightarrow> parses (JStr s) (quoted s)"
  by (rule parses_token [where P = "\<lambda>lx. lx_buffer lx = s" and tok = T_value_string]) (use scan_quoted in \<open>simp_all add: parse_value_def\<close>)

lemma parses_integer: "-(2 ^ 63) \<le> x \<Longrightarrow> x < 2 ^ 64 \<Longrightarrow> parses (JNum x) (to_string x)"
proof (rule parses_plain)
  fix lx r assume "-(2 ^ 63) \<le> x" "x < 2 ^ 64" "lx_wf lx" "todo lx = to_string x @ r" "follow r"
  then obtain lx1 where "scan lx = Inr (if x < 0 then T_value_integer else T_value_unsigned, lx1)" "lx_wf lx1" "todo lx1 = r"
    "if x < 0 then lx_integer lx1 = x else int (lx_unsigned lx1) = x"
    using scan_integer [of lx x r] follow_number_ends by blast
  then show "\<exists>tok lx1. scan lx = Inr (tok, lx1) \<and> tok \<noteq> T_end_array \<and> lx_wf lx1 \<and> todo lx1 = r \<and>
    (\<forall>states sx. parse_value tok lx1 states sx = plain_value (JNum x) lx1 sx)"
    by (auto simp: parse_value_def split: if_splits)
qed

lemma follow_comma [simp]: "follow (CHR '','' # r)" "follow (CHR '']'' # r)" "follow (CHR ''}'' # r)"
  by (simp_all add: follow_def)

lemma scan_end_array: "lx_wf lx \<Longrightarrow> todo lx = CHR '']'' # r \<Longrightarrow> \<exists>lx1. scan lx = Inr (T_end_array, lx1) \<and> lx_wf lx1 \<and> todo lx1 = r"
  using scan_punctuation [of lx "CHR '']''" r T_end_array] at_text_wf by (fastforce simp: punctuation_def)

lemma scan_end_object: "lx_wf lx \<Longrightarrow> todo lx = CHR ''}'' # r \<Longrightarrow> \<exists>lx1. scan lx = Inr (T_end_object, lx1) \<and> lx_wf lx1 \<and> todo lx1 = r"
  using scan_punctuation [of lx "CHR ''}''" r T_end_object] at_text_wf by (fastforce simp: punctuation_def)

lemma scan_comma: "lx_wf lx \<Longrightarrow> todo lx = CHR '','' # r \<Longrightarrow> \<exists>lx1. scan lx = Inr (T_value_separator, lx1) \<and> lx_wf lx1 \<and> todo lx1 = r"
  using scan_punctuation [of lx "CHR '',''" r T_value_separator] at_text_wf by (fastforce simp: punctuation_def)

text \<open>The elements of an array that is being read, up to its end.\<close>

lemma array_elements:
  assumes "us \<noteq> []" and "\<forall>u \<in> set us. parses (f u) (h u)" and "lx_wf lx" and "todo lx = comma (map h us) @ CHR '']'' # r"
  shows "\<exists>tok lx1 lx2. scan lx = Inr (tok, lx1) \<and> tok \<noteq> T_end_array \<and> lx_wf lx2 \<and> todo lx2 = r \<and>
    (\<forall>states sx acc fs sx'. sx_stack sx = Arr_Frame acc # fs \<longrightarrow> settle (JArr (acc @ map f us)) fs sx = Inr sx' \<longrightarrow>
      sax_loop False tok lx1 (True # states) sx = evaluate lx2 states sx')"
  using assms
proof (induction us arbitrary: lx rule: list_nonempty_induct)
  case (single u)
  then have t: "todo lx = h u @ CHR '']'' # r" "parses (f u) (h u)" by simp_all
  from parsesE [OF t(2) single(2) t(1)] obtain tok lx1 lx2 where p: "scan lx = Inr (tok, lx1)" "tok \<noteq> T_end_array" "lx_wf lx2" "todo lx2 = CHR '']'' # r"
    "\<And>states sx sx'. handle_value (f u) sx = Inr sx' \<Longrightarrow> sax_loop False tok lx1 states sx = evaluate lx2 states sx'" by auto
  obtain lx3 where e: "scan lx2 = Inr (T_end_array, lx3)" "lx_wf lx3" "todo lx3 = r" using scan_end_array [OF p(3,4)] by blast
  have "sax_loop False tok lx1 (True # states) sx = evaluate lx3 states sx'"
    if s: "sx_stack sx = Arr_Frame acc # fs" "settle (JArr (acc @ map f [u])) fs sx = Inr sx'" for states sx acc fs sx'
  proof -
    let ?sx = "sx\<lparr>sx_stack := Arr_Frame (acc @ [f u]) # fs\<rparr>"
    have h: "handle_value (f u) sx = Inr ?sx" using s(1) by (simp add: handle_value_def)
    have "end_array ?sx = Inr sx'" using s(2) by (auto simp: end_array_def settle_def split: list.splits frame.splits option.splits)
    with e(1) have "evaluate lx2 (True # states) ?sx = evaluate lx3 states sx'" by (simp add: evaluate_Cons evaluate_state_def)
    with p(5) [OF h] show ?thesis by simp
  qed
  with p(1,2) e(2,3) show ?case by blast
next
  case (cons u us)
  then have t: "todo lx = h u @ CHR '','' # comma (map h us) @ CHR '']'' # r" "parses (f u) (h u)" by simp_all
  from parsesE [OF t(2) cons(4) t(1)] obtain tok lx1 lx2 where p: "scan lx = Inr (tok, lx1)" "tok \<noteq> T_end_array" "lx_wf lx2"
    "todo lx2 = CHR '','' # comma (map h us) @ CHR '']'' # r"
    "\<And>states sx sx'. handle_value (f u) sx = Inr sx' \<Longrightarrow> sax_loop False tok lx1 states sx = evaluate lx2 states sx'" by auto
  obtain lx3 where c: "scan lx2 = Inr (T_value_separator, lx3)" "lx_wf lx3" "todo lx3 = comma (map h us) @ CHR '']'' # r"
    using scan_comma [OF p(3,4)] by blast
  from cons(2) [OF _ c(2,3)] cons(3) obtain tok2 lx4 lx5 where n: "scan lx3 = Inr (tok2, lx4)" "lx_wf lx5" "todo lx5 = r"
    "\<And>states sx acc fs sx'. sx_stack sx = Arr_Frame acc # fs \<Longrightarrow> settle (JArr (acc @ map f us)) fs sx = Inr sx' \<Longrightarrow>
      sax_loop False tok2 lx4 (True # states) sx = evaluate lx5 states sx'" by auto
  have "sax_loop False tok lx1 (True # states) sx = evaluate lx5 states sx'"
    if s: "sx_stack sx = Arr_Frame acc # fs" "settle (JArr (acc @ map f (u # us))) fs sx = Inr sx'" for states sx acc fs sx'
  proof -
    let ?sx = "sx\<lparr>sx_stack := Arr_Frame (acc @ [f u]) # fs\<rparr>"
    have h: "handle_value (f u) sx = Inr ?sx" using s(1) by (simp add: handle_value_def)
    have "settle (JArr ((acc @ [f u]) @ map f us)) fs ?sx = Inr sx'"
      using s(2) by (auto simp: settle_def split: list.splits frame.splits option.splits)
    with n(4) [of ?sx "acc @ [f u]" fs] have "sax_loop False tok2 lx4 (True # states) ?sx = evaluate lx5 states sx'" by simp
    with c(1) n(1) have "evaluate lx2 (True # states) ?sx = evaluate lx5 states sx'" by (simp add: evaluate_Cons evaluate_state_def)
    with p(5) [OF h] show ?thesis by simp
  qed
  with p(1,2) n(2,3) show ?case by blast
qed

text \<open>A container: its first token, and what the loop does from there.\<close>

lemma parsesI:
  assumes "\<And>lx r. lx_wf lx \<Longrightarrow> todo lx = w @ r \<Longrightarrow> \<exists>lx1 lx2. scan lx = Inr (tok, lx1) \<and> lx_wf lx2 \<and> todo lx2 = r \<and>
      (\<forall>states sx sx'. handle_value v sx = Inr sx' \<longrightarrow> sax_loop False tok lx1 states sx = evaluate lx2 states sx')"
    and "tok \<noteq> T_end_array"
  shows "parses v w"
  using assms unfolding parses_def by blast

lemma parses_array:
  assumes "\<forall>u \<in> set us. parses (f u) (h u)"
  shows "parses (JArr (map f us)) (''['' @ comma (map h us) @ '']'')"
proof (rule parsesI [where tok = T_begin_array])
  fix lx r assume a: "lx_wf lx" "todo lx = (''['' @ comma (map h us) @ '']'') @ r"
  then obtain lx1 where o: "scan lx = Inr (T_begin_array, lx1)" "lx_wf lx1" "todo lx1 = comma (map h us) @ CHR '']'' # r"
    using scan_punctuation [of lx "CHR ''[''" _ T_begin_array] at_text_wf by (fastforce simp: punctuation_def)
  have "\<exists>lx2. lx_wf lx2 \<and> todo lx2 = r \<and>
    (\<forall>states sx sx'. handle_value (JArr (map f us)) sx = Inr sx' \<longrightarrow> sax_loop False T_begin_array lx1 states sx = evaluate lx2 states sx')"
  proof (cases "us = []")
    case True
    with o(3) have "todo lx1 = CHR '']'' # r" by simp
    from scan_end_array [OF o(2) this] obtain lx2 where e: "scan lx1 = Inr (T_end_array, lx2)" "lx_wf lx2" "todo lx2 = r" by blast
    have "sax_loop False T_begin_array lx1 states sx = evaluate lx2 states sx'" if "handle_value (JArr []) sx = Inr sx'" for states sx sx'
    proof (rule loop_Evaluate)
      have "end_array (push_frame (Arr_Frame []) sx') = Inr sx'"
        using settle_opened [OF that, of "JArr []" "Arr_Frame []"] that by (simp add: end_array_def push_frame_def)
      then show "parse_value T_begin_array lx1 states sx = Inr (Evaluate lx2 sx')"
        using that e(1) by (simp add: parse_value_def start_array_def)
    qed
    with e True show ?thesis by auto
  next
    case False
    from array_elements [OF False assms o(2,3)] obtain tok lx2 lx3 where n: "scan lx1 = Inr (tok, lx2)" "tok \<noteq> T_end_array" "lx_wf lx3" "todo lx3 = r"
      "\<And>states sx acc fs sx'. sx_stack sx = Arr_Frame acc # fs \<Longrightarrow> settle (JArr (acc @ map f us)) fs sx = Inr sx' \<Longrightarrow>
        sax_loop False tok lx2 (True # states) sx = evaluate lx3 states sx'" by blast
    have "sax_loop False T_begin_array lx1 states sx = evaluate lx3 states sx'" if h: "handle_value (JArr (map f us)) sx = Inr sx'" for states sx sx'
    proof -
      obtain sx1 where s1: "handle_value (JArr []) sx = Inr sx1" using handle_value_any [OF h] by blast
      let ?sx = "push_frame (Arr_Frame []) sx1"
      have st: "sx_stack ?sx = Arr_Frame [] # sx_stack sx1" "settle (JArr ([] @ map f us)) (sx_stack sx1) ?sx = Inr sx'"
        using settle_opened [OF s1] h by (simp_all add: push_frame_def)
      have "sax_loop False T_begin_array lx1 states sx = sax_loop False tok lx2 (True # states) ?sx"
        by (rule loop_Continue) (use s1 n(1,2) in \<open>simp add: parse_value_def start_array_def\<close>)
      with n(5) [OF st] show ?thesis by simp
    qed
    with n(3,4) show ?thesis by blast
  qed
  with o(1) show "\<exists>lx1 lx2. scan lx = Inr (T_begin_array, lx1) \<and> lx_wf lx2 \<and> todo lx2 = r \<and>
      (\<forall>states sx sx'. handle_value (JArr (map f us)) sx = Inr sx' \<longrightarrow> sax_loop False T_begin_array lx1 states sx = evaluate lx2 states sx')" by blast
qed simp

text \<open>A member of an object that is being read.\<close>

lemma member_at:
  assumes k: "utf8 k" and v: "parses v w" and lx: "lx_wf lx" "todo lx = quoted k @ CHR '':'' # w @ r" and r: "follow r"
  shows "\<exists>lx1 lx2. scan lx = Inr (T_value_string, lx1) \<and> lx_wf lx2 \<and> todo lx2 = r \<and>
    (\<forall>states sx m k0 fs. sx_stack sx = Obj_Frame m k0 # fs \<longrightarrow> (\<exists>tok lx3 sx3. parse_key T_value_string lx1 sx = Inr (tok, lx3, sx3) \<and>
      sax_loop False tok lx3 (False # states) sx3 = evaluate lx2 (False # states) (sx\<lparr>sx_stack := Obj_Frame (map_put k v m) (Some k) # fs\<rparr>)))"
proof -
  obtain lx1 where l1: "scan lx = Inr (T_value_string, lx1)" "at_text lx1 (CHR '':'' # w @ r)" "lx_buffer lx1 = k" using scan_quoted [OF lx k] by blast
  obtain lxc where c: "scan lx1 = Inr (T_name_separator, lxc)" "at_text lxc (w @ r)"
    using scan_punctuation [of lx1 "CHR '':''" "w @ r" T_name_separator] at_text_wf [OF l1(2)] by (auto simp: punctuation_def)
  from at_text_wf [OF c(2)] have "lx_wf lxc" "todo lxc = w @ r" by auto
  from parsesE [OF v this r] obtain tok lx3 lx2 where p: "scan lxc = Inr (tok, lx3)" "lx_wf lx2" "todo lx2 = r"
    "\<And>states sx sx'. handle_value v sx = Inr sx' \<Longrightarrow> sax_loop False tok lx3 states sx = evaluate lx2 states sx'" by blast
  have "\<exists>sx3. parse_key T_value_string lx1 sx = Inr (tok, lx3, sx3) \<and>
      sax_loop False tok lx3 (False # states) sx3 = evaluate lx2 (False # states) (sx\<lparr>sx_stack := Obj_Frame (map_put k v m) (Some k) # fs\<rparr>)"
    if s: "sx_stack sx = Obj_Frame m k0 # fs" for states sx m k0 fs
  proof -
    let ?sx = "sx\<lparr>sx_stack := Obj_Frame (if map_of m k = None then map_put k JNull m else m) (Some k) # fs\<rparr>"
    have "parse_key T_value_string lx1 sx = Inr (tok, lx3, ?sx)" using s l1(3) c(1) p(1) by (simp add: parse_key_def sax_key_def)
    moreover have "handle_value v ?sx = Inr (sx\<lparr>sx_stack := Obj_Frame (map_put k v m) (Some k) # fs\<rparr>)" by (simp add: handle_value_def)
    ultimately show ?thesis using p(4) by blast
  qed
  with l1(1) p(2,3) show ?thesis by blast
qed

lemma object_members:
  assumes "es \<noteq> []" and "\<forall>e \<in> set es. utf8 (fst e) \<and> parses (f (snd e)) (h (snd e))" and "lx_wf lx"
    and "todo lx = comma (map (\<lambda>e. quoted (fst e) @ CHR '':'' # h (snd e)) es) @ CHR ''}'' # r"
  shows "\<exists>lx1 lx2. scan lx = Inr (T_value_string, lx1) \<and> lx_wf lx2 \<and> todo lx2 = r \<and>
    (\<forall>states sx m k0 fs sx'. sx_stack sx = Obj_Frame m k0 # fs \<longrightarrow> settle (JObj (foldl (\<lambda>m e. map_put (fst e) (f (snd e)) m) m es)) fs sx = Inr sx' \<longrightarrow>
      (\<exists>tok lx3 sx3. parse_key T_value_string lx1 sx = Inr (tok, lx3, sx3) \<and> sax_loop False tok lx3 (False # states) sx3 = evaluate lx2 states sx'))"
  using assms
proof (induction es arbitrary: lx rule: list_nonempty_induct)
  case (single e)
  then have t: "todo lx = quoted (fst e) @ CHR '':'' # h (snd e) @ CHR ''}'' # r" "utf8 (fst e)" "parses (f (snd e)) (h (snd e))" by simp_all
  from member_at [OF t(2,3) single(2) t(1)] obtain lx1 lx2 where p: "scan lx = Inr (T_value_string, lx1)" "lx_wf lx2" "todo lx2 = CHR ''}'' # r"
    "\<And>states sx m k0 fs. sx_stack sx = Obj_Frame m k0 # fs \<Longrightarrow> (\<exists>tok lx3 sx3. parse_key T_value_string lx1 sx = Inr (tok, lx3, sx3) \<and>
      sax_loop False tok lx3 (False # states) sx3 = evaluate lx2 (False # states) (sx\<lparr>sx_stack := Obj_Frame (map_put (fst e) (f (snd e)) m) (Some (fst e)) # fs\<rparr>))"
    by auto
  obtain lx3 where c: "scan lx2 = Inr (T_end_object, lx3)" "lx_wf lx3" "todo lx3 = r" using scan_end_object [OF p(2,3)] by blast
  have ev: "evaluate lx2 (False # states) (sx\<lparr>sx_stack := Obj_Frame (map_put (fst e) (f (snd e)) m) (Some (fst e)) # fs\<rparr>) = evaluate lx3 states sx'"
    if "settle (JObj (foldl (\<lambda>m e. map_put (fst e) (f (snd e)) m) m [e])) fs sx = Inr sx'" for states sx m fs sx'
  proof -
    have "end_object (sx\<lparr>sx_stack := Obj_Frame (map_put (fst e) (f (snd e)) m) (Some (fst e)) # fs\<rparr>) = Inr sx'"
      using that by (auto simp: end_object_def settle_def split: list.splits frame.splits option.splits)
    with c(1) show ?thesis by (simp add: evaluate_Cons evaluate_state_def)
  qed
  have "\<exists>tok lx3' sx3. parse_key T_value_string lx1 sx = Inr (tok, lx3', sx3) \<and> sax_loop False tok lx3' (False # states) sx3 = evaluate lx3 states sx'"
    if "sx_stack sx = Obj_Frame m k0 # fs" "settle (JObj (foldl (\<lambda>m e. map_put (fst e) (f (snd e)) m) m [e])) fs sx = Inr sx'" for states sx m k0 fs sx'
    using p(4) [OF that(1), of states] ev [OF that(2), of states] by simp
  with p(1) c(2,3) show ?case by blast
next
  case (cons e es)
  let ?t = "comma (map (\<lambda>e. quoted (fst e) @ CHR '':'' # h (snd e)) es) @ CHR ''}'' # r"
  have t: "todo lx = quoted (fst e) @ CHR '':'' # h (snd e) @ CHR '','' # ?t" "utf8 (fst e)" "parses (f (snd e)) (h (snd e))"
    using cons by simp_all
  from member_at [OF t(2,3) cons(4) t(1)] obtain lx1 lx2 where p: "scan lx = Inr (T_value_string, lx1)" "lx_wf lx2" "todo lx2 = CHR '','' # ?t"
    "\<And>states sx m k0 fs. sx_stack sx = Obj_Frame m k0 # fs \<Longrightarrow> (\<exists>tok lx3 sx3. parse_key T_value_string lx1 sx = Inr (tok, lx3, sx3) \<and>
      sax_loop False tok lx3 (False # states) sx3 = evaluate lx2 (False # states) (sx\<lparr>sx_stack := Obj_Frame (map_put (fst e) (f (snd e)) m) (Some (fst e)) # fs\<rparr>))"
    by auto
  obtain lx3 where c: "scan lx2 = Inr (T_value_separator, lx3)" "lx_wf lx3" "todo lx3 = ?t" using scan_comma [OF p(2,3)] by blast
  from cons(2) [OF _ c(2,3)] cons(3) obtain lx4 lx5 where n: "scan lx3 = Inr (T_value_string, lx4)" "lx_wf lx5" "todo lx5 = r"
    "\<And>states sx m k0 fs sx'. sx_stack sx = Obj_Frame m k0 # fs \<Longrightarrow> settle (JObj (foldl (\<lambda>m e. map_put (fst e) (f (snd e)) m) m es)) fs sx = Inr sx' \<Longrightarrow>
      (\<exists>tok lx6 sx3. parse_key T_value_string lx4 sx = Inr (tok, lx6, sx3) \<and> sax_loop False tok lx6 (False # states) sx3 = evaluate lx5 states sx')"
    by auto
  have ev: "evaluate lx2 (False # states) (sx\<lparr>sx_stack := Obj_Frame (map_put (fst e) (f (snd e)) m) (Some (fst e)) # fs\<rparr>) = evaluate lx5 states sx'"
    if s: "settle (JObj (foldl (\<lambda>m e. map_put (fst e) (f (snd e)) m) m (e # es))) fs sx = Inr sx'" for states sx m fs sx'
  proof -
    let ?sx = "sx\<lparr>sx_stack := Obj_Frame (map_put (fst e) (f (snd e)) m) (Some (fst e)) # fs\<rparr>"
    have "settle (JObj (foldl (\<lambda>m e. map_put (fst e) (f (snd e)) m) (map_put (fst e) (f (snd e)) m) es)) fs ?sx = Inr sx'"
      using s by (auto simp: settle_def split: list.splits frame.splits option.splits)
    from n(4) [OF _ this] obtain tok lx6 sx3 where "parse_key T_value_string lx4 ?sx = Inr (tok, lx6, sx3)"
      "sax_loop False tok lx6 (False # states) sx3 = evaluate lx5 states sx'" by fastforce
    with c(1) n(1) show ?thesis by (simp add: evaluate_Cons evaluate_state_def)
  qed
  have "\<exists>tok lx3' sx3. parse_key T_value_string lx1 sx = Inr (tok, lx3', sx3) \<and> sax_loop False tok lx3' (False # states) sx3 = evaluate lx5 states sx'"
    if "sx_stack sx = Obj_Frame m k0 # fs" "settle (JObj (foldl (\<lambda>m e. map_put (fst e) (f (snd e)) m) m (e # es))) fs sx = Inr sx'" for states sx m k0 fs sx'
    using p(4) [OF that(1), of states] ev [OF that(2), of states] by simp
  with p(1) n(2,3) show ?case by blast
qed

lemma parses_object:
  assumes "\<forall>e \<in> set es. utf8 (fst e) \<and> parses (f (snd e)) (h (snd e))"
  shows "parses (JObj (std_map (map (\<lambda>e. (fst e, f (snd e))) es))) (''{'' @ comma (map (\<lambda>e. quoted (fst e) @ CHR '':'' # h (snd e)) es) @ ''}'')"
proof (rule parsesI [where tok = T_begin_object])
  let ?m = "foldl (\<lambda>m e. map_put (fst e) (f (snd e)) m) [] es"
  have m: "std_map (map (\<lambda>e. (fst e, f (snd e))) es) = ?m" by (simp add: std_map_def foldl_map)
  fix lx r assume a: "lx_wf lx" "todo lx = (''{'' @ comma (map (\<lambda>e. quoted (fst e) @ CHR '':'' # h (snd e)) es) @ ''}'') @ r"
  then obtain lx1 where o: "scan lx = Inr (T_begin_object, lx1)" "lx_wf lx1"
    "todo lx1 = comma (map (\<lambda>e. quoted (fst e) @ CHR '':'' # h (snd e)) es) @ CHR ''}'' # r"
    using scan_punctuation [of lx "CHR ''{''" _ T_begin_object] at_text_wf by (fastforce simp: punctuation_def)
  have "\<exists>lx2. lx_wf lx2 \<and> todo lx2 = r \<and>
    (\<forall>states sx sx'. handle_value (JObj ?m) sx = Inr sx' \<longrightarrow> sax_loop False T_begin_object lx1 states sx = evaluate lx2 states sx')"
  proof (cases "es = []")
    case True
    with o(3) have "todo lx1 = CHR ''}'' # r" by simp
    from scan_end_object [OF o(2) this] obtain lx2 where e: "scan lx1 = Inr (T_end_object, lx2)" "lx_wf lx2" "todo lx2 = r" by blast
    have "sax_loop False T_begin_object lx1 states sx = evaluate lx2 states sx'" if "handle_value (JObj []) sx = Inr sx'" for states sx sx'
    proof (rule loop_Evaluate)
      have "end_object (push_frame (Obj_Frame [] None) sx') = Inr sx'"
        using settle_opened [OF that, of "JObj []" "Obj_Frame [] None"] that by (simp add: end_object_def push_frame_def)
      then show "parse_value T_begin_object lx1 states sx = Inr (Evaluate lx2 sx')"
        using that e(1) by (simp add: parse_value_def start_object_def)
    qed
    with e True show ?thesis by auto
  next
    case False
    from object_members [OF False assms o(2,3)] obtain lx2 lx3 where n: "scan lx1 = Inr (T_value_string, lx2)" "lx_wf lx3" "todo lx3 = r"
      "\<And>states sx m k0 fs sx'. sx_stack sx = Obj_Frame m k0 # fs \<Longrightarrow> settle (JObj (foldl (\<lambda>m e. map_put (fst e) (f (snd e)) m) m es)) fs sx = Inr sx' \<Longrightarrow>
        (\<exists>tok lx4 sx3. parse_key T_value_string lx2 sx = Inr (tok, lx4, sx3) \<and> sax_loop False tok lx4 (False # states) sx3 = evaluate lx3 states sx')"
      by blast
    have "sax_loop False T_begin_object lx1 states sx = evaluate lx3 states sx'" if h: "handle_value (JObj ?m) sx = Inr sx'" for states sx sx'
    proof -
      obtain sx1 where s1: "handle_value (JObj []) sx = Inr sx1" using handle_value_any [OF h] by blast
      let ?sx = "push_frame (Obj_Frame [] None) sx1"
      have st: "sx_stack ?sx = Obj_Frame [] None # sx_stack sx1" "settle (JObj ?m) (sx_stack sx1) ?sx = Inr sx'"
        using settle_opened [OF s1] h by (simp_all add: push_frame_def)
      from n(4) [OF st] obtain tok lx4 sx3 where k: "parse_key T_value_string lx2 ?sx = Inr (tok, lx4, sx3)"
        "sax_loop False tok lx4 (False # states) sx3 = evaluate lx3 states sx'" by blast
      have "sax_loop False T_begin_object lx1 states sx = sax_loop False tok lx4 (False # states) sx3"
        by (rule loop_Continue) (use s1 n(1) k(1) in \<open>simp add: parse_value_def start_object_def\<close>)
      with k(2) show ?thesis by simp
    qed
    with n(2,3) show ?thesis by blast
  qed
  with o(1) m show "\<exists>lx1 lx2. scan lx = Inr (T_begin_object, lx1) \<and> lx_wf lx2 \<and> todo lx2 = r \<and>
      (\<forall>states sx sx'. handle_value (JObj (std_map (map (\<lambda>e. (fst e, f (snd e))) es))) sx = Inr sx' \<longrightarrow>
        sax_loop False T_begin_object lx1 states sx = evaluate lx2 states sx')" by auto
qed simp

lemma parses_text: "json_ok v \<Longrightarrow> parses (canon v) (json_text v)"
proof (induction v rule: json_cases_induct)
  case (object kvs)
  have "\<forall>e \<in> set (std_map kvs). utf8 (fst e) \<and> parses (canon (snd e)) (json_text (snd e))"
    using object std_map_set [of kvs] by (auto simp: list_all_iff)
  note p = parses_object [OF this]
  have "canon (JObj kvs) = JObj (std_map (map (\<lambda>e. (fst e, canon (snd e))) (std_map kvs)))"
    unfolding canon.simps std_map_map [of canon] std_map_idem by (rule refl)
  moreover have "json_text (JObj kvs) = ''{'' @ comma (map (\<lambda>e. quoted (fst e) @ CHR '':'' # json_text (snd e)) (std_map kvs)) @ ''}''"
    unfolding json_text.simps std_map_map [of json_text] by (simp add: comp_def)
  ultimately show ?case using p by (simp only:)
next
  case (array vs)
  then have "\<forall>u \<in> set vs. parses (canon u) (json_text u)" by (auto simp: list_all_iff)
  from parses_array [OF this] show ?case by simp
next
  case (boolean b)
  then show ?case by (cases b) (simp_all add: parses_true parses_false)
qed (simp_all add: parses_null parses_string parses_integer)

lemma json_parse_text:
  assumes "json_ok v"
  shows "json_parse (json_text v) = Inr (canon v)"
proof -
  let ?lx = "lexer_ctor (json_text v)"
  have w: "lx_wf ?lx" "todo ?lx = json_text v @ []" by (simp_all add: lexer_ctor_def lx_wf_def todo_def)
  have "follow []" by (simp add: follow_def)
  obtain tok lx1 lx2 where p: "scan ?lx = Inr (tok, lx1)" "tok \<noteq> T_end_array" "lx_wf lx2" "todo lx2 = []"
    "\<forall>states sx sx'. handle_value (canon v) sx = Inr sx' \<longrightarrow> sax_loop False tok lx1 states sx = evaluate lx2 states sx'"
    using parses_text [OF assms, unfolded parses_def, THEN spec, THEN spec, THEN mp, OF conjI [OF w(1) conjI [OF w(2) \<open>follow []\<close>]]] by (elim exE conjE)
  let ?sx = "sax_ctor\<lparr>sx_root := canon v\<rparr>"
  have "handle_value (canon v) sax_ctor = Inr ?sx" by (simp add: handle_value_def sax_ctor_def)
  from p(5) [rule_format, OF this] have "sax_loop False tok lx1 [] sax_ctor = Inr (lx2, ?sx)" by (simp add: evaluate_Nil)
  moreover obtain lx3 where "scan lx2 = Inr (T_end_of_input, lx3)" using scan_end [OF p(3,4)] by blast
  ultimately show ?thesis using p(1) by (simp add: json_parse_def)
qed

text \<open>
  C16. What \<^verbatim>\<open>dump\<close> prints, \<^verbatim>\<open>parse\<close> reads back: for every value without floating-point numbers whose keys and
  strings are well-formed UTF-8, parsing the printed text gives the value itself, up to the order and the
  duplicates of the members of objects, which \<^verbatim>\<open>std::map\<close> does not keep either. Quotes, backslashes and control
  characters in strings and the whole 64-bit ranges of integers are included.
\<close>

theorem json_round_trip:
  assumes "json_ok v"
  shows "bind_res (json_dump v) json_parse = Inr (canon v)"
  using json_dump_ok [OF assms] json_parse_text [OF assms] by simp

theorem json_round_trip_witness:
  "bind_res (json_dump (JObj [(''k'', JArr [JStr [CHR 0x22, CHR 0x0A, CHR 0xC3, CHR 0xA9], JNum (-9223372036854775808)]), (''a'', JNull)])) json_parse =
     Inr (JObj [(''a'', JNull), (''k'', JArr [JStr [CHR 0x22, CHR 0x0A, CHR 0xC3, CHR 0xA9], JNum (-9223372036854775808)])])"
  using json_round_trip [of "JObj [(''k'', JArr [JStr [CHR 0x22, CHR 0x0A, CHR 0xC3, CHR 0xA9], JNum (-9223372036854775808)]), (''a'', JNull)]"]
  by (simp add: std_map_def utf8_def utf8_start_def in_range_def)

end
