(* ===== verification/JsonValue.thy ===== *)
theory JsonValue
  imports JsonDump
begin

text \<open>
  Access to JSON values as the nodes use it (\<^verbatim>\<open>utils/json.hpp\<close>, class \<^verbatim>\<open>basic_json\<close> and the conversions of
  \<^verbatim>\<open>from_json\<close>): lookup and assignment of members, and the conversions to strings and booleans that happen implicitly in
  an assignment. Every failure is the exception of the library with its text.
\<close>

fun type_name :: "json \<Rightarrow> string" where
  "type_name JNull = ''null''"
| "type_name (JObj _) = ''object''"
| "type_name (JArr _) = ''array''"
| "type_name (JStr _) = ''string''"
| "type_name (JBool _) = ''boolean''"
| "type_name _ = ''number''"

definition json_at :: "string \<Rightarrow> json \<Rightarrow> json res" where
  "json_at key j =
     (case j of
        JObj fs \<Rightarrow> (case map_of fs key of None \<Rightarrow> Inl (out_of_range 403 (''key '' @ [CHR 0x27] @ key @ [CHR 0x27] @ '' not found'')) | Some v \<Rightarrow> Inr v)
      | _ \<Rightarrow> Inl (type_error 304 (''cannot use at() with '' @ type_name j)))"

definition json_contains :: "string \<Rightarrow> json \<Rightarrow> bool" where
  "json_contains key j = (case j of JObj fs \<Rightarrow> map_of fs key \<noteq> None | _ \<Rightarrow> False)"

text \<open>\<^verbatim>\<open>operator[]\<close> of a constant value: the member has to exist.\<close>

definition json_index :: "string \<Rightarrow> json \<Rightarrow> json res" where
  "json_index key j =
     (case j of
        JObj fs \<Rightarrow> (case map_of fs key of None \<Rightarrow> Inl Assert_Failed | Some v \<Rightarrow> Inr v)
      | _ \<Rightarrow> Inl (type_error 305 (''cannot use operator[] with a string argument with '' @ type_name j)))"

definition json_as_string :: "json \<Rightarrow> string res" where
  "json_as_string j = (case j of JStr s \<Rightarrow> Inr s | _ \<Rightarrow> Inl (type_error 302 (''type must be string, but is '' @ type_name j)))"

definition json_as_bool :: "json \<Rightarrow> bool res" where
  "json_as_bool j = (case j of JBool b \<Rightarrow> Inr b | _ \<Rightarrow> Inl (type_error 302 (''type must be boolean, but is '' @ type_name j)))"

lemma catchable_json [simp]: "catchable (type_error i m)" "catchable (out_of_range i m)"
  by (simp_all add: type_error_def out_of_range_def)

lemma json_index_contained: "json_contains key j \<Longrightarrow> json_index key j = json_at key j"
  by (auto simp: json_contains_def json_index_def json_at_def split: json.splits option.splits)

lemma json_access_catchable:
  "json_at key j = Inl e \<Longrightarrow> catchable e" "json_as_string j = Inl e \<Longrightarrow> catchable e" "json_as_bool j = Inl e \<Longrightarrow> catchable e"
  by (auto simp: json_at_def json_as_string_def json_as_bool_def split: json.splits option.splits)

section \<open>Objects filled in by assignment\<close>

text \<open>
  \<^verbatim>\<open>j[key] = v\<close>: \<^verbatim>\<open>operator[]\<close> makes an object of null and enters the key, the assignment replaces the value. An
  object that a function fills in this way, starting from null, is the \<^verbatim>\<open>std::map\<close> of its assignments, and
  \<^verbatim>\<open>dump\<close> does not tell it from the list of the assignments, which the other theories write down.
\<close>

definition json_assign :: "string \<Rightarrow> json \<Rightarrow> json \<Rightarrow> json res" where
  "json_assign key v j =
     (case j of
        JNull \<Rightarrow> Inr (JObj (map_put key v []))
      | JObj m \<Rightarrow> Inr (JObj (map_put key v m))
      | _ \<Rightarrow> Inl (type_error 305 (''cannot use operator[] with a string argument with '' @ type_name j)))"

lemma json_assignments:
  "foldl (\<lambda>r kv. bind_res r (json_assign (fst kv) (snd kv))) (Inr JNull) kvs = Inr (if kvs = [] then JNull else JObj (std_map kvs))"
proof (induction kvs rule: rev_induct)
  case (snoc kv kvs)
  then show ?case by (cases "kvs = []") (simp_all add: json_assign_def std_map_snoc std_map_def)
qed simp

lemma json_dump_assigned:
  assumes "kvs \<noteq> []"
  shows "bind_res (foldl (\<lambda>r kv. bind_res r (json_assign (fst kv) (snd kv))) (Inr JNull) kvs) json_dump = json_dump (JObj kvs)"
  using assms by (simp add: json_assignments json_dump_def std_map_map [of "serializer_dump Strict False"] std_map_idem)

lemma json_at_assigned: "distinct (map fst kvs) \<Longrightarrow> json_at key (JObj (std_map kvs)) = json_at key (JObj kvs)"
proof -
  assume d: "distinct (map fst kvs)"
  have "sorted_wrt (<) (map fst (std_map kvs))" by (rule std_map_sorted)
  then have "distinct (map fst (std_map kvs))" by (simp add: strict_sorted_iff)
  with d std_map_distinct [OF d] have "map_of (std_map kvs) = map_of kvs" by (metis map_of_inject_set)
  then show ?thesis by (simp add: json_at_def)
qed


end
