(* ===== verification/UnitBus.thy ===== *)
theory UnitBus
  imports RemoteServer NetBuffer JsonParse JsonValue
begin

text \<open>
  The message path of the unit manager (\<^verbatim>\<open>unit-manager/src/zmq_bus.cpp\<close>, \<^verbatim>\<open>src/remote_action.cpp\<close>,
  \<^verbatim>\<open>unit_action_match\<close> of \<^verbatim>\<open>src/remote_server.cpp\<close>, \<^verbatim>\<open>include/session.h\<close> and the callbacks of
  \<^verbatim>\<open>src/tcp_comm.cpp\<close>): what happens to a message that a TCP client sends, from the bytes read to the
  unit it is published to or the RPC it becomes. The library simdjson is the parameter \<open>sj\<close>, what it
  reads from a text (no document, or the string members that can be read); \<open>now\<close> is what \<^verbatim>\<open>time(NULL)\<close>
  returns. The calls that temporary sockets make are collected per socket.
\<close>

section \<open>Publishing to a unit\<close>

text \<open>The log level is a constant of \<^verbatim>\<open>sample_log.h\<close> in every translation unit.\<close>

definition SAMPLE_LOG_WARN :: int where "SAMPLE_LOG_WARN = 4"
definition SAMPLE_LOG_INFO :: int where "SAMPLE_LOG_INFO = 6"
definition log_level :: int where "log_level = SAMPLE_LOG_INFO"

text \<open>\<^verbatim>\<open>unit_p->send_msg(json_str)\<close> through the address read from the table.\<close>

definition push_to :: "nat \<Rightarrow> string \<Rightarrow> sys_state \<Rightarrow> sys_state res" where
  "push_to p json_str st =
     (case map_of (unit_heap st) p of
        None \<Rightarrow> Inl Undefined_Behaviour
      | Some u \<Rightarrow> bind_res (send_msg json_str u) (\<lambda>u'. Inr (st\<lparr>unit_heap := umap_set p u' (unit_heap st)\<rparr>)))"

text \<open>
  \<^verbatim>\<open>zmq_bus_publisher_push\<close>. The macro \<^verbatim>\<open>ALOGW\<close> is an \<^verbatim>\<open>if\<close> without braces, so the \<^verbatim>\<open>else\<close> that follows it
  belongs to the test of the log level.
\<close>

definition zmq_bus_publisher_push :: "string \<Rightarrow> string \<Rightarrow> sys_state \<Rightarrow> (int \<times> sys_state) res" where
  "zmq_bus_publisher_push wid json_str st =
     (if wid = [] then Inr (-1, st)
      else bind_res (case safe_reading_unit None wid st of
                       None \<Rightarrow> Inr st
                     | Some p \<Rightarrow> push_to p json_str st)
             (\<lambda>st1. if log_level \<ge> SAMPLE_LOG_WARN then Inr (0, st1) else Inr (-1, st1)))"

text \<open>A one-shot push socket: connected, used and destroyed; the calls it made.\<close>

definition zmq_com_send :: "zenv \<Rightarrow> int \<Rightarrow> string \<Rightarrow> sys_state \<Rightarrow> zcall list res" where
  "zmq_com_send env com_id out_str st =
     bind_res (sprintf_i 128 (zmq_c_format st) com_id) (\<lambda>zmq_push_url.
     bind_res (pzmq_socket env zmq_push_url ZMQ_PUSH :: unit pzmq res) (\<lambda>z.
     bind_res (pzmq_dtor env (send_data (out_str @ [CHR 0x0A]) z)) (\<lambda>z'. Inr (zmq_log z'))))"

text \<open>The object that \<^verbatim>\<open>usr_print_error\<close> fills in, its members in the order of the assignments.\<close>

definition error_reply :: "string \<Rightarrow> string \<Rightarrow> 64 word \<Rightarrow> json \<Rightarrow> json" where
  "error_reply request_id wid now error =
     JObj [(''request_id'', JStr request_id), (''work_id'', JStr wid), (''created'', JNum (sint now)), (''error'', error),
           (''object'', JStr ''None''), (''data'', JStr ''None'')]"

definition usr_print_error ::
    "zenv \<Rightarrow> 64 word \<Rightarrow> string \<Rightarrow> string \<Rightarrow> string \<Rightarrow> int \<Rightarrow> sys_state \<Rightarrow> zcall list res" where
  "usr_print_error env now request_id wid error_msg zmq_out st =
     bind_res (json_parse error_msg) (\<lambda>error.
     bind_res (json_dump (error_reply request_id wid now error)) (\<lambda>out.
     zmq_com_send env zmq_out out st))"

section \<open>Calling a unit\<close>

text \<open>\<^verbatim>\<open>get_string\<close> leaves the variable empty when the member is missing or not a string.\<close>

type_synonym sj_reader = "string \<Rightarrow> (string \<Rightarrow> string option) option"

definition sj_string :: "sj_reader \<Rightarrow> string \<Rightarrow> string \<Rightarrow> string" where
  "sj_string sj json_str key =
     (case sj json_str of None \<Rightarrow> [] | Some doc \<Rightarrow> (case doc key of None \<Rightarrow> [] | Some s \<Rightarrow> s))"

definition work_unit_of :: "string \<Rightarrow> string" where
  "work_unit_of wid = (case str_find wid ''.'' 0 of None \<Rightarrow> wid | Some i \<Rightarrow> take i wid)"

definition remote_call ::
    "zenv \<Rightarrow> sj_reader \<Rightarrow> int \<Rightarrow> string \<Rightarrow> sys_state \<Rightarrow> (int \<times> zcall list) res" where
  "remote_call env sj com_id json_str st =
     (let wid = sj_string sj json_str ''work_id'';
          work_unit = work_unit_of wid;
          action = sj_string sj json_str ''action''
      in if wid = [] \<or> action = [] then Inl (Runtime_Error ''Invalid JSON: missing work_id or action'')
         else bind_res (snprintf_i 255 (zmq_c_format st) com_id) (\<lambda>com_url.
              case call_rpc_action env action (set_param com_url json_str) (\<lambda>_ w. (Inr (), w)) ()
                     (pzmq_server work_unit :: unit pzmq) of
                (Inl e, _, _) \<Rightarrow> Inl e
              | (Inr r, _, clent) \<Rightarrow> Inr (r, zmq_log clent)))"

section \<open>Dispatch of client messages\<close>

text \<open>Splitting the work identifier at its dots; a last empty fragment is dropped.\<close>

fun work_id_fragments :: "string \<Rightarrow> string \<Rightarrow> string list" where
  "work_id_fragments fragment [] = (if length fragment \<noteq> 0 then [fragment] else [])"
| "work_id_fragments fragment (c # cs) =
     (if c \<noteq> CHR ''.'' then work_id_fragments (fragment @ [c]) cs
      else fragment # work_id_fragments [] cs)"

text \<open>The message published for an inference: the address of the client spliced in after the brace.\<close>

definition inference_prefix :: "string \<Rightarrow> string" where
  "inference_prefix zmq_push_url =
     ''{'' @ find_key ''zmq_com'' @ '':'' @ [quote_c] @ zmq_push_url @ [quote_c] @ '',''"

definition inference_raw_data :: "string \<Rightarrow> string \<Rightarrow> string res" where
  "inference_raw_data zmq_push_url json_str =
     (let size = sz_add (sz_add (length zmq_push_url) (length json_str)) 13;
          head = inference_prefix zmq_push_url;
          n = sz_sub (length json_str) 1
      in if n > length json_str \<or> length head + n > size then Inl Undefined_Behaviour
         else Inr (head @ take n (drop 1 json_str) @ replicate (size - (length head + n)) CHR 0x00))"

definition msg_json_error :: string where
  "msg_json_error = ''{'' @ find_key ''code'' @ '':-2, '' @ find_key ''message'' @ '':'' @ find_key ''json format error'' @ ''}''"

definition msg_push_false :: string where
  "msg_push_false = ''{'' @ find_key ''code'' @ '':-4, '' @ find_key ''message'' @ '':'' @ find_key ''inference data push false'' @ ''}''"

definition msg_call_false :: string where
  "msg_call_false = ''{'' @ find_key ''code'' @ '':-9, '' @ find_key ''message'' @ '':'' @ find_key ''unit call false'' @ ''}''"

text \<open>The result carries the calls of the sockets used, in order, and the state.\<close>

definition unit_action_match ::
    "zenv \<Rightarrow> sj_reader \<Rightarrow> 64 word \<Rightarrow> int \<Rightarrow> string \<Rightarrow> sys_state \<Rightarrow>
     (zcall list list \<times> sys_state) res" where
  "unit_action_match env sj now com_id json_str st =
     (let report = (\<lambda>request_id wid m st. bind_res (usr_print_error env now request_id wid m com_id st)
                                            (\<lambda>cs. Inr ([cs], st)))
      in case sj json_str of
           None \<Rightarrow> report ''0'' ''sys'' msg_json_error st
         | Some doc \<Rightarrow>
        (case doc ''request_id'' of
           None \<Rightarrow> report ''0'' ''sys'' msg_json_error st
         | Some request_id \<Rightarrow>
        (case doc ''work_id'' of
           None \<Rightarrow> report ''0'' ''sys'' msg_json_error st
         | Some wid0 \<Rightarrow>
           let wid = (if wid0 = [] then ''sys'' else wid0) in
        (case doc ''action'' of
           None \<Rightarrow> report ''0'' ''sys'' msg_json_error st
         | Some action \<Rightarrow>
           if action = ''inference''
           then bind_res (sprintf_i 128 (zmq_c_format st) com_id) (\<lambda>url.
                bind_res (inference_raw_data url json_str) (\<lambda>raw.
                bind_res (zmq_bus_publisher_push wid raw st) (\<lambda>(ret, st1).
                if ret \<noteq> 0 then report request_id wid msg_push_false st1 else Inr ([], st1))))
           else (case work_id_fragments [] wid of
                   [] \<Rightarrow> Inl Undefined_Behaviour
                 | f0 # _ \<Rightarrow>
                   if length f0 \<noteq> 0
                   then bind_res (remote_call env sj com_id json_str st) (\<lambda>(r, cs).
                        if r \<noteq> 0
                        then bind_res (report request_id wid msg_call_false st)
                               (\<lambda>(css, st1). Inr (cs # css, st1))
                        else Inr ([cs], st))
                   else Inr ([], st))))))"

section \<open>Sessions\<close>

record zmq_bus_com =
  bus_zmq_url :: string
  exit_flage :: int
  err_count :: int
  bus_port :: int
  json_str_flage :: int
  user_chennal :: "unit pzmq option"

definition zmq_bus_com_ctor :: zmq_bus_com where
  "zmq_bus_com_ctor = \<lparr>bus_zmq_url = [], exit_flage = 1, err_count = 0, bus_port = 0,
     json_str_flage = 0, user_chennal = None\<rparr>"

definition bus_work :: "zenv \<Rightarrow> string \<Rightarrow> int \<Rightarrow> zmq_bus_com \<Rightarrow> zmq_bus_com res" where
  "bus_work env zmq_url_format port b =
     bind_res (sprintf_i (length zmq_url_format + length (to_string port)) zmq_url_format port) (\<lambda>url.
     bind_res (pzmq_socket env url ZMQ_PULL) (\<lambda>z.
     Inr (b\<lparr>bus_port := port, exit_flage := 1, bus_zmq_url := url, user_chennal := Some z\<rparr>)))"

definition bus_stop :: "zenv \<Rightarrow> zmq_bus_com \<Rightarrow> zmq_bus_com res" where
  "bus_stop env b =
     (case user_chennal b of
        None \<Rightarrow> Inr (b\<lparr>exit_flage := 0\<rparr>)
      | Some z \<Rightarrow> bind_res (pzmq_dtor env z) (\<lambda>_. Inr (b\<lparr>exit_flage := 0, user_chennal := None\<rparr>)))"

definition zmq_bus_com_dtor :: "zenv \<Rightarrow> zmq_bus_com \<Rightarrow> zmq_bus_com res" where
  "zmq_bus_com_dtor env b = (if exit_flage b \<noteq> 0 then bus_stop env b else Inr b)"

definition select_json_str :: "string \<Rightarrow> (string \<Rightarrow> 'a) \<Rightarrow> 'a" where
  "select_json_str json_src out_fun =
     (let test_json = json_src in
      out_fun (if test_json \<noteq> [] \<and> last test_json = CHR 0x0A then butlast test_json else test_json))"

definition on_data ::
    "zenv \<Rightarrow> sj_reader \<Rightarrow> 64 word \<Rightarrow> zmq_bus_com \<Rightarrow> string \<Rightarrow> sys_state \<Rightarrow>
     (zcall list list \<times> sys_state) res" where
  "on_data env sj now b data st = unit_action_match env sj now (bus_port b) data st"

text \<open>\<^verbatim>\<open>TcpSession::send_data\<close>: the bytes handed to the connection, through a new buffer.\<close>

definition session_send_data :: "string \<Rightarrow> Buffer res" where
  "session_send_data data = bind_res (Buffer_ctor kInitialSize) (Buffer_append data)"

text \<open>
  \<^verbatim>\<open>onConnection\<close> and \<^verbatim>\<open>onMessage\<close>. The context of a connection is \<^const>\<open>None\<close> until a session is stored in
  it; \<^verbatim>\<open>boost::any_cast\<close> then throws, which \<^verbatim>\<open>onMessage\<close> catches and \<^verbatim>\<open>onConnection\<close> does not (it names
  the exception of another library).
\<close>

definition onConnection_up ::
    "zenv \<Rightarrow> sys_state \<Rightarrow> int \<Rightarrow> (zmq_bus_com \<times> int) res" where
  "onConnection_up env st counter_port =
     bind_res (bus_work env (zmq_s_format st) counter_port zmq_bus_com_ctor) (\<lambda>session.
       let c = to_int32 (counter_port + 1) in
       Inr (session, if c > 65535 then 8000 else c))"

definition onConnection_down :: "zenv \<Rightarrow> zmq_bus_com option \<Rightarrow> zmq_bus_com res" where
  "onConnection_down env context =
     (case context of None \<Rightarrow> Inl Bad_Any_Cast | Some session \<Rightarrow> bus_stop env session)"

definition onMessage ::
    "zenv \<Rightarrow> sj_reader \<Rightarrow> 64 word \<Rightarrow> zmq_bus_com option \<Rightarrow> Buffer \<Rightarrow>
     sys_state \<Rightarrow> (zcall list list \<times> Buffer \<times> sys_state) res" where
  "onMessage env sj now context buf st =
     bind_res (retrieveAllAsString buf) (\<lambda>(m, buf').
       case context of
         None \<Rightarrow> Inr ([], buf', st)
       | Some session \<Rightarrow>
           bind_res (select_json_str m (\<lambda>data. on_data env sj now session data st))
             (\<lambda>(css, st'). Inr (css, buf', st')))"

section \<open>Lemmas\<close>

lemma work_id_fragments_nonempty: "fragment @ wid \<noteq> [] \<Longrightarrow> work_id_fragments fragment wid \<noteq> []"
  by (induction fragment wid rule: work_id_fragments.induct) auto

lemma work_id_fragments_first:
  "CHR ''.'' \<notin> set a \<Longrightarrow> work_id_fragments fragment (a @ CHR ''.'' # b) = (fragment @ a) # work_id_fragments [] b"
  by (induction a arbitrary: fragment) auto

lemma inference_raw_data_eq:
  assumes "json_str \<noteq> []" and "length url + length json_str < 2147483647"
  shows "inference_raw_data url json_str = Inr (inference_prefix url @ tl json_str)"
proof -
  have h: "length (inference_prefix url) = length url + 14" by (simp add: inference_prefix_def find_key_def)
  have l: "0 < length json_str" using assms(1) by simp
  have s1: "sz_add (length url) (length json_str) = length url + length json_str"
    using assms(2) by (intro sz_add_eq) simp
  have s2: "sz_add (length url + length json_str) 13 = length url + length json_str + 13"
    using assms(2) by (intro sz_add_eq) simp
  have s3: "sz_sub (length json_str) 1 = length json_str - 1"
    using assms(2) l by (intro sz_sub_eq) (simp_all add: Suc_le_eq)
  have "length url + length json_str + 13 - (length url + 14 + (length json_str - 1)) = 0" using l by simp
  with h l show ?thesis
    unfolding inference_raw_data_def Let_def s1 s2 s3 by (simp add: drop_Suc)
qed

lemma push_to_live:
  assumes "map_of (unit_heap st) p = Some u" "user_inference_chennal u = Some ch"
  shows "push_to p json st =
    Inr (st\<lparr>unit_heap := umap_set p (u\<lparr>user_inference_chennal := Some (send_data json ch)\<rparr>) (unit_heap st)\<rparr>)"
  using assms by (simp add: push_to_def send_msg_def)

text \<open>Replacing a unit by one with the same addresses keeps the ports.\<close>

lemma heap_slots_same:
  "map_of m p = Some u \<Longrightarrow> output_url v = output_url u \<Longrightarrow> inference_url v = inference_url u \<Longrightarrow>
   umap_wf m \<Longrightarrow>
   concat (map (\<lambda>(p, u). unit_slots st u) (umap_set p v m)) = concat (map (\<lambda>(p, u). unit_slots st u) m)"
  by (induction m) (auto simp: unit_slots_def split: if_splits)

lemma set_umap_set: "x \<in> set (umap_set p v m) \<Longrightarrow> x = (p, v) \<or> x \<in> set m"
  by (induction m) (auto split: if_splits)

lemma push_to_inv:
  assumes inv: "sys_inv st" and p: "push_to p json st = Inr st'"
  shows "sys_inv st'"
proof -
  from p obtain u ch where u: "map_of (unit_heap st) p = Some u" "user_inference_chennal u = Some ch"
    by (auto simp: push_to_def send_msg_def split: option.splits)
  let ?u = "u\<lparr>user_inference_chennal := Some (send_data json ch)\<rparr>"
  have st': "st' = st\<lparr>unit_heap := umap_set p ?u (unit_heap st)\<rparr>"
    using push_to_live [OF u, of json] p by simp
  have "(p, u) \<in> set (unit_heap st)" using u(1) by (rule map_of_SomeD)
  then have pu: "p < next_addr st" "channel_ok u" using inv by (auto simp: sys_inv_def)
  then have ch: "channel_ok ?u" using u(2) by (simp add: channel_ok_def send_data_def)
  have wf: "umap_wf (unit_heap st)" using inv by (simp add: sys_inv_def)
  have slots: "heap_slots st' = heap_slots st"
    using heap_slots_same [OF u(1) _ _ wf, of ?u st] st' by (simp add: heap_slots_def unit_slots_def)
  have "\<forall>(q, v) \<in> set (unit_heap st'). q < next_addr st' \<and> channel_ok v"
    using inv pu(1) ch st' by (auto simp: sys_inv_def dest!: set_umap_set)
  moreover have "\<forall>k q. map_of (key_sql st') k = Some (AUnit q) \<longrightarrow>
      (\<exists>v. map_of (unit_heap st') q = Some v \<and> work_id v = k)"
  proof (intro allI impI)
    fix k q assume "map_of (key_sql st') k = Some (AUnit q)"
    with st' have "map_of (key_sql st) k = Some (AUnit q)" by simp
    with inv obtain v where "map_of (unit_heap st) q = Some v" "work_id v = k"
      unfolding sys_inv_def by blast
    with st' u(1) show "\<exists>v. map_of (unit_heap st') q = Some v \<and> work_id v = k" by auto
  qed
  moreover have "config_ok st'" using inv st' by (simp add: sys_inv_def config_ok_def)
  moreover have "umap_wf (unit_heap st')" using wf st' by simp
  ultimately show ?thesis using inv slots st' by (simp add: sys_inv_def)
qed

lemma zmq_bus_publisher_push_total:
  assumes "sys_inv st"
  shows "\<exists>r st'. zmq_bus_publisher_push wid json st = Inr (r, st') \<and> sys_inv st'"
proof (cases "wid = [] \<or> safe_reading_unit None wid st = None")
  case True
  with assms show ?thesis by (auto simp: zmq_bus_publisher_push_def)
next
  case False
  then obtain p where p: "safe_reading_unit None wid st = Some p" by auto
  then have "map_of (key_sql st) wid = Some (AUnit p)"
    by (auto simp: safe_reading_unit_def split: option.splits any.splits)
  with assms obtain u where u: "map_of (unit_heap st) p = Some u" unfolding sys_inv_def by blast
  then have "channel_ok u" using assms map_of_SomeD [OF u] by (auto simp: sys_inv_def)
  then obtain ch where "user_inference_chennal u = Some ch" by (auto simp: channel_ok_def)
  from push_to_live [OF u this, of json] push_to_inv [OF assms, of p json] False p show ?thesis
    by (auto simp: zmq_bus_publisher_push_def)
qed

lemma unit_action_match_state:
  assumes "unit_action_match env sj now com_id json st = Inr (css, st')"
  shows "st' = st \<or> (\<exists>wid raw r. zmq_bus_publisher_push wid raw st = Inr (r, st'))"
  using assms by (auto simp: unit_action_match_def Let_def res_simps split: option.splits if_splits list.splits)

lemma unit_action_match_inv:
  assumes "sys_inv st" and "unit_action_match env sj now com_id json st = Inr (css, st')"
  shows "sys_inv st'"
  using unit_action_match_state [OF assms(2)]
proof
  assume "\<exists>wid raw r. zmq_bus_publisher_push wid raw st = Inr (r, st')"
  then obtain wid raw r where "zmq_bus_publisher_push wid raw st = Inr (r, st')" by blast
  with zmq_bus_publisher_push_total [OF assms(1), of wid raw] show ?thesis by auto
qed (simp add: assms(1))

section \<open>Reachable states of the manager\<close>

text \<open>
  One step: an RPC request to the server \<^verbatim>\<open>sys\<close> that is answered, or a message of a TCP client that is
  processed. Both run to completion before the next (the server's lock and \<^verbatim>\<open>unit_action_match_mtx\<close>).
\<close>

inductive sys_step :: "zenv \<Rightarrow> sj_reader \<Rightarrow> sys_state \<Rightarrow> sys_state \<Rightarrow> bool"
  for env sj where
  rpc: "run_sys env a raw st = (Inr v, st') \<Longrightarrow> sys_step env sj st st'"
| rpc_exception: "run_sys env a raw st = (Inl e, st') \<Longrightarrow> catchable e \<Longrightarrow> sys_step env sj st st'"
| client: "unit_action_match env sj now com_id json st = Inr (css, st') \<Longrightarrow> sys_step env sj st st'"

inductive_cases sys_stepE: "sys_step env sj st st'"

inductive sys_reach :: "zenv \<Rightarrow> sj_reader \<Rightarrow> sys_state \<Rightarrow> sys_state \<Rightarrow> bool"
  for env sj st0 where
  start: "sys_reach env sj st0 st0"
| step: "sys_reach env sj st0 st \<Longrightarrow> sys_step env sj st st' \<Longrightarrow> sys_reach env sj st0 st'"

lemma sys_step_inv: "sys_step env sj st st' \<Longrightarrow> sys_inv st \<Longrightarrow> sys_inv st'"
  by (erule sys_stepE) (metis run_sys_inv snd_conv, metis run_sys_inv snd_conv, rule unit_action_match_inv)

lemma sys_reach_inv: "sys_reach env sj st0 st \<Longrightarrow> sys_inv st0 \<Longrightarrow> sys_inv st"
  by (induction rule: sys_reach.induct) (auto intro: sys_step_inv)

text \<open>The start state has no units.\<close>

lemma load_members_fields [simp]:
  "unit_heap (load_members ms st) = unit_heap st" "next_addr (load_members ms st) = next_addr st"
  by (induction ms st rule: load_members.induct) (auto split: cfg_value.splits)

lemma load_members_no_unit:
  "\<forall>k p. map_of (key_sql st) k \<noteq> Some (AUnit p) \<Longrightarrow> map_of (key_sql (load_members ms st)) k \<noteq> Some (AUnit p)"
  by (induction ms st rule: load_members.induct) (auto split: cfg_value.splits if_splits)

lemma start_unit_manager_inv:
  assumes s: "start_unit_manager env c = Inr st0" and cfg: "config_ok st0"
  shows "sys_inv st0"
proof -
  from s obtain st1 where l: "load_default_config c sys_init = Inr st1" and w: "all_work env st1 = Inr st0"
    by (auto simp: start_unit_manager_def res_simps)
  have "unit_heap st1 = []" "\<forall>k p. map_of (key_sql st1) k \<noteq> Some (AUnit p)"
    using l load_members_no_unit [of sys_init]
    by (auto simp: load_default_config_def sys_init_def split: cfg.splits)
  with w have "unit_heap st0 = []" "\<forall>k p. map_of (key_sql st0) k \<noteq> Some (AUnit p)"
    by (auto simp: all_work_def remote_server_work_def Let_def res_simps split: option.splits if_splits)
  with cfg show ?thesis by (simp add: sys_inv_def heap_slots_def)
qed

lemma heap_slots_disjoint:
  assumes inv: "sys_inv st" and "map_of (unit_heap st) p = Some u" "map_of (unit_heap st) q = Some v" "p \<noteq> q"
  shows "set (unit_slots st u) \<inter> set (unit_slots st v) = {}"
proof -
  have wf: "umap_wf (unit_heap st)" using inv by (simp add: sys_inv_def)
  from umap_erase_split [OF wf assms(2)] obtain xs ys where
    heap: "unit_heap st = xs @ (p, u) # ys" and er: "umap_erase p (unit_heap st) = xs @ ys" by blast
  have "map_of (umap_erase p (unit_heap st)) q = Some v" using assms(3,4) by simp
  then have qv: "(q, v) \<in> set (xs @ ys)" unfolding er by (rule map_of_SomeD)
  let ?f = "\<lambda>(p :: nat, u). unit_slots st u"
  have "distinct (concat (map ?f xs) @ unit_slots st u @ concat (map ?f ys))"
    using inv unfolding sys_inv_def heap_slots_def heap by simp
  then have "set (unit_slots st u) \<inter> set (concat (map ?f (xs @ ys))) = {}"
    unfolding distinct_append map_append concat_append set_append by blast
  moreover have "set (unit_slots st v) \<subseteq> set (concat (map ?f (xs @ ys)))"
    using qv by (auto intro!: bexI [of _ "(q, v)"])
  ultimately show ?thesis by blast
qed

lemma unit_slots_marked:
  assumes inv: "sys_inv st" and k: "map_of (key_sql st) k = Some (AUnit p)"
  shows "\<exists>u i j. map_of (unit_heap st) p = Some u \<and> work_id u = k \<and> unit_slots st u = [Some i, Some j] \<and>
    i \<noteq> j \<and> i < length (port_list st) \<and> j < length (port_list st) \<and> port_list st ! i \<and> port_list st ! j"
  using sys_release_unit_live [OF assms, of undefined] by blast

lemma pzmq_push_once:
  assumes "zmq_up env" "2 \<le> length url"
  shows "\<exists>z. pzmq_socket env url ZMQ_PUSH = Inr z \<and> zmq_socket z \<and> \<not> zmq_thread z \<and> mode z = Some ZMQ_PUSH \<and>
    zmq_log z = [ZSocket 8, ZSetOpt ''ZMQ_RECONNECT_IVL'' 100, ZSetOpt ''ZMQ_RECONNECT_IVL_MAX'' 1000,
      ZSetOpt ''ZMQ_SNDTIMEO'' 3000, ZConnect (c_str url)]"
proof -
  have up: "\<exists>k. ctx_new env k" "\<exists>k. socket_new env k" using assms(1) by (simp_all add: zmq_up_def)
  obtain j where j: "retry (ctx_new env) 0 = Some j" using retry_obtain [OF up(1)] .
  obtain k where "retry (socket_new env) 0 = Some k" using retry_obtain [OF up(2)] .
  with j assms(2) show ?thesis
    by (auto simp: pzmq_socket_def str_at_def creat_def creat_push_def Let_def zmq_mode_defs pzmq_init_def)
qed

definition push_once_calls :: "string \<Rightarrow> string \<Rightarrow> zcall list" where
  "push_once_calls url data =
     [ZSocket 8, ZSetOpt ''ZMQ_RECONNECT_IVL'' 100, ZSetOpt ''ZMQ_RECONNECT_IVL_MAX'' 1000,
      ZSetOpt ''ZMQ_SNDTIMEO'' 3000, ZConnect (c_str url), ZSend data False, ZCtxShutdown, ZClose, ZCtxDestroy]"

lemma zmq_com_send_ok:
  assumes "zmq_up env" "sprintf_i 128 (zmq_c_format st) com_id = Inr url" "2 \<le> length url"
  shows "zmq_com_send env com_id out st = Inr (push_once_calls url (out @ [CHR 0x0A]))"
proof -
  obtain z :: "unit pzmq" where "pzmq_socket env url ZMQ_PUSH = Inr z" "zmq_socket z" "\<not> zmq_thread z"
    "mode z = Some ZMQ_PUSH"
    "zmq_log z = [ZSocket 8, ZSetOpt ''ZMQ_RECONNECT_IVL'' 100, ZSetOpt ''ZMQ_RECONNECT_IVL_MAX'' 1000,
      ZSetOpt ''ZMQ_SNDTIMEO'' 3000, ZConnect (c_str url)]"
    using pzmq_push_once [OF assms(1,3)] by blast
  with assms(2) show ?thesis
    by (simp add: zmq_com_send_def send_data_def pzmq_dtor_def close_zmq_def is_bind_def zmq_mode_defs
        Let_def push_once_calls_def)
qed

lemma inference_prefix_scan:
  assumes "quote_c \<notin> set url" "backslash_c \<notin> set url" "length url + length rest \<le> 2147483000"
  shows "sample_json_str_get (inference_prefix url @ rest) ''zmq_com'' = Inr url"
proof -
  have f: "str_find (''{'' @ butlast (find_key ''zmq_com'')) (find_key ''zmq_com'') 0 = None"
    by (simp add: find_key_def str_find_def)
  have "field_ok (FStr url)"
    using assms(1,2) by (simp add: escaped_ok_plain) (metis last_in_set)
  moreover have "length (''{'' @ find_key ''zmq_com'' @ [] @ '':'' @ [] @ field_text (FStr url) @ '','' @ rest) \<le> 2147483647"
    using assms(3) by (simp add: find_key_def)
  ultimately have "sample_json_str_get (''{'' @ find_key ''zmq_com'' @ [] @ '':'' @ [] @ field_text (FStr url) @ '','' @ rest)
      ''zmq_com'' = Inr (field_val (FStr url))"
    using json_get_field [OF f, of "[]" "[]" "FStr url" "'','' @ rest"] by simp
  then show ?thesis by (simp add: inference_prefix_def)
qed

section \<open>Error replies\<close>

definition error_object :: "int \<Rightarrow> string \<Rightarrow> json" where
  "error_object code message = JObj [(''code'', JNum code), (''message'', JStr message)]"

text \<open>The texts in the source are JSON and parse to the objects they should.\<close>

lemma messages_parsed:
  "json_parse msg_json_error = Inr (error_object (-2) ''json format error'')"
  "json_parse msg_push_false = Inr (error_object (-4) ''inference data push false'')"
  "json_parse msg_call_false = Inr (error_object (-9) ''unit call false'')"
  by code_simp+

lemma json_ok_error_reply:
  assumes "utf8 rid" "utf8 wid" "json_ok e"
  shows "json_ok (error_reply rid wid now e)"
proof -
  have "- (2 ^ 63) \<le> sint now" "sint now < 2 ^ 63" using sint_greater_eq [of now] sint_less [of now] by simp_all
  then have "- (2 ^ 63) \<le> sint now \<and> sint now < 2 ^ 64" by simp
  with assms show ?thesis by (simp add: error_reply_def utf8_ascii)
qed

lemma error_object_ok: "utf8 m \<Longrightarrow> is_int32 c \<Longrightarrow> json_ok (error_object c m)"
  by (simp add: error_object_def utf8_ascii is_int32_def)

lemma usr_print_error_ok:
  assumes "zmq_up env" and "sprintf_i 128 (zmq_c_format st) com_id = Inr url" and "2 \<le> length url"
    and "utf8 rid" "utf8 wid" and "json_parse error_msg = Inr (error_object c m)" "utf8 m" "is_int32 c"
  shows "usr_print_error env now rid wid error_msg com_id st =
    Inr (push_once_calls url (json_text (error_reply rid wid now (error_object c m)) @ [CHR 0x0A]))"
  using json_dump_ok [OF json_ok_error_reply [OF assms(4,5) error_object_ok [OF assms(7,8)], of now]] zmq_com_send_ok [OF assms(1-3)] assms(6)
  by (simp add: usr_print_error_def)

text \<open>What a client reads from a reply.\<close>

lemma error_reply_read:
  assumes "utf8 rid" "utf8 wid" "utf8 m" "is_int32 c"
  shows "bind_res (json_parse (json_text (error_reply rid wid now (error_object c m)))) (\<lambda>v. bind_res (json_at ''error'' v) (json_at ''code'')) = Inr (JNum c)"
  using json_parse_text [OF json_ok_error_reply [OF assms(1,2) error_object_ok [OF assms(3,4)], of now]]
  by (simp add: error_reply_def error_object_def std_map_def json_at_def)

section \<open>Properties\<close>

text \<open>
  C1. Ports are exclusive in every reachable state: starting from a valid configuration, after any
  sequence of RPC requests and client messages, every unit in the table is a live object filed
  under its own work identifier that holds two different ports, both inside the configured range
  and marked as used, and two different units hold no port in common.
\<close>

theorem units_hold_exclusive_ports:
  assumes "start_unit_manager env c = Inr st0" and "config_ok st0" and "sys_reach env sj st0 st"
    and k: "map_of (key_sql st) k1 = Some (AUnit p1)" "map_of (key_sql st) k2 = Some (AUnit p2)"
  shows "\<exists>u1 u2 i1 j1 i2 j2. map_of (unit_heap st) p1 = Some u1 \<and> map_of (unit_heap st) p2 = Some u2 \<and>
    work_id u1 = k1 \<and> work_id u2 = k2 \<and>
    unit_slots st u1 = [Some i1, Some j1] \<and> unit_slots st u2 = [Some i2, Some j2] \<and>
    i1 \<noteq> j1 \<and> i1 < length (port_list st) \<and> j1 < length (port_list st) \<and> port_list st ! i1 \<and> port_list st ! j1 \<and>
    (k1 \<noteq> k2 \<longrightarrow> {i1, j1} \<inter> {i2, j2} = {})"
proof -
  have inv: "sys_inv st"
    using sys_reach_inv [OF assms(3)] start_unit_manager_inv [OF assms(1,2)] by blast
  from unit_slots_marked [OF inv k(1)] obtain u1 i1 j1 where
    u1: "map_of (unit_heap st) p1 = Some u1" "work_id u1 = k1" "unit_slots st u1 = [Some i1, Some j1]"
    "i1 \<noteq> j1 \<and> i1 < length (port_list st) \<and> j1 < length (port_list st) \<and> port_list st ! i1 \<and> port_list st ! j1"
    by blast
  from unit_slots_marked [OF inv k(2)] obtain u2 i2 j2 where
    u2: "map_of (unit_heap st) p2 = Some u2" "work_id u2 = k2" "unit_slots st u2 = [Some i2, Some j2]" by blast
  have "{i1, j1} \<inter> {i2, j2} = {}" if "k1 \<noteq> k2"
  proof -
    have "p1 \<noteq> p2" using that u1(1,2) u2(1,2) by auto
    from heap_slots_disjoint [OF inv u1(1) u2(1) this] u1(3) u2(3) show ?thesis by auto
  qed
  with u1 u2 show ?thesis by blast
qed

text \<open>A manager started from a configuration like \<^verbatim>\<open>master_config.json\<close>.\<close>

definition demo_cfg :: cfg where
  "demo_cfg = Cfg_Object [(''config_zmq_min_port'', Cfg_Number 5010), (''config_zmq_max_port'', Cfg_Number 5014),
     (''config_zmq_s_format'', Cfg_String ''ipc:///tmp/llm/%i.sock''),
     (''config_zmq_c_format'', Cfg_String ''ipc:///tmp/llm/%i.sock'')]"

lemma demo_start:
  "\<exists>st0. start_unit_manager demo_env demo_cfg = Inr st0 \<and> config_ok st0 \<and> port_list st0 = [False, False, False, False] \<and>
     zmq_c_format st0 = ''ipc:///tmp/llm/%i.sock'' \<and> work_id_number_counter st0 = 0"
proof -
  have "can_serve demo_env (pzmq_server ''sys'' :: sys_action pzmq)"
    by (simp add: can_serve_def demo_env_def pzmq_server_def pzmq_init_def)
  from pz.reg_all_lookup [OF this, of sys_actions] obtain srv where
    "reg_all (register demo_env) sys_actions (pzmq_server ''sys'') = Inr srv" by blast
  moreover have "replicate 4 False = [False, False, False, False]" by (simp add: eval_nat_numeral)
  ultimately show ?thesis
    using demo_fmt_ok
    by (simp add: start_unit_manager_def demo_cfg_def load_default_config_def sys_init_def all_work_def
        config_string_def remote_server_work_def safe_reading_int_def is_int32_def vec_resize_def config_ok_def
        Let_def)
qed

lemma demo_registers:
  assumes "config_ok st" "port_list st = [False, False, False, False]"
  shows "\<exists>v i j u. run_sys demo_env A_register_unit \<lparr>msg = ''llm''\<rparr> st = (Inr v, allocated i j u st) \<and>
    fresh_unit ''llm'' i j u st"
proof -
  obtain p st1 where a: "sys_allocate_unit demo_env ''llm'' st = Inr (p, st1)"
    using sys_allocate_unit_total [OF assms(1) demo_env_up, of "''llm''" 0 1] assms(2)
    by (auto simp: printable_def)
  from sys_allocate_unit_Inr [OF assms(1) a] obtain u where "map_of (unit_heap st1) p = Some u"
    by (auto simp: allocated_def safe_setting_def)
  with a have "\<not> (\<exists>e. rpc_allocate_unit demo_env \<lparr>msg = ''llm''\<rparr> st = (Inl e, st))"
    by (simp add: rpc_allocate_unit_def pzmq_data_string_def)
  with rpc_allocate_unit_eq [OF assms(1), of demo_env "\<lparr>msg = ''llm''\<rparr>"] show ?thesis
    by (auto simp: run_sys_def pzmq_data_string_def)
qed

theorem units_hold_exclusive_ports_witness:
  "\<exists>st0 st p u i j. start_unit_manager demo_env demo_cfg = Inr st0 \<and>
     sys_reach demo_env (\<lambda>_. None) st0 st \<and>
     map_of (key_sql st) ''llm.0'' = Some (AUnit p) \<and> map_of (unit_heap st) p = Some u \<and>
     unit_slots st u = [Some i, Some j] \<and> i \<noteq> j"
proof -
  obtain st0 where st0: "start_unit_manager demo_env demo_cfg = Inr st0" "config_ok st0"
    "port_list st0 = [False, False, False, False]" "work_id_number_counter st0 = 0"
    using demo_start by blast
  from demo_registers [OF st0(2,3)] obtain v i j u where
    r: "run_sys demo_env A_register_unit \<lparr>msg = ''llm''\<rparr> st0 = (Inr v, allocated i j u st0)"
    and u: "fresh_unit ''llm'' i j u st0" by blast
  let ?st = "allocated i j u st0"
  have reach: "sys_reach demo_env (\<lambda>_. None) st0 ?st"
    using sys_step.rpc [OF r] by (blast intro: sys_reach.intros)
  have "work_id u = ''llm.0''"
    using u st0(4) by (simp add: fresh_unit_def to_string_def nat_to_string_zero)
  then have k: "map_of (key_sql ?st) ''llm.0'' = Some (AUnit (next_addr st0))"
    by (simp add: allocated_def safe_setting_def)
  obtain u1 i1 j1 where w: "map_of (unit_heap ?st) (next_addr st0) = Some u1" "unit_slots ?st u1 = [Some i1, Some j1]" "i1 \<noteq> j1"
    using units_hold_exclusive_ports [OF st0(1,2) reach k k] by (elim exE conjE)
  show ?thesis by (intro exI conjI) (rule st0(1) reach k w)+
qed

lemma inference_published:
  assumes "sj json = Some doc" and "doc ''request_id'' = Some rid" and "doc ''work_id'' = Some wid"
    and "doc ''action'' = Some ''inference''" and "wid \<noteq> []" and "json = CHR ''{'' # rest"
    and "sprintf_i 128 (zmq_c_format st) com_id = Inr url" and "length json \<le> 2147482000"
    and "quote_c \<notin> set url" and "backslash_c \<notin> set url"
    and "map_of (key_sql st) wid = Some (AUnit p)" and "map_of (unit_heap st) p = Some u"
    and "user_inference_chennal u = Some ch"
  shows "unit_action_match env sj now com_id json st =
      Inr ([], st\<lparr>unit_heap := umap_set p
        (u\<lparr>user_inference_chennal := Some (send_data (inference_prefix url @ rest) ch)\<rparr>) (unit_heap st)\<rparr>) \<and>
    sample_json_str_get (inference_prefix url @ rest) ''zmq_com'' = Inr url"
proof -
  have "length url < 128"
    using assms(7) by (auto simp: sprintf_i_def res_simps split: if_splits)
  then have "length url + length json < 2147483647" "length url + length rest \<le> 2147483000"
    using assms(6,8) by simp_all
  with inference_raw_data_eq [of json url] inference_prefix_scan [OF assms(9,10)] assms push_to_live [OF assms(12,13)]
  show ?thesis
    by (simp add: unit_action_match_def zmq_bus_publisher_push_def safe_reading_unit_def log_level_def
        SAMPLE_LOG_WARN_def SAMPLE_LOG_INFO_def)
qed

text \<open>
  C13. An inference message for a live unit is delivered: exactly one message is published on that
  unit's channel, nothing is sent back and nothing else changes. The message is the client's object
  with its reply address spliced in front, and the node's scanner reads that address back.
\<close>

theorem inference_delivered:
  assumes "sj json = Some doc" and "doc ''request_id'' = Some rid" and "doc ''work_id'' = Some wid"
    and "doc ''action'' = Some ''inference''" and "wid \<noteq> []" and "json = CHR ''{'' # rest"
    and "sprintf_i 128 (zmq_c_format st) com_id = Inr url" and "length json \<le> 2147482000"
    and "quote_c \<notin> set url" and "backslash_c \<notin> set url"
    and "map_of (key_sql st) wid = Some (AUnit p)" and "map_of (unit_heap st) p = Some u"
    and "user_inference_chennal u = Some ch"
  shows "unit_action_match env sj now com_id json st =
      Inr ([], st\<lparr>unit_heap := umap_set p
        (u\<lparr>user_inference_chennal := Some (send_data (inference_prefix url @ rest) ch)\<rparr>) (unit_heap st)\<rparr>) \<and>
    sample_json_str_get (inference_prefix url @ rest) ''zmq_com'' = Inr url"
  by (rule inference_published) (fact assms)+

definition demo_doc :: "string \<Rightarrow> string \<Rightarrow> sj_reader" where
  "demo_doc wid action = (\<lambda>_. Some (\<lambda>k.
     if k = ''request_id'' then Some ''1'' else if k = ''work_id'' then Some wid
     else if k = ''action'' then Some action else None))"

definition demo_unit_sys :: sys_state where
  "demo_unit_sys = demo_sys\<lparr>key_sql := [(''llm.0'', AUnit 1)],
     unit_heap := [(1, \<lparr>user_inference_chennal = Some (pzmq_init (Some ZMQ_PUB) [] []), work_id = ''llm.0'',
       output_url = ''ipc:///tmp/llm/5010.sock'', inference_url = ''ipc:///tmp/llm/5011.sock'', unit_port = 0\<rparr>)]\<rparr>"

lemma demo_push_url: "sprintf_i 128 (zmq_c_format demo_sys) 8000 = Inr (''ipc:///tmp/llm/'' @ to_string 8000 @ ''.sock'')"
proof -
  have "length (to_string 8000) \<le> 11" by (rule length_to_string) (simp add: is_int32_def)
  then show ?thesis
    using sprintf_i_conv [of "''ipc:///tmp/llm/''" "''.sock''" "CHR ''i''" 8000 128]
    by (simp add: demo_sys_def printable_def)
qed

theorem inference_delivered_witness:
  "\<exists>st'. unit_action_match demo_env (demo_doc ''llm.0'' ''inference'') 0 8000 ''{}'' demo_unit_sys = Inr ([], st')"
  using inference_delivered [of "demo_doc ''llm.0'' ''inference''" "''{}''" _ "''1''" "''llm.0''" "''}''" demo_unit_sys 8000
      "''ipc:///tmp/llm/'' @ to_string 8000 @ ''.sock''" 1 _ _ demo_env 0] demo_push_url
  by (simp add: demo_doc_def demo_unit_sys_def)

text \<open>
  An inference message for a work identifier that names no unit is dropped silently: nothing is
  published, no error goes back to the client, and the message counts as delivered. The \<^verbatim>\<open>else\<close> branch
  that should report it belongs to the expansion of the logging macro.
\<close>

theorem inference_unknown_unit_silent:
  assumes "sj json = Some doc" and "doc ''request_id'' = Some rid" and "doc ''work_id'' = Some wid"
    and "doc ''action'' = Some ''inference''" and "wid \<noteq> []" and "json \<noteq> []"
    and "sprintf_i 128 (zmq_c_format st) com_id = Inr url" and "length json \<le> 2147482000"
    and "safe_reading_unit None wid st = None"
  shows "unit_action_match env sj now com_id json st = Inr ([], st)"
proof -
  have "length url < 128"
    using assms(7) by (auto simp: sprintf_i_def res_simps split: if_splits)
  then have "length url + length json < 2147483647" using assms(8) by simp
  with inference_raw_data_eq [of json url] assms show ?thesis
    by (simp add: unit_action_match_def zmq_bus_publisher_push_def log_level_def
        SAMPLE_LOG_WARN_def SAMPLE_LOG_INFO_def)
qed

theorem inference_unknown_unit_silent_witness:
  "unit_action_match demo_env (demo_doc ''tts.9'' ''inference'') 0 8000 ''{}'' demo_unit_sys = Inr ([], demo_unit_sys)"
  using inference_unknown_unit_silent [of "demo_doc ''tts.9'' ''inference''" "''{}''" _ "''1''" "''tts.9''" demo_unit_sys 8000
      "''ipc:///tmp/llm/'' @ to_string 8000 @ ''.sock''" demo_env 0] demo_push_url
  by (simp add: demo_doc_def demo_unit_sys_def safe_reading_unit_def)

text \<open>
  A client message with an empty work identifier and any action but \<^verbatim>\<open>inference\<close> ends the process:
  the dispatcher replaces the empty identifier by \<^verbatim>\<open>sys\<close>, but \<^verbatim>\<open>remote_call\<close> reads it from the text again
  and throws, and \<^verbatim>\<open>onMessage\<close> lets the exception pass.
\<close>

theorem empty_work_id_escapes:
  assumes "sj (select_json_str m id) = Some doc" and "doc ''request_id'' = Some rid" and "doc ''work_id'' = Some []"
    and "doc ''action'' = Some action" and "action \<noteq> ''inference''"
    and "retrieveAllAsString buf = Inr (m, buf')"
  shows "onMessage env sj now (Some session) buf st =
    Inl (Runtime_Error ''Invalid JSON: missing work_id or action'')"
  using assms
  by (auto simp: onMessage_def on_data_def unit_action_match_def remote_call_def sj_string_def select_json_str_def Let_def)

theorem empty_work_id_escapes_witness:
  "onMessage demo_env (demo_doc [] ''taskinfo'') 0 (Some zmq_bus_com_ctor)
     \<lparr>buffer = replicate 8 CHR 0x00 @ ''{}'', readerIndex = 8, writerIndex = 10\<rparr> demo_sys =
   Inl (Runtime_Error ''Invalid JSON: missing work_id or action'')"
  by (rule empty_work_id_escapes [of "demo_doc [] ''taskinfo''" "''{}''" _ "''1''" "''taskinfo''", OF demo_doc_def [THEN fun_cong]])
    (simp_all add: demo_doc_def retrieveAllAsString_def retrieveAsString_def readableBytes_def sz_sub_def
      peek_def mem_read_def retrieve_def retrieveAll_def kCheapPrepend_def)

text \<open>
  C37. A message that is not JSON or lacks one of the string members \<^verbatim>\<open>request_id\<close>, \<^verbatim>\<open>work_id\<close> and \<^verbatim>\<open>action\<close>
  changes nothing and is answered once: a push socket is connected to the client's address, a line is sent,
  and the socket is closed. Without its newline, the line parses to an object whose member \<^verbatim>\<open>error\<close> has the code -2.
\<close>

theorem malformed_message_reported:
  assumes "case sj json of None \<Rightarrow> True
      | Some doc \<Rightarrow> doc ''request_id'' = None \<or> doc ''work_id'' = None \<or> doc ''action'' = None"
    and "zmq_up env" and "sprintf_i 128 (zmq_c_format st) com_id = Inr url" and "2 \<le> length url"
  shows "\<exists>tx. unit_action_match env sj now com_id json st = Inr ([push_once_calls url (tx @ [CHR 0x0A])], st) \<and>
    bind_res (json_parse tx) (\<lambda>v. bind_res (json_at ''error'' v) (json_at ''code'')) = Inr (JNum (-2))"
proof -
  let ?v = "error_reply ''0'' ''sys'' now (error_object (-2) ''json format error'')"
  have "utf8 ''0''" "utf8 ''sys''" by (simp_all add: utf8_ascii)
  note reply = usr_print_error_ok [OF assms(2-4) this, of msg_json_error "-2" "''json format error''" now] error_reply_read [OF this, of "''json format error''" "-2" now]
  have "unit_action_match env sj now com_id json st = Inr ([push_once_calls url (json_text ?v @ [CHR 0x0A])], st)"
    using assms(1) reply(1) messages_parsed(1) by (auto simp: unit_action_match_def utf8_ascii is_int32_def split: option.splits)
  with reply(2) show ?thesis by (auto simp: utf8_ascii is_int32_def)
qed

theorem malformed_message_reported_witness:
  "\<exists>tx. unit_action_match demo_env (\<lambda>_. None) 0 8000 ''nonsense'' demo_sys =
     Inr ([push_once_calls (''ipc:///tmp/llm/'' @ to_string 8000 @ ''.sock'') (tx @ [CHR 0x0A])], demo_sys)"
  using malformed_message_reported [of "\<lambda>_. None" "''nonsense''" demo_env demo_sys 8000
      "''ipc:///tmp/llm/'' @ to_string 8000 @ ''.sock''" 0] demo_push_url demo_env_up
  by auto

text \<open>
  C39. The address of a unit is used after the lock of the table is given back: when another thread
  releases the unit between the lookup in \<^verbatim>\<open>zmq_bus_publisher_push\<close> and the send, the send goes through
  a deleted object. Without such a release the send is defined.
\<close>

theorem push_races_with_release:
  assumes inv: "sys_inv st" and p: "safe_reading_unit None wid st = Some p"
  shows "(\<exists>st'. push_to p json st = Inr st') \<and>
    (\<exists>st'. sys_release_unit env wid st = Inr (0, st') \<and> push_to p json st' = Inl Undefined_Behaviour)"
proof
  from p have k: "map_of (key_sql st) wid = Some (AUnit p)"
    by (auto simp: safe_reading_unit_def split: option.splits any.splits)
  with inv obtain u where u: "map_of (unit_heap st) p = Some u" unfolding sys_inv_def by blast
  then have "channel_ok u" using inv map_of_SomeD [OF u] by (auto simp: sys_inv_def)
  then obtain ch where "user_inference_chennal u = Some ch" by (auto simp: channel_ok_def)
  from push_to_live [OF u this, of json] show "\<exists>st'. push_to p json st = Inr st'" by blast
  from sys_release_unit_live [OF inv k, of env] obtain i j where
    "sys_release_unit env wid st = Inr (0, released wid p i j st)" by blast
  moreover have "push_to p json (released wid p i j st) = Inl Undefined_Behaviour"
    by (simp add: push_to_def released_def safe_erase_def)
  ultimately show "\<exists>st'. sys_release_unit env wid st = Inr (0, st') \<and> push_to p json st' = Inl Undefined_Behaviour"
    by blast
qed

theorem push_races_with_release_witness:
  "\<exists>st0 v st wid p st'. start_unit_manager demo_env demo_cfg = Inr st0 \<and>
     run_sys demo_env A_register_unit \<lparr>msg = ''llm''\<rparr> st0 = (Inr v, st) \<and>
     sys_release_unit demo_env wid st = Inr (0, st') \<and> push_to p ''x'' st' = Inl Undefined_Behaviour"
proof -
  obtain st0 where st0: "start_unit_manager demo_env demo_cfg = Inr st0" "config_ok st0"
    "port_list st0 = [False, False, False, False]"
    using demo_start by blast
  from demo_registers [OF st0(2,3)] obtain v i j u where
    r: "run_sys demo_env A_register_unit \<lparr>msg = ''llm''\<rparr> st0 = (Inr v, allocated i j u st0)" by blast
  have "sys_inv (allocated i j u st0)"
    using run_sys_inv [OF start_unit_manager_inv [OF st0(1,2)], of demo_env A_register_unit "\<lparr>msg = ''llm''\<rparr>"] r by simp
  moreover have "safe_reading_unit None (work_id u) (allocated i j u st0) = Some (next_addr st0)"
    by (simp add: safe_reading_unit_def allocated_def safe_setting_def)
  ultimately show ?thesis using push_races_with_release [of "allocated i j u st0" "work_id u" "next_addr st0" "''x''" demo_env] st0 r
    by blast
qed

lemma bus_work_ok:
  assumes "zmq_up env" and "one_conv fmt pre suf" and "2 \<le> length pre"
  shows "\<exists>z. bus_work env fmt port b = Inr (b\<lparr>bus_port := port, exit_flage := 1,
    bus_zmq_url := pre @ to_string port @ suf, user_chennal := Some z\<rparr>) \<and> zmq_url z = pre @ to_string port @ suf"
proof -
  from assms(2) obtain d where d: "fmt = pre @ CHR ''%'' # d # suf" "d = CHR ''i'' \<or> d = CHR ''d''"
    and lit: "printable pre" "printable suf"
    by (auto simp: one_conv_def literal_printable)
  let ?url = "pre @ to_string port @ suf"
  have pr: "sprintf_i (length fmt + length (to_string port)) fmt port = Inr ?url"
    using sprintf_i_conv [OF lit d(2), of port "length fmt + length (to_string port)"] d(1) by simp
  have up: "\<exists>k. ctx_new env k" "\<exists>k. socket_new env k" using assms(1) by (simp_all add: zmq_up_def)
  obtain j where j: "retry (ctx_new env) 0 = Some j" using retry_obtain [OF up(1)] .
  obtain k where k: "retry (socket_new env) 0 = Some k" using retry_obtain [OF up(2)] .
  have "2 \<le> length ?url" using assms(3) by simp
  with j k have "\<exists>z :: unit pzmq. pzmq_socket env ?url ZMQ_PULL = Inr z \<and> zmq_url z = ?url"
    by (auto simp: pzmq_socket_def str_at_def creat_def creat_pull_def spawn_loop_def Let_def zmq_mode_defs
        pzmq_init_def nth_append)
  with pr show ?thesis by (auto simp: bus_work_def)
qed

text \<open>
  Every client session gets a port number between 8000 and 65535 and a pull socket on the address
  of that number, and the counter stays in that range.
\<close>

theorem session_port_range:
  assumes "zmq_up env" and "one_conv (zmq_s_format st) pre suf" and "2 \<le> length pre"
    and "8000 \<le> c" and "c \<le> 65535"
  shows "\<exists>session c'. onConnection_up env st c = Inr (session, c') \<and> bus_port session = c \<and>
    bus_zmq_url session = pre @ to_string c @ suf \<and> user_chennal session \<noteq> None \<and> 8000 \<le> c' \<and> c' \<le> 65535"
proof -
  from bus_work_ok [OF assms(1-3)] obtain z where "bus_work env (zmq_s_format st) c zmq_bus_com_ctor =
    Inr (zmq_bus_com_ctor\<lparr>bus_port := c, exit_flage := 1, bus_zmq_url := pre @ to_string c @ suf, user_chennal := Some z\<rparr>)"
    by blast
  moreover have "to_int32 (c + 1) = c + 1" using assms(4,5) by (simp add: is_int32_def)
  ultimately show ?thesis using assms(4,5) by (simp add: onConnection_up_def)
qed

theorem session_port_range_witness:
  "\<exists>session c'. onConnection_up demo_env demo_sys 65535 = Inr (session, c') \<and> 8000 \<le> c'"
  using session_port_range [of demo_env demo_sys "''ipc:///tmp/llm/''" "''.sock''" 65535] demo_env_up demo_format
  by (auto simp: demo_sys_def)

end
