(* ===== verification/LlmChannel.thy ===== *)
theory LlmChannel
  imports Pzmq FlowUtil JsonValue
begin

text \<open>
  The channel of a task of a node (\<^verbatim>\<open>infra-controller/channel\<close>) and the call of another unit
  (\<^verbatim>\<open>unit_call\<close> of \<^verbatim>\<open>StackFlowUtil.cpp\<close>). A channel owns a publisher socket (key -1), the socket on which
  it pushes results to the user (key -2), a subscription per input task (keys from 0) and
  subscriptions to addresses (keys from -1000 downwards), all in one table. Callbacks are values of
  a type \<open>'c\<close>; destroyed sockets are kept, with their calls, in a history field. The clock is the
  parameter \<open>now\<close>, a 64-bit \<^verbatim>\<open>time_t\<close>.
\<close>

section \<open>Calling a unit\<close>

definition unit_call :: "zenv \<Rightarrow> string \<Rightarrow> string \<Rightarrow> string \<Rightarrow> string res" where
  "unit_call env unit_nm unit_action data =
     (case call_rpc_action env unit_action data (\<lambda>raw value. (Inr (), pzmq_data_string raw)) [] (pzmq_server unit_nm :: unit pzmq) of
        (r, value, s) \<Rightarrow> bind_res (pzmq_dtor env s) (\<lambda>_. bind_res r (\<lambda>_. Inr value)))"

text \<open>The version with a callback, which acts on the caller's state \<open>w\<close>.\<close>

definition unit_call_cb ::
    "zenv \<Rightarrow> string \<Rightarrow> string \<Rightarrow> string \<Rightarrow> (pzmq_data \<Rightarrow> 'w \<Rightarrow> unit res \<times> 'w) \<Rightarrow> 'w \<Rightarrow> 'w res" where
  "unit_call_cb env unit_nm unit_action data cb w =
     (case call_rpc_action env unit_action data cb w (pzmq_server unit_nm :: unit pzmq) of
        (r, w', s) \<Rightarrow> bind_res (pzmq_dtor env s) (\<lambda>_. bind_res r (\<lambda>_. Inr w')))"

section \<open>Messages\<close>

text \<open>The body of a message: the fields that both \<^verbatim>\<open>send\<close> functions assign, in their order.\<close>

definition out_body :: "string \<Rightarrow> string \<Rightarrow> 64 word \<Rightarrow> string \<Rightarrow> json \<Rightarrow> string \<Rightarrow> json" where
  "out_body request_id wid now object data error_msg =
     JObj [(''request_id'', JStr request_id), (''work_id'', JStr wid), (''created'', JNum (sint now)), (''object'', JStr object),
           (''data'', data),
           (''error'', if error_msg = [] then JObj [(''code'', JNum 0), (''message'', JStr [])] else JStr error_msg)]"

section \<open>The channel\<close>

record 'c llm_channel_obj =
  lc_zmq :: "(int, (unit pzmq \<times> 'c option) option) umap"
  zmq_url_index :: int
  zmq_url_map :: "(string, int) umap"
  lc_unit_name :: string
  enoutput :: "bool option"
  enstream :: "bool option"
  request_id :: string
  lc_work_id :: string
  lc_inference_url :: string
  lc_publisher_url :: string
  lc_output_url :: string
  lc_gone :: "unit pzmq list"

text \<open>\<^verbatim>\<open>enoutput_\<close> and \<^verbatim>\<open>enstream_\<close> are not initialised.\<close>

definition llm_channel_ctor :: "zenv \<Rightarrow> string \<Rightarrow> string \<Rightarrow> string \<Rightarrow> 'c llm_channel_obj res" where
  "llm_channel_ctor env pub infer nm =
     bind_res (pzmq_socket env pub ZMQ_PUB) (\<lambda>s.
       Inr \<lparr>lc_zmq = [(-1, Some (s, None)), (-2, None)], zmq_url_index = -1000, zmq_url_map = [], lc_unit_name = nm,
            enoutput = None, enstream = None, request_id = [], lc_work_id = [], lc_inference_url = infer,
            lc_publisher_url = pub, lc_output_url = [], lc_gone = []\<rparr>)"

definition slot :: "'c llm_channel_obj \<Rightarrow> int \<Rightarrow> (unit pzmq \<times> 'c option) option" where
  "slot ch k = (case map_of (lc_zmq ch) k of None \<Rightarrow> None | Some e \<Rightarrow> e)"

text \<open>The end of the last pointer to a socket.\<close>

definition lc_drop :: "zenv \<Rightarrow> (unit pzmq \<times> 'c option) option \<Rightarrow> 'c llm_channel_obj \<Rightarrow> 'c llm_channel_obj res" where
  "lc_drop env e ch =
     (case e of None \<Rightarrow> Inr ch
      | Some (s, _) \<Rightarrow> bind_res (pzmq_dtor env s) (\<lambda>s'. Inr (ch\<lparr>lc_gone := lc_gone ch @ [s']\<rparr>)))"

text \<open>\<^verbatim>\<open>zmq_[k] = e\<close> and \<^verbatim>\<open>zmq_.erase(k)\<close>.\<close>

definition lc_put :: "zenv \<Rightarrow> int \<Rightarrow> (unit pzmq \<times> 'c option) option \<Rightarrow> 'c llm_channel_obj \<Rightarrow> 'c llm_channel_obj res" where
  "lc_put env k e ch =
     bind_res (lc_drop env (slot ch k) ch) (\<lambda>ch1. Inr (ch1\<lparr>lc_zmq := umap_set k e (lc_zmq ch1)\<rparr>))"

definition lc_erase :: "zenv \<Rightarrow> int \<Rightarrow> 'c llm_channel_obj \<Rightarrow> 'c llm_channel_obj res" where
  "lc_erase env k ch =
     bind_res (lc_drop env (slot ch k) ch) (\<lambda>ch1. Inr (ch1\<lparr>lc_zmq := umap_erase k (lc_zmq ch1)\<rparr>))"

definition lc_set_output :: "bool \<Rightarrow> 'c llm_channel_obj \<Rightarrow> 'c llm_channel_obj" where
  "lc_set_output b ch = ch\<lparr>enoutput := Some b\<rparr>"

definition lc_set_stream :: "bool \<Rightarrow> 'c llm_channel_obj \<Rightarrow> 'c llm_channel_obj" where
  "lc_set_stream b ch = ch\<lparr>enstream := Some b\<rparr>"

definition lc_flag :: "bool option \<Rightarrow> bool res" where
  "lc_flag f = (case f of None \<Rightarrow> Inl Undefined_Behaviour | Some b \<Rightarrow> Inr b)"

section \<open>Pushing\<close>

definition set_push_url :: "zenv \<Rightarrow> string \<Rightarrow> 'c llm_channel_obj \<Rightarrow> 'c llm_channel_obj res" where
  "set_push_url env url ch =
     (if lc_output_url ch \<noteq> url
      then bind_res (pzmq_socket env url ZMQ_PUSH) (\<lambda>s. lc_put env (-2) (Some (s, None)) (ch\<lparr>lc_output_url := url\<rparr>))
      else Inr ch)"

definition cear_push_url :: "zenv \<Rightarrow> 'c llm_channel_obj \<Rightarrow> 'c llm_channel_obj res" where
  "cear_push_url env ch = lc_put env (-2) None ch"

text \<open>
  Sending through a slot. The result \<open>Some (-1)\<close> is the code's own error; otherwise the result is what
  \<^verbatim>\<open>zmq_send\<close> gives, here \<^const>\<open>None\<close>. \<^verbatim>\<open>operator[]\<close> enters a null pointer under a missing key.
\<close>

definition send_raw_to_pub :: "string \<Rightarrow> 'c llm_channel_obj \<Rightarrow> (int option \<times> 'c llm_channel_obj) res" where
  "send_raw_to_pub raw ch =
     (case slot ch (-1) of None \<Rightarrow> Inl Null_Deref
      | Some (s, c) \<Rightarrow> Inr (None, ch\<lparr>lc_zmq := umap_set (-1) (Some (send_data raw s, c)) (lc_zmq ch)\<rparr>))"

definition send_raw_to_usr :: "string \<Rightarrow> 'c llm_channel_obj \<Rightarrow> int option \<times> 'c llm_channel_obj" where
  "send_raw_to_usr raw ch =
     (case slot ch (-2) of None \<Rightarrow> (Some (-1), ch\<lparr>lc_zmq := umap_set (-2) None (lc_zmq ch)\<rparr>)
      | Some (s, c) \<Rightarrow> (None, ch\<lparr>lc_zmq := umap_set (-2) (Some (send_data raw s, c)) (lc_zmq ch)\<rparr>))"

definition send_raw_for_url :: "zenv \<Rightarrow> string \<Rightarrow> string \<Rightarrow> unit pzmq res" where
  "send_raw_for_url env url raw = bind_res (pzmq_socket env url ZMQ_PUSH) (\<lambda>s. pzmq_dtor env (send_data raw s))"

text \<open>The value that \<^verbatim>\<open>send\<close> builds; printing it can throw.\<close>

definition lc_body :: "64 word \<Rightarrow> string \<Rightarrow> json \<Rightarrow> string \<Rightarrow> string \<Rightarrow> 'c llm_channel_obj \<Rightarrow> json" where
  "lc_body now object data error_msg wid ch =
     out_body (request_id ch) (if wid = [] then lc_work_id ch else wid) now object data error_msg"

definition lc_send ::
    "64 word \<Rightarrow> string \<Rightarrow> json \<Rightarrow> string \<Rightarrow> string \<Rightarrow> 'c llm_channel_obj \<Rightarrow> (int option \<times> 'c llm_channel_obj) res" where
  "lc_send now object data error_msg wid ch =
     bind_res (json_dump (lc_body now object data error_msg wid ch)) (\<lambda>txt.
     let out = txt @ [CHR 0x0A]
      in bind_res (send_raw_to_pub out ch) (\<lambda>(_, ch1).
         bind_res (lc_flag (enoutput ch1)) (\<lambda>b.
         Inr (if b then send_raw_to_usr out ch1 else (Some 0, ch1)))))"

text \<open>A message is printed when its texts are well-formed.\<close>

lemma json_ok_out_body [simp]:
  "json_ok (out_body rid wid now ob d e) \<longleftrightarrow> utf8 rid \<and> utf8 wid \<and> utf8 ob \<and> json_ok d \<and> utf8 e"
proof -
  have "- (2 ^ 63) \<le> sint now" "sint now < 2 ^ 63" using sint_greater_eq [of now] sint_less [of now] by simp_all
  then have "- (2 ^ 63) \<le> sint now \<and> sint now < 2 ^ 64" by simp
  moreover have "utf8 ''request_id''" "utf8 ''work_id''" "utf8 ''created''" "utf8 ''object''" "utf8 ''data''" "utf8 ''error''"
    "utf8 ''code''" "utf8 ''message''" "utf8 []"
    by (simp_all add: utf8_ascii)
  ultimately show ?thesis by (auto simp: out_body_def)
qed

definition line :: "json \<Rightarrow> string" where
  "line v = json_text v @ [CHR 0x0A]"

section \<open>Subscriptions\<close>

definition action_key :: string where
  "action_key = find_key ''action''"

text \<open>
  The search for an unescaped \<^verbatim>\<open>"action"\<close>: the next search starts \<^verbatim>\<open>sizeof\<close> a pointer, 8 bytes, further,
  which is the length of the key.
\<close>

function action_scan :: "string \<Rightarrow> nat \<Rightarrow> bool" where
  "action_scan raw start =
     (case str_find raw action_key start of
        None \<Rightarrow> False
      | Some pos \<Rightarrow> if pos > 0 \<and> raw ! (pos - 1) \<noteq> backslash_c then True else action_scan raw (pos + 8))"
  by pat_completeness auto
termination
  by (relation "measure (\<lambda>(raw, start). Suc (length raw) - start)") (auto dest: str_find_bounds)

declare action_scan.simps [simp del]

text \<open>
  A message on a subscription: the reply address, request and task are taken from a message that
  names an action; the result is what the callback is called with.
\<close>

definition subscriber_event_call ::
    "zenv \<Rightarrow> pzmq_data \<Rightarrow> 'c llm_channel_obj \<Rightarrow> ((string \<times> string) \<times> 'c llm_channel_obj) res" where
  "subscriber_event_call env d ch =
     (let raw = pzmq_data_string d in
      bind_res (if action_scan raw 0
                then bind_res (sample_json_str_get raw ''zmq_com'') (\<lambda>zmq_com.
                     bind_res (if zmq_com \<noteq> [] then set_push_url env zmq_com ch else Inr ch) (\<lambda>ch1.
                     bind_res (sample_json_str_get raw ''request_id'') (\<lambda>rid.
                     bind_res (sample_json_str_get raw ''work_id'') (\<lambda>wid.
                     Inr (ch1\<lparr>request_id := rid, lc_work_id := wid\<rparr>)))))
                else Inr ch) (\<lambda>ch2.
      bind_res (sample_json_str_get raw ''object'') (\<lambda>object.
      bind_res (sample_json_str_get raw ''data'') (\<lambda>data. Inr ((object, data), ch2)))))"

text \<open>The regular expression \<^verbatim>\<open>(\w+)\.(\d+)\<close> on the whole identifier: its two groups.\<close>

definition is_word :: "char \<Rightarrow> bool" where
  "is_word c \<longleftrightarrow> (let n = of_char c :: nat in 48 \<le> n \<and> n \<le> 57 \<or> 65 \<le> n \<and> n \<le> 90 \<or> 97 \<le> n \<and> n \<le> 122 \<or> n = 95)"

definition work_id_match :: "string \<Rightarrow> (string \<times> string) option" where
  "work_id_match s =
     (let a = takeWhile is_word s in
      case dropWhile is_word s of
        [] \<Rightarrow> None
      | c # b \<Rightarrow> if c = CHR ''.'' \<and> a \<noteq> [] \<and> b \<noteq> [] \<and> list_all is_digit b then Some (a, b) else None)"

definition subscriber_work_id :: "zenv \<Rightarrow> string \<Rightarrow> 'c \<Rightarrow> 'c llm_channel_obj \<Rightarrow> (int \<times> 'c llm_channel_obj) res" where
  "subscriber_work_id env wid call ch =
     (let subscribe = (\<lambda>id_num url. bind_res (pzmq_socket env url ZMQ_SUB) (\<lambda>s.
            bind_res (lc_put env id_num (Some (s, Some call)) ch) (\<lambda>ch1. Inr (0, ch1))))
      in case (if wid \<noteq> [] then work_id_match wid else None) of
           Some (_, num) \<Rightarrow>
             bind_res (stoi num) (\<lambda>id_num.
             bind_res (unit_call env ''sys'' ''sql_select'' (wid @ ''.out_port'')) (\<lambda>input_url.
             if input_url = [] then Inr (-1, ch) else subscribe id_num input_url))
         | None \<Rightarrow> subscribe 0 (lc_inference_url ch))"

definition stop_subscriber_work_id :: "zenv \<Rightarrow> string \<Rightarrow> 'c llm_channel_obj \<Rightarrow> 'c llm_channel_obj res" where
  "stop_subscriber_work_id env wid ch =
     bind_res (case work_id_match wid of Some (_, num) \<Rightarrow> stoi num | None \<Rightarrow> Inr 0) (\<lambda>id_num.
       if map_of (lc_zmq ch) id_num \<noteq> None then lc_erase env id_num ch else Inr ch)"

text \<open>\<^verbatim>\<open>zmq_url_index_--\<close> on an atomic \<^verbatim>\<open>int\<close> wraps around.\<close>

definition subscriber :: "zenv \<Rightarrow> string \<Rightarrow> 'c \<Rightarrow> 'c llm_channel_obj \<Rightarrow> 'c llm_channel_obj res" where
  "subscriber env url call ch =
     (let k = zmq_url_index ch;
          ch1 = ch\<lparr>zmq_url_map := umap_set url k (zmq_url_map ch), zmq_url_index := to_int32 (k - 1)\<rparr>
      in bind_res (pzmq_socket env url ZMQ_SUB) (\<lambda>s. lc_put env k (Some (s, Some call)) ch1))"

fun drop_all :: "zenv \<Rightarrow> (int, (unit pzmq \<times> 'c option) option) umap \<Rightarrow> 'c llm_channel_obj \<Rightarrow> 'c llm_channel_obj res" where
  "drop_all env [] ch = Inr ch"
| "drop_all env ((k, e) # es) ch = bind_res (lc_drop env e ch) (drop_all env es)"

definition stop_subscriber :: "zenv \<Rightarrow> string \<Rightarrow> 'c llm_channel_obj \<Rightarrow> 'c llm_channel_obj res" where
  "stop_subscriber env url ch =
     (if url = []
      then bind_res (drop_all env (lc_zmq ch) ch) (\<lambda>ch1. Inr (ch1\<lparr>lc_zmq := [], zmq_url_map := []\<rparr>))
      else case map_of (zmq_url_map ch) url of
             None \<Rightarrow> Inr ch
           | Some k \<Rightarrow> bind_res (lc_erase env k ch) (\<lambda>ch1. Inr (ch1\<lparr>zmq_url_map := umap_erase url (zmq_url_map ch1)\<rparr>)))"

definition llm_channel_dtor :: "zenv \<Rightarrow> 'c llm_channel_obj \<Rightarrow> unit res" where
  "llm_channel_dtor env ch = bind_res (drop_all env (lc_zmq ch) ch) (\<lambda>_. Inr ())"

section \<open>The search for an action\<close>

lemma find_sub_least:
  "find_sub p s i = r \<Longrightarrow> i \<le> j \<Longrightarrow> (\<forall>k. r = Some k \<longrightarrow> j < k) \<Longrightarrow> j \<le> i + length s \<Longrightarrow>
   take (length p) (drop (j - i) s) \<noteq> p"
proof (induction p s i arbitrary: r rule: find_sub.induct)
  case (1 p i)
  then show ?case by (auto split: if_splits)
next
  case (2 p c cs i)
  show ?case
  proof (cases "take (length p) (c # cs) = p")
    case True
    with 2(2,3,4) show ?thesis by auto
  next
    case False
    show ?thesis
    proof (cases "j = i")
      case True
      with False show ?thesis by simp
    next
      case j: False
      with 2(3) have "Suc i \<le> j" by simp
      with 2(1) [OF False, of r] 2(2,4,5) False have "take (length p) (drop (j - Suc i) cs) \<noteq> p" by auto
      with \<open>Suc i \<le> j\<close> show ?thesis by (simp add: drop_Cons' Suc_diff_le)
    qed
  qed
qed

lemma str_find_least:
  assumes "pos \<le> j" and "j \<le> length s" and "\<forall>k. str_find s p pos = Some k \<longrightarrow> j < k"
  shows "take (length p) (drop j s) \<noteq> p"
  using find_sub_least [of p "drop pos s" pos "str_find s p pos" j] assms by (simp add: str_find_def)

text \<open>An occurrence of the key at a position.\<close>

definition action_at :: "string \<Rightarrow> nat \<Rightarrow> bool" where
  "action_at raw k \<longleftrightarrow> take 8 (drop k raw) = action_key"

lemma length_action_key [simp]: "length action_key = 8"
  by (simp add: action_key_def find_key_def)

lemma action_at_length: "action_at raw k \<Longrightarrow> k + 8 \<le> length raw"
  unfolding action_at_def by (drule arg_cong [where f = length]) simp

lemma action_at_nth: "action_at raw k \<Longrightarrow> d < 8 \<Longrightarrow> raw ! (k + d) = action_key ! d"
  using action_at_length [of raw k] unfolding action_at_def
  by (metis add_leD1 length_drop nth_drop nth_take)

lemma action_key_nth: "0 < d \<Longrightarrow> d < 7 \<Longrightarrow> action_key ! d \<noteq> quote_c" and action_key_quote: "action_key ! 0 = quote_c"
proof -
  assume "0 < d" "d < 7"
  then consider "d = 1" | "d = 2" | "d = 3" | "d = 4" | "d = 5" | "d = 6" by linarith
  then show "action_key ! d \<noteq> quote_c" by cases (simp_all add: action_key_def find_key_def)
qed (simp add: action_key_def find_key_def)

lemma action_no_overlap:
  assumes "action_at raw k" "action_at raw j" "k < j" "j < k + 7"
  shows False
proof -
  obtain d where d: "j = k + d" "0 < d" "d < 7" using assms(3,4) by (metis add_less_cancel_left less_imp_add_positive)
  from action_at_nth [OF assms(1), of d] action_at_nth [OF assms(2), of 0] d
  have "action_key ! d = action_key ! 0" by simp
  with action_key_nth [OF d(2,3)] action_key_quote show False by simp
qed

definition unescaped_action :: "string \<Rightarrow> nat \<Rightarrow> bool" where
  "unescaped_action raw k \<longleftrightarrow> 0 < k \<and> action_at raw k \<and> raw ! (k - 1) \<noteq> backslash_c"

lemma action_scan_from:
  "\<forall>k. action_at raw k \<longrightarrow> \<not> action_at raw (k + 7) \<Longrightarrow>
   action_scan raw start \<longleftrightarrow> (\<exists>k \<ge> start. unescaped_action raw k)"
proof (induction raw start rule: action_scan.induct)
  case (1 raw start)
  have least: "\<not> action_at raw k" if "start \<le> k" "\<forall>pos. str_find raw action_key start = Some pos \<longrightarrow> k < pos" for k
    using that action_at_length [of raw k] str_find_least [of start k raw action_key] by (auto simp: action_at_def)
  show ?case
  proof (cases "str_find raw action_key start")
    case None
    with least show ?thesis by (auto simp: action_scan.simps [of raw start] unescaped_action_def)
  next
    case (Some pos)
    have occ: "action_at raw pos" using str_find_at [OF Some] by (simp add: action_at_def)
    have sp: "start \<le> pos" using str_find_bounds [OF Some] by simp
    show ?thesis
    proof (cases "pos > 0 \<and> raw ! (pos - 1) \<noteq> backslash_c")
      case True
      with Some occ sp show ?thesis by (auto simp: action_scan.simps [of raw start] unescaped_action_def)
    next
      case False
      have "k \<ge> pos + 8" if k: "start \<le> k" "unescaped_action raw k" for k
      proof (rule ccontr)
        assume n: "\<not> pos + 8 \<le> k"
        have a: "action_at raw k" "k \<noteq> pos" using k(2) False by (auto simp: unescaped_action_def)
        have "\<not> k < pos" using least [OF k(1)] a(1) Some by auto
        with a(2) n have "k < pos + 7 \<or> k = pos + 7" "pos < k" by auto
        with action_no_overlap [OF occ a(1)] a(1) 1(2) occ show False by blast
      qed
      with sp have "(\<exists>k \<ge> start. unescaped_action raw k) \<longleftrightarrow> (\<exists>k \<ge> pos + 8. unescaped_action raw k)"
        by (meson add_leD1 le_trans)
      moreover have "action_scan raw start = action_scan raw (pos + 8)"
        using Some False by (subst action_scan.simps) auto
      ultimately show ?thesis using 1(1) [OF Some False 1(2)] by simp
    qed
  qed
qed

text \<open>
  The search of \<^verbatim>\<open>subscriber_event_call\<close> for an action always ends and decides what it is meant to
  decide: it finds one exactly when the key \<^verbatim>\<open>"action"\<close> occurs somewhere after the first character
  without a backslash before it, provided that no two occurrences share a quotation mark (which
  well-formed JSON text rules out, and which the jump of 8 bytes relies on).
\<close>

theorem action_scan_correct:
  assumes "\<forall>k. action_at raw k \<longrightarrow> \<not> action_at raw (k + 7)"
  shows "action_scan raw 0 \<longleftrightarrow> (\<exists>k. unescaped_action raw k)"
  using action_scan_from [OF assms, of 0] by simp

theorem action_scan_correct_witness:
  "action_scan (''{'' @ find_key ''action'' @ '':1}'') 0"
proof -
  let ?raw = "''{'' @ find_key ''action'' @ '':1}''"
  have "action_at ?raw k \<Longrightarrow> k = 1" for k
  proof -
    assume a: "action_at ?raw k"
    then have "k \<le> 4" using action_at_length [OF a] by (simp add: find_key_def)
    then consider "k = 0" | "k = 1" | "k = 2" | "k = 3" | "k = 4" by linarith
    then show "k = 1" using a by cases (simp_all add: action_at_def action_key_def find_key_def)
  qed
  then have "\<forall>k. action_at ?raw k \<longrightarrow> \<not> action_at ?raw (k + 7)" by fastforce
  moreover have "unescaped_action ?raw 1" by (simp add: unescaped_action_def action_at_def action_key_def find_key_def)
  ultimately show ?thesis using action_scan_correct [of ?raw] by blast
qed

section \<open>Sockets keep apart\<close>

lemma creat_url: "creat env url s = Inr (r, s') \<Longrightarrow> zmq_url s' = url"
  by (auto simp: creat_def Let_def creat_pub_def subscriber_url_def creat_push_def creat_pull_def creat_rep_def creat_req_def
      spawn_loop_def res_simps split: option.splits if_splits)

lemma pzmq_socket_url:
  assumes "pzmq_socket env url md = Inr s" and "md \<noteq> ZMQ_RPC_FUN"
  shows "zmq_url s = url"
  using assms creat_url [of env url] by (fastforce simp: pzmq_socket_def Let_def res_simps split: if_splits)

lemma creat_mode: "creat env url s = Inr (r, s') \<Longrightarrow> mode s' = mode s"
  by (auto simp: creat_def Let_def creat_pub_def subscriber_url_def creat_push_def creat_pull_def creat_rep_def creat_req_def
      spawn_loop_def res_simps split: option.splits if_splits)

lemma pzmq_socket_mode: "pzmq_socket env url ZMQ_PUSH = Inr s \<Longrightarrow> mode s = Some ZMQ_PUSH"
  using creat_mode [of env url] by (fastforce simp: pzmq_socket_def pzmq_init_def Let_def res_simps zmq_mode_defs split: if_splits)

lemma slot_put:
  assumes "lc_put env k e ch = Inr ch'"
  shows "slot ch' j = (if j = k then e else slot ch j)" and "zmq_url_map ch' = zmq_url_map ch" and "zmq_url_index ch' = zmq_url_index ch"
  using assms by (auto simp: lc_put_def lc_drop_def slot_def res_simps split: option.splits)

lemma slot_erase:
  assumes "lc_erase env k ch = Inr ch'"
  shows "slot ch' j = (if j = k then None else slot ch j)" and "zmq_url_map ch' = zmq_url_map ch" and "zmq_url_index ch' = zmq_url_index ch"
  using assms by (auto simp: lc_erase_def lc_drop_def slot_def res_simps split: option.splits)

lemma slot_simps [simp]:
  "slot (ch\<lparr>lc_output_url := u\<rparr>) = slot ch" "slot (ch\<lparr>request_id := u\<rparr>) = slot ch" "slot (ch\<lparr>lc_work_id := u\<rparr>) = slot ch"
  "slot (ch\<lparr>zmq_url_map := m\<rparr>) = slot ch" "slot (ch\<lparr>zmq_url_index := i\<rparr>) = slot ch"
  by (simp_all add: slot_def fun_eq_iff)

lemma stoi_digits_nonneg:
  assumes "list_all is_digit num" "num \<noteq> []" "stoi num = Inr z"
  shows "0 \<le> z"
proof -
  obtain c cs where n: "num = c # cs" using assms(2) by (cases num) auto
  with assms(1) have "\<not> is_space c" "c \<noteq> CHR ''-''" by (auto simp: is_digit_def is_space_def)
  with n have "fst (parse_sign (dropWhile is_space num)) = False" by (simp add: parse_sign_def)
  with assms(3) show ?thesis by (auto simp: stoi_def Let_def split: prod.splits if_splits)
qed

lemma work_id_match_digits: "work_id_match w = Some (a, b) \<Longrightarrow> list_all is_digit b \<and> b \<noteq> []"
  by (auto simp: work_id_match_def Let_def split: list.splits if_splits)

text \<open>What a step on the sockets with keys outside the publisher and the addresses does.\<close>

definition addr_ok :: "'c llm_channel_obj \<Rightarrow> bool" where
  "addr_ok ch \<longleftrightarrow> zmq_url_index ch \<le> -1000 \<and>
     (\<forall>u k. map_of (zmq_url_map ch) u = Some k \<longrightarrow> zmq_url_index ch < k \<and> k \<le> -1000 \<and>
        (\<exists>s c. slot ch k = Some (s, Some c) \<and> zmq_url s = u))"

definition same_low :: "'c llm_channel_obj \<Rightarrow> 'c llm_channel_obj \<Rightarrow> bool" where
  "same_low ch ch' \<longleftrightarrow> zmq_url_map ch' = zmq_url_map ch \<and> zmq_url_index ch' = zmq_url_index ch \<and>
     slot ch' (-1) = slot ch (-1) \<and> (\<forall>k \<le> -1000. slot ch' k = slot ch k)"

lemma same_low_refl [simp]: "same_low ch ch"
  by (simp add: same_low_def)

lemma same_low_addr_ok: "same_low ch ch' \<Longrightarrow> addr_ok ch \<Longrightarrow> addr_ok ch'"
  by (fastforce simp: same_low_def addr_ok_def)

lemma put_same_low: "lc_put env k e ch = Inr ch' \<Longrightarrow> k \<noteq> -1 \<Longrightarrow> -1000 < k \<Longrightarrow> same_low ch ch'"
  using slot_put [of env k e ch ch'] by (auto simp: same_low_def)

lemma erase_same_low: "lc_erase env k ch = Inr ch' \<Longrightarrow> k \<noteq> -1 \<Longrightarrow> -1000 < k \<Longrightarrow> same_low ch ch'"
  using slot_erase [of env k ch ch'] by (auto simp: same_low_def)

text \<open>The socket to the user, when there is one, is connected to the address that is kept beside it.\<close>

definition usr_ok :: "'c llm_channel_obj \<Rightarrow> bool" where
  "usr_ok ch \<longleftrightarrow> (case slot ch (-2) of None \<Rightarrow> lc_output_url ch = [] | Some (z, _) \<Rightarrow> zmq_url z = lc_output_url ch \<and> mode z = Some ZMQ_PUSH)"

lemma usr_ok_cong: "slot ch' (-2) = slot ch (-2) \<Longrightarrow> lc_output_url ch' = lc_output_url ch \<Longrightarrow> usr_ok ch' = usr_ok ch"
  by (simp add: usr_ok_def split: option.splits)

lemma usr_ok_fields [simp]:
  "usr_ok (ch\<lparr>request_id := a, lc_work_id := b\<rparr>) = usr_ok ch" "usr_ok (lc_set_output o1 ch) = usr_ok ch" "usr_ok (lc_set_stream o1 ch) = usr_ok ch"
  by (rule usr_ok_cong; simp add: slot_def lc_set_output_def lc_set_stream_def)+

lemma put_output_url: "lc_put env k e ch = Inr ch' \<Longrightarrow> lc_output_url ch' = lc_output_url ch"
  by (auto simp: lc_put_def lc_drop_def res_simps split: option.splits)

lemma usr_ok_put: "lc_put env k e ch = Inr ch' \<Longrightarrow> k \<noteq> -2 \<Longrightarrow> usr_ok ch' = usr_ok ch"
  using slot_put(1) [of env k e ch ch' "-2"] put_output_url by (intro usr_ok_cong) auto

lemma usr_ok_ctor: "llm_channel_ctor env pub infer nm = Inr ch \<Longrightarrow> usr_ok ch"
  by (auto simp: llm_channel_ctor_def usr_ok_def slot_def res_simps)

lemma set_push_url_usr:
  assumes "set_push_url env u ch = Inr ch'" and "usr_ok ch"
  shows "usr_ok ch' \<and> lc_output_url ch' = u"
proof (cases "lc_output_url ch = u")
  case False
  with assms(1) obtain s where s: "pzmq_socket env u ZMQ_PUSH = Inr s" "lc_put env (-2) (Some (s, None)) (ch\<lparr>lc_output_url := u\<rparr>) = Inr ch'"
    by (auto simp: set_push_url_def res_simps)
  from slot_put(1) [OF s(2), of "-2"] put_output_url [OF s(2)] pzmq_socket_url [OF s(1)] pzmq_socket_mode [OF s(1)] show ?thesis
    by (simp add: usr_ok_def zmq_mode_defs)
qed (use assms in \<open>simp add: set_push_url_def\<close>)

lemma set_push_url_low: "set_push_url env u ch = Inr ch' \<Longrightarrow> same_low ch ch'"
  using put_same_low [of env "-2" _ "ch\<lparr>lc_output_url := u\<rparr>" ch']
  by (auto simp: set_push_url_def res_simps same_low_def split: if_splits)

lemma cear_push_url_low: "cear_push_url env ch = Inr ch' \<Longrightarrow> same_low ch ch'"
  using put_same_low [of env "-2" None ch ch'] by (simp add: cear_push_url_def)

lemma subscriber_work_id_low: "subscriber_work_id env w c ch = Inr (r, ch') \<Longrightarrow> same_low ch ch'"
proof -
  assume a: "subscriber_work_id env w c ch = Inr (r, ch')"
  then obtain k s where "ch' = ch \<or> lc_put env k (Some (s, Some c)) ch = Inr ch' \<and> 0 \<le> k"
    using stoi_digits_nonneg
    by (fastforce simp: subscriber_work_id_def Let_def res_simps split: option.splits if_splits dest!: work_id_match_digits)
  then show ?thesis using put_same_low [of env k "Some (s, Some c)" ch ch'] by auto
qed

lemma stop_subscriber_work_id_low: "stop_subscriber_work_id env w ch = Inr ch' \<Longrightarrow> same_low ch ch'"
proof -
  assume a: "stop_subscriber_work_id env w ch = Inr ch'"
  then obtain k where k: "(case work_id_match w of Some (_, num) \<Rightarrow> stoi num | None \<Rightarrow> Inr 0) = Inr k"
    and e: "(if map_of (lc_zmq ch) k \<noteq> None then lc_erase env k ch else Inr ch) = Inr ch'"
    unfolding stop_subscriber_work_id_def by (rule bind_res_InrE)
  have "0 \<le> k"
  proof (cases "work_id_match w")
    case (Some ab)
    with k work_id_match_digits [of w "fst ab" "snd ab"] stoi_digits_nonneg [of "snd ab" k] show ?thesis by (auto split: prod.splits)
  qed (use k in simp)
  with e erase_same_low [of env k ch ch'] show ?thesis by (auto split: if_splits)
qed

lemma same_low_ids [simp]: "same_low ch (ch1\<lparr>request_id := a, lc_work_id := b\<rparr>) = same_low ch ch1"
  by (simp add: same_low_def)

lemma event_call_low: "subscriber_event_call env d ch = Inr (r, ch') \<Longrightarrow> same_low ch ch'"
  by (auto simp: subscriber_event_call_def Let_def res_simps split: if_splits dest: set_push_url_low)

lemma subscriber_addr_ok:
  assumes ok: "addr_ok ch" and lim: "-2147483648 < zmq_url_index ch" and r: "subscriber env u c ch = Inr ch'"
  shows "addr_ok ch' \<and> slot ch' (-1) = slot ch (-1) \<and> (\<forall>u' k. u' \<noteq> u \<longrightarrow> map_of (zmq_url_map ch) u' = Some k \<longrightarrow>
    map_of (zmq_url_map ch') u' = Some k \<and> slot ch' k = slot ch k)"
proof -
  let ?k = "zmq_url_index ch"
  have k: "?k \<le> -1000" using ok by (simp add: addr_ok_def)
  then have i: "to_int32 (?k - 1) = ?k - 1" using lim by (simp add: is_int32_def)
  from r obtain s where s: "pzmq_socket env u ZMQ_SUB = Inr s"
    "lc_put env ?k (Some (s, Some c)) (ch\<lparr>zmq_url_map := umap_set u ?k (zmq_url_map ch), zmq_url_index := ?k - 1\<rparr>) = Inr ch'"
    by (auto simp: subscriber_def Let_def res_simps i)
  have su: "zmq_url s = u" using pzmq_socket_url [OF s(1)] by (simp add: ZMQ_SUB_def)
  have sl: "slot ch' j = (if j = ?k then Some (s, Some c) else slot ch j)" for j using slot_put(1) [OF s(2)] by simp
  have m: "map_of (zmq_url_map ch') v = (if v = u then Some ?k else map_of (zmq_url_map ch) v)" for v
    using slot_put(2) [OF s(2)] by simp
  have x: "zmq_url_index ch' = ?k - 1" using slot_put(3) [OF s(2)] by simp
  have old: "?k < j" "j \<le> -1000" "\<exists>s c. slot ch j = Some (s, Some c) \<and> zmq_url s = v"
    if "map_of (zmq_url_map ch) v = Some j" for v j using ok that unfolding addr_ok_def by blast+
  have "?k - 1 < j \<and> j \<le> -1000 \<and> (\<exists>s c. slot ch' j = Some (s, Some c) \<and> zmq_url s = v)"
    if v: "map_of (zmq_url_map ch') v = Some j" for v j
  proof (cases "v = u")
    case False
    with v m have "map_of (zmq_url_map ch) v = Some j" by simp
    from old [OF this] show ?thesis by (simp add: sl)
  qed (use v m sl su k in auto)
  moreover have "slot ch' j = slot ch j" if "map_of (zmq_url_map ch) v = Some j" for v j
    using old(1) [OF that] by (simp add: sl)
  ultimately show ?thesis using k unfolding addr_ok_def x by (auto simp: m sl)
qed

lemma addr_ok_inj:
  "addr_ok ch \<Longrightarrow> map_of (zmq_url_map ch) v = Some k \<Longrightarrow> map_of (zmq_url_map ch) w = Some k \<Longrightarrow> v = w"
  unfolding addr_ok_def by (metis option.inject prod.inject)

lemma stop_subscriber_addr_ok:
  assumes ok: "addr_ok ch" and u: "u \<noteq> []" and r: "stop_subscriber env u ch = Inr ch'"
  shows "addr_ok ch' \<and> slot ch' (-1) = slot ch (-1)"
proof (cases "map_of (zmq_url_map ch) u")
  case None
  with u r ok show ?thesis by (simp add: stop_subscriber_def)
next
  case (Some k)
  with u r obtain ch1 where e: "lc_erase env k ch = Inr ch1" "ch' = ch1\<lparr>zmq_url_map := umap_erase u (zmq_url_map ch1)\<rparr>"
    by (auto simp: stop_subscriber_def res_simps)
  have k: "k \<le> -1000" using ok Some by (simp add: addr_ok_def)
  have sl: "slot ch' j = (if j = k then None else slot ch j)" for j using slot_erase(1) [OF e(1)] e(2) by simp
  have m: "map_of (zmq_url_map ch') v = (if v = u then None else map_of (zmq_url_map ch) v)" for v
    using slot_erase(2) [OF e(1)] e(2) by simp
  have x: "zmq_url_index ch' = zmq_url_index ch" using slot_erase(3) [OF e(1)] e(2) by simp
  have "zmq_url_index ch < j \<and> j \<le> -1000 \<and> (\<exists>s c. slot ch' j = Some (s, Some c) \<and> zmq_url s = v)"
    if v: "map_of (zmq_url_map ch') v = Some j" for v j
  proof -
    have v': "v \<noteq> u" "map_of (zmq_url_map ch) v = Some j" using v m by (auto split: if_splits)
    with addr_ok_inj [OF ok Some, of v] have "j \<noteq> k" by auto
    then show ?thesis using ok v'(2) unfolding addr_ok_def by (simp add: sl)
  qed
  with ok k show ?thesis unfolding addr_ok_def x by (simp add: sl)
qed

section \<open>Reachable channels\<close>

text \<open>
  A channel for the publisher address \<open>pub\<close> after any operations but the one that stops everything,
  with the lines published so far.
\<close>

inductive lc_reach :: "zenv \<Rightarrow> string \<Rightarrow> 'c llm_channel_obj \<Rightarrow> string list \<Rightarrow> bool" for env pub where
  init: "llm_channel_ctor env pub infer nm = Inr ch \<Longrightarrow> lc_reach env pub ch []"
| sub: "lc_reach env pub ch outs \<Longrightarrow> -2147483648 < zmq_url_index ch \<Longrightarrow> subscriber env u c ch = Inr ch' \<Longrightarrow>
    lc_reach env pub ch' outs"
| unsub: "lc_reach env pub ch outs \<Longrightarrow> u \<noteq> [] \<Longrightarrow> stop_subscriber env u ch = Inr ch' \<Longrightarrow> lc_reach env pub ch' outs"
| sub_task: "lc_reach env pub ch outs \<Longrightarrow> subscriber_work_id env w c ch = Inr (r, ch') \<Longrightarrow> lc_reach env pub ch' outs"
| unsub_task: "lc_reach env pub ch outs \<Longrightarrow> stop_subscriber_work_id env w ch = Inr ch' \<Longrightarrow> lc_reach env pub ch' outs"
| push: "lc_reach env pub ch outs \<Longrightarrow> set_push_url env u ch = Inr ch' \<Longrightarrow> lc_reach env pub ch' outs"
| unpush: "lc_reach env pub ch outs \<Longrightarrow> cear_push_url env ch = Inr ch' \<Longrightarrow> lc_reach env pub ch' outs"
| event: "lc_reach env pub ch outs \<Longrightarrow> subscriber_event_call env d ch = Inr (a, ch') \<Longrightarrow> lc_reach env pub ch' outs"
| flags: "lc_reach env pub ch outs \<Longrightarrow> lc_reach env pub (lc_set_stream b (lc_set_output b' ch)) outs"
| send: "lc_reach env pub ch outs \<Longrightarrow> json_dump (lc_body now ob d e w ch) = Inr txt \<Longrightarrow> lc_send now ob d e w ch = Inr (r, ch') \<Longrightarrow>
    lc_reach env pub ch' (outs @ [txt @ [CHR 0x0A]])"

definition pub_ok :: "string \<Rightarrow> 'c llm_channel_obj \<Rightarrow> string list \<Rightarrow> bool" where
  "pub_ok pub ch outs \<longleftrightarrow> (\<exists>s. slot ch (-1) = Some (s, None) \<and> zmq_url s = pub \<and>
     zmq_log s = [ZSocket ZMQ_PUB, ZBind (c_str pub)] @ map (\<lambda>m. ZSend m False) outs)"

lemma pub_ok_slot: "slot ch' (-1) = slot ch (-1) \<Longrightarrow> pub_ok pub ch' outs = pub_ok pub ch outs"
  by (simp add: pub_ok_def)

lemma pub_socket_log: "pzmq_socket env url ZMQ_PUB = Inr s \<Longrightarrow> zmq_log s = [ZSocket ZMQ_PUB, ZBind (c_str url)]"
  by (auto simp: pzmq_socket_def creat_def creat_pub_def res_simps Let_def zmq_mode_defs pzmq_init_def
      split: option.splits if_splits)

lemma send_to_pub:
  assumes "pub_ok pub ch outs"
  shows "\<exists>ch'. send_raw_to_pub m ch = Inr (None, ch') \<and> pub_ok pub ch' (outs @ [m]) \<and> (\<forall>k. k \<noteq> -1 \<longrightarrow> slot ch' k = slot ch k) \<and>
    enoutput ch' = enoutput ch \<and> zmq_url_map ch' = zmq_url_map ch \<and> zmq_url_index ch' = zmq_url_index ch"
  using assms by (auto simp: pub_ok_def send_raw_to_pub_def send_data_def slot_def)

lemma send_to_usr_low: "send_raw_to_usr m ch = (r, ch') \<Longrightarrow> same_low ch ch'"
  by (auto simp: send_raw_to_usr_def same_low_def slot_def split: option.splits)

lemma lc_send_ok:
  assumes p: "pub_ok pub ch outs" and a: "addr_ok ch" and j: "json_dump (lc_body now ob d e w ch) = Inr txt"
    and r: "lc_send now ob d e w ch = Inr (r, ch')"
  shows "pub_ok pub ch' (outs @ [txt @ [CHR 0x0A]]) \<and> addr_ok ch'"
proof -
  from send_to_pub [OF p, of "txt @ [CHR 0x0A]"] obtain ch1 where
    c: "send_raw_to_pub (txt @ [CHR 0x0A]) ch = Inr (None, ch1)"
      "pub_ok pub ch1 (outs @ [txt @ [CHR 0x0A]])" "\<forall>k. k \<noteq> -1 \<longrightarrow> slot ch1 k = slot ch k"
      "zmq_url_map ch1 = zmq_url_map ch" "zmq_url_index ch1 = zmq_url_index ch" by blast
  have a1: "addr_ok ch1" using a c(3,4,5) unfolding addr_ok_def by fastforce
  from r c(1) j have "same_low ch1 ch'"
    using send_to_usr_low [of "txt @ [CHR 0x0A]" ch1 r ch'] by (auto simp: lc_send_def Let_def res_simps split: if_splits)
  with a1 c(2) show ?thesis using same_low_addr_ok pub_ok_slot [of ch' ch1] by (auto simp: same_low_def)
qed

lemma lc_reach_inv: "lc_reach env pub ch outs \<Longrightarrow> pub_ok pub ch outs \<and> addr_ok ch"
proof (induction rule: lc_reach.induct)
  case (init infer nm ch)
  then obtain s where s: "pzmq_socket env pub ZMQ_PUB = Inr s" "lc_zmq ch = [(-1, Some (s, None)), (-2, None)]"
    "zmq_url_index ch = -1000" "zmq_url_map ch = []"
    by (auto simp: llm_channel_ctor_def res_simps)
  have "zmq_url s = pub" using pzmq_socket_url [OF s(1)] by (simp add: ZMQ_PUB_def)
  with s pub_socket_log [OF s(1)] show ?case by (simp add: pub_ok_def slot_def addr_ok_def)
next
  case (sub ch outs u c ch')
  then show ?case using subscriber_addr_ok [of ch env u c ch'] pub_ok_slot [of ch' ch] by auto
next
  case (unsub ch outs u ch')
  then show ?case using stop_subscriber_addr_ok [of ch u env ch'] pub_ok_slot [of ch' ch] by auto
next
  case (sub_task ch outs w c r ch')
  then have "same_low ch ch'" by (blast dest: subscriber_work_id_low)
  with sub_task show ?case using same_low_addr_ok pub_ok_slot [of ch' ch] by (auto simp: same_low_def)
next
  case (unsub_task ch outs w ch')
  then have "same_low ch ch'" by (blast dest: stop_subscriber_work_id_low)
  with unsub_task show ?case using same_low_addr_ok pub_ok_slot [of ch' ch] by (auto simp: same_low_def)
next
  case (push ch outs u ch')
  then have "same_low ch ch'" by (blast dest: set_push_url_low)
  with push show ?case using same_low_addr_ok pub_ok_slot [of ch' ch] by (auto simp: same_low_def)
next
  case (unpush ch outs ch')
  then have "same_low ch ch'" by (blast dest: cear_push_url_low)
  with unpush show ?case using same_low_addr_ok pub_ok_slot [of ch' ch] by (auto simp: same_low_def)
next
  case (event ch outs d a ch')
  then have "same_low ch ch'" by (cases a) (blast dest: event_call_low)
  with event show ?case using same_low_addr_ok pub_ok_slot [of ch' ch] by (auto simp: same_low_def)
next
  case (flags ch outs b b')
  then show ?case by (simp add: pub_ok_def addr_ok_def slot_def lc_set_stream_def lc_set_output_def)
next
  case (send ch outs now ob d e w tx r ch')
  then show ?case using lc_send_ok by blast
qed


lemma demo_channel: "\<exists>ch :: unit llm_channel_obj. llm_channel_ctor demo_env ''ipc:///tmp/llm/1.sock'' ''ipc:///tmp/llm/2.sock'' ''llm'' = Inr ch"
proof -
  have "zmq_up demo_env" by (auto simp: demo_env_def zmq_up_def)
  from pzmq_socket_bound [OF this, of ZMQ_PUB "''ipc:///tmp/llm/1.sock''" "''/tmp/llm/1.sock''"] obtain s :: "unit pzmq"
    where "pzmq_socket demo_env ''ipc:///tmp/llm/1.sock'' ZMQ_PUB = Inr s" by auto
  then show ?thesis by (simp add: llm_channel_ctor_def)
qed


text \<open>The reply address is remembered when the reply socket is dropped, so that the same address is never connected again.\<close>

lemma push_url_not_restored:
  assumes "cear_push_url env ch = Inr ch1"
  shows "set_push_url env (lc_output_url ch) ch1 = Inr ch1 \<and> fst (send_raw_to_usr m ch1) = Some (-1)"
proof -
  have "lc_output_url ch1 = lc_output_url ch" "slot ch1 (-2) = None"
    using assms slot_put(1) [of env "-2" None ch ch1 "-2"]
    by (auto simp: cear_push_url_def lc_put_def lc_drop_def res_simps split: option.splits)
  then show ?thesis by (simp add: set_push_url_def send_raw_to_usr_def)
qed

text \<open>Stopping all subscriptions also drops the publisher: a later \<^verbatim>\<open>send\<close> dereferences null.\<close>

lemma send_after_stop_all:
  assumes "stop_subscriber env [] ch = Inr ch1"
    and "json_ok (lc_body now ob d e w ch1)"
  shows "lc_send now ob d e w ch1 = Inl Null_Deref"
  using assms json_dump_ok by (auto simp: stop_subscriber_def lc_send_def send_raw_to_pub_def slot_def res_simps)

end
