(* ===== verification/StackFlow.thy ===== *)
theory StackFlow
  imports LlmChannel
begin

text \<open>
  The base class of the nodes (\<^verbatim>\<open>infra-controller/StackFlow\<close>): an RPC server whose four actions queue events,
  a thread that takes the events from the queue, and the table of the channels of the running
  tasks. The class is an extensible record, which a node extends by its own members; the functions
  that a node overrides are the record \<open>vtable\<close>. The queue is that of the library eventpp: the calls
  of \<^verbatim>\<open>enqueue\<close> are kept in the field \<open>event_queue\<close>, and the events that each call of \<^verbatim>\<open>process\<close> hands to
  the listeners are an argument. What the process relies on outside, in one step, is the record
  \<open>node_io\<close>: libzmq and the peers, whether \<^verbatim>\<open>char\<close> is signed, and the clock.
\<close>

section \<open>State\<close>

datatype LOCAL_EVENT = EVENT_NONE | EVENT_SETUP | EVENT_EXIT | EVENT_PAUSE | EVENT_TASKINFO

record 'c StackFlow =
  sf_unit_name :: string
  sf_request_id :: string
  out_zmq_url :: string
  exit_flage :: bool
  sf_status :: int
  event_queue :: "(LOCAL_EVENT \<times> pzmq_data option) list"
  even_loop_thread :: bool
  rpc_ctx :: "LOCAL_EVENT pzmq"
  llm_task_channel :: "(int, 'c llm_channel_obj) umap"
  sf_pushed :: "unit pzmq list"

record node_io =
  io_env :: zenv
  io_sc :: bool
  io_now :: "64 word"

text \<open>The virtual functions on identifier, object and data; \<open>'s\<close> is the state of the node.\<close>

record 's vtable =
  v_setup :: "string \<Rightarrow> string \<Rightarrow> string \<Rightarrow> 's \<Rightarrow> (int \<times> 's) res"
  v_exit :: "string \<Rightarrow> string \<Rightarrow> string \<Rightarrow> 's \<Rightarrow> (int \<times> 's) res"
  v_pause :: "string \<Rightarrow> string \<Rightarrow> string \<Rightarrow> 's \<Rightarrow> 's res"
  v_taskinfo :: "string \<Rightarrow> string \<Rightarrow> string \<Rightarrow> 's \<Rightarrow> 's res"

section \<open>Replies\<close>

text \<open>
  A JSON value where a \<^verbatim>\<open>std::string\<close> is expected is converted implicitly, which throws unless it is a
  string. The \<^verbatim>\<open>error_body\<close> of a node is an object.
\<close>

definition error_body :: "int \<Rightarrow> string \<Rightarrow> json" where
  "error_body code message = JObj [(''code'', JNum code), (''message'', JStr message)]"

text \<open>
  \<^verbatim>\<open>StackFlow::send\<close>: a new push socket for every message, closed on return. The result of \<^verbatim>\<open>zmq_send\<close>,
  which no caller reads, is left out.
\<close>

definition node_send ::
    "node_io \<Rightarrow> string \<Rightarrow> json \<Rightarrow> string \<Rightarrow> string \<Rightarrow> string \<Rightarrow> ('c, 'm) StackFlow_scheme \<Rightarrow> ('c, 'm) StackFlow_scheme res" where
  "node_send io object data error_msg wid url s =
     bind_res (pzmq_socket (io_env io) (if url = [] then out_zmq_url s else url) ZMQ_PUSH) (\<lambda>z.
     case json_dump (out_body (sf_request_id s) wid (io_now io) object data error_msg) of
       Inl e \<Rightarrow> bind_res (pzmq_dtor (io_env io) z) (\<lambda>_. Inl e)
     | Inr txt \<Rightarrow>
         bind_res (pzmq_dtor (io_env io) (send_data (txt @ [CHR 0x0A]) z)) (\<lambda>z'.
         Inr (s\<lparr>sf_pushed := sf_pushed s @ [z']\<rparr>)))"

text \<open>The call \<^verbatim>\<open>send("None", "None", error_body, work_id)\<close>.\<close>

abbreviation not_a_string :: cxx_error where
  "not_a_string \<equiv> type_error 302 ''type must be string, but is object''"

definition send_error_body ::
    "node_io \<Rightarrow> json \<Rightarrow> string \<Rightarrow> ('c, 'm) StackFlow_scheme \<Rightarrow> ('c, 'm) StackFlow_scheme res" where
  "send_error_body io body wid s =
     bind_res (json_as_string body) (\<lambda>error_msg. node_send io ''None'' (JStr ''None'') error_msg wid [] s)"

section \<open>Channels and the unit manager\<close>

text \<open>\<^verbatim>\<open>get_channel\<close>, for a number and for an identifier.\<close>

definition get_channel :: "int \<Rightarrow> ('c, 'm) StackFlow_scheme \<Rightarrow> 'c llm_channel_obj res" where
  "get_channel n s = umap_at (llm_task_channel s) n"

definition get_channel_id :: "string \<Rightarrow> ('c, 'm) StackFlow_scheme \<Rightarrow> 'c llm_channel_obj res" where
  "get_channel_id wid s = bind_res (sample_get_work_id_num wid) (\<lambda>n. get_channel n s)"

text \<open>A change of a channel through its shared pointer.\<close>

definition put_channel :: "int \<Rightarrow> 'c llm_channel_obj \<Rightarrow> ('c, 'm) StackFlow_scheme \<Rightarrow> ('c, 'm) StackFlow_scheme" where
  "put_channel n ch s = s\<lparr>llm_task_channel := umap_set n ch (llm_task_channel s)\<rparr>"

text \<open>The end of the channel under a number, if there is one.\<close>

definition drop_channel :: "zenv \<Rightarrow> int \<Rightarrow> ('c, 'm) StackFlow_scheme \<Rightarrow> unit res" where
  "drop_channel env n s = (case map_of (llm_task_channel s) n of None \<Rightarrow> Inr () | Some ch \<Rightarrow> llm_channel_dtor env ch)"

text \<open>The function that unpacks the reply to \<^verbatim>\<open>register_unit\<close>: number, output and inference address.\<close>

definition unpack_unit :: "bool \<Rightarrow> pzmq_data \<Rightarrow> (string \<times> string \<times> string) res" where
  "unpack_unit sc d =
     bind_res (get_param sc 1 [] d) (\<lambda>str_port.
     bind_res (get_param sc 0 str_port d) (\<lambda>out_port.
     bind_res (get_param sc 1 str_port d) (\<lambda>inference_port.
     bind_res (get_param sc 0 [] d) (\<lambda>number. Inr (number, out_port, inference_port)))))"

definition unpack_cb :: "bool \<Rightarrow> pzmq_data \<Rightarrow> string \<times> string \<times> string \<Rightarrow> unit res \<times> string \<times> string \<times> string" where
  "unpack_cb sc d w = (case unpack_unit sc d of Inl e \<Rightarrow> (Inl e, w) | Inr w' \<Rightarrow> (Inr (), w'))"

definition node_register_unit ::
    "node_io \<Rightarrow> string \<Rightarrow> ('c, 'm) StackFlow_scheme \<Rightarrow> (int \<times> ('c, 'm) StackFlow_scheme) res" where
  "node_register_unit io nm s =
     bind_res (unit_call_cb (io_env io) ''sys'' ''register_unit'' nm (unpack_cb (io_sc io)) ([], [], [])) (\<lambda>(str_port, out_port, inference_port).
     bind_res (stoi str_port) (\<lambda>work_id_number.
     bind_res (llm_channel_ctor (io_env io) out_port inference_port (sf_unit_name s)) (\<lambda>ch.
     bind_res (drop_channel (io_env io) work_id_number s) (\<lambda>_.
     Inr (work_id_number, put_channel work_id_number ch s)))))"

definition node_release_unit ::
    "node_io \<Rightarrow> int \<Rightarrow> string \<Rightarrow> ('c, 'm) StackFlow_scheme \<Rightarrow> (bool \<times> ('c, 'm) StackFlow_scheme) res" where
  "node_release_unit io work_id_num wid s =
     bind_res (if wid = [] then Inr (sample_get_work_id work_id_num (sf_unit_name s), work_id_num)
               else bind_res (sample_get_work_id_num wid) (\<lambda>n. Inr (wid, n))) (\<lambda>(w, n).
     bind_res (unit_call (io_env io) ''sys'' ''release_unit'' w) (\<lambda>_.
     bind_res (drop_channel (io_env io) n s) (\<lambda>_.
     Inr (False, s\<lparr>llm_task_channel := umap_erase n (llm_task_channel s)\<rparr>))))"

text \<open>
  The template \<^verbatim>\<open>sys_release_unit(T)\<close> for a number (\<open>Inl\<close>) and for an identifier (\<open>Inr\<close>). Its socket object
  lives to the end of the function.
\<close>

definition node_release_any ::
    "node_io \<Rightarrow> int + string \<Rightarrow> ('c, 'm) StackFlow_scheme \<Rightarrow> (bool \<times> ('c, 'm) StackFlow_scheme) res" where
  "node_release_any io workid s =
     bind_res (case workid of Inl n \<Rightarrow> Inr (sample_get_work_id n (sf_unit_name s), n)
               | Inr wid \<Rightarrow> bind_res (sample_get_work_id_num wid) (\<lambda>n. Inr (wid, n))) (\<lambda>(w, n).
     case call_rpc_action (io_env io) ''release_unit'' w (\<lambda>_ u. (Inr (), u)) () (pzmq_server ''sys'' :: unit pzmq) of
       (r, _, call) \<Rightarrow>
         bind_res r (\<lambda>_.
         bind_res (drop_channel (io_env io) n s) (\<lambda>_.
         bind_res (pzmq_dtor (io_env io) call) (\<lambda>_.
         Inr (False, s\<lparr>llm_task_channel := umap_erase n (llm_task_channel s)\<rparr>)))))"

text \<open>\<^verbatim>\<open>sys_sql_select\<close> has no \<^verbatim>\<open>return\<close>.\<close>

definition node_sql_select :: "string \<Rightarrow> string res" where
  "node_sql_select key = Inl Undefined_Behaviour"

definition node_sql_set :: "node_io \<Rightarrow> string \<Rightarrow> string \<Rightarrow> unit res" where
  "node_sql_set io key val =
     bind_res (json_dump (JObj [(''key'', JStr key), (''val'', JStr val)])) (\<lambda>body.
     bind_res (unit_call (io_env io) ''sys'' ''sql_set'' body) (\<lambda>_. Inr ()))"

definition node_sql_unset :: "node_io \<Rightarrow> string \<Rightarrow> unit res" where
  "node_sql_unset io key = bind_res (unit_call (io_env io) ''sys'' ''sql_unset'' key) (\<lambda>_. Inr ())"

section \<open>Requests\<close>

text \<open>The functions on the reply address and the text of the request.\<close>

definition raw_setup ::
    "('c, 'm) StackFlow_scheme vtable \<Rightarrow> node_io \<Rightarrow> string \<Rightarrow> string \<Rightarrow> ('c, 'm) StackFlow_scheme \<Rightarrow> (int \<times> ('c, 'm) StackFlow_scheme) res" where
  "raw_setup vt io url raw s =
     bind_res (node_register_unit io (sf_unit_name s) s) (\<lambda>(workid_num, s1).
     let wid = sf_unit_name s1 @ ''.'' @ to_string workid_num in
     bind_res (get_channel workid_num s1) (\<lambda>ch.
     bind_res (set_push_url (io_env io) url ch) (\<lambda>ch1.
     bind_res (sample_json_str_get raw ''request_id'') (\<lambda>rid.
     bind_res (sample_json_str_get raw ''object'') (\<lambda>object.
     bind_res (sample_json_str_get raw ''data'') (\<lambda>data.
     bind_res (v_setup vt wid object data (put_channel workid_num (ch1\<lparr>request_id := rid, lc_work_id := wid\<rparr>) s1)) (\<lambda>(r, s2).
     if r \<noteq> 0 then bind_res (node_release_unit io workid_num wid s2) (\<lambda>(_, s3). Inr (0, s3)) else Inr (0, s2))))))))"

text \<open>
  The block \<^verbatim>\<open>try { get_channel(...)->set_push_url(...) } catch (...) {}\<close>; what it can throw, it throws
  before it changes anything.
\<close>

definition try_push_url :: "node_io \<Rightarrow> string \<Rightarrow> string \<Rightarrow> ('c, 'm) StackFlow_scheme \<Rightarrow> ('c, 'm) StackFlow_scheme res" where
  "try_push_url io wid url s =
     (case bind_res (sample_get_work_id_num wid) (\<lambda>n.
           bind_res (get_channel n s) (\<lambda>ch.
           bind_res (set_push_url (io_env io) url ch) (\<lambda>ch1. Inr (put_channel n ch1 s)))) of
        Inl e \<Rightarrow> if catchable e then Inr s else Inl e
      | Inr s1 \<Rightarrow> Inr s1)"

definition raw_exit ::
    "('c, 'm) StackFlow_scheme vtable \<Rightarrow> node_io \<Rightarrow> string \<Rightarrow> string \<Rightarrow> ('c, 'm) StackFlow_scheme \<Rightarrow> (int \<times> ('c, 'm) StackFlow_scheme) res" where
  "raw_exit vt io url raw s =
     bind_res (sample_json_str_get raw ''work_id'') (\<lambda>wid.
     bind_res (try_push_url io wid url s) (\<lambda>s1.
     bind_res (sample_json_str_get raw ''object'') (\<lambda>object.
     bind_res (sample_json_str_get raw ''data'') (\<lambda>data.
     bind_res (v_exit vt wid object data s1) (\<lambda>(r, s2).
     if r = 0 then bind_res (node_release_unit io (-1) wid s2) (\<lambda>(b, s3). Inr (if b then 1 else 0, s3)) else Inr (0, s2))))))"

definition raw_pause ::
    "('c, 'm) StackFlow_scheme vtable \<Rightarrow> node_io \<Rightarrow> string \<Rightarrow> string \<Rightarrow> ('c, 'm) StackFlow_scheme \<Rightarrow> ('c, 'm) StackFlow_scheme res" where
  "raw_pause vt io url raw s =
     bind_res (sample_json_str_get raw ''work_id'') (\<lambda>wid.
     bind_res (try_push_url io wid url s) (\<lambda>s1.
     bind_res (sample_json_str_get raw ''object'') (\<lambda>object.
     bind_res (sample_json_str_get raw ''data'') (\<lambda>data. v_pause vt wid object data s1))))"

definition raw_taskinfo ::
    "('c, 'm) StackFlow_scheme vtable \<Rightarrow> node_io \<Rightarrow> string \<Rightarrow> string \<Rightarrow> ('c, 'm) StackFlow_scheme \<Rightarrow> ('c, 'm) StackFlow_scheme res" where
  "raw_taskinfo vt io url raw s =
     bind_res (sample_json_str_get raw ''work_id'') (\<lambda>wid.
     bind_res (try_push_url io wid url s) (\<lambda>s1.
     bind_res (sample_json_str_get raw ''object'') (\<lambda>object.
     bind_res (sample_json_str_get raw ''data'') (\<lambda>data. v_taskinfo vt wid object data s1))))"

text \<open>What the base class itself does for the functions of a node.\<close>

definition no_action :: json where
  "no_action = error_body (-18) ''not have unit action!''"

definition base_setup :: "node_io \<Rightarrow> string \<Rightarrow> string \<Rightarrow> string \<Rightarrow> ('c, 'm) StackFlow_scheme \<Rightarrow> (int \<times> ('c, 'm) StackFlow_scheme) res" where
  "base_setup io wid object data s = bind_res (send_error_body io no_action wid s) (\<lambda>s1. Inr (-1, s1))"

definition base_exit :: "node_io \<Rightarrow> string \<Rightarrow> string \<Rightarrow> string \<Rightarrow> ('c, 'm) StackFlow_scheme \<Rightarrow> (int \<times> ('c, 'm) StackFlow_scheme) res" where
  "base_exit io wid object data s = bind_res (send_error_body io no_action wid s) (\<lambda>s1. Inr (0, s1))"

definition base_pause :: "node_io \<Rightarrow> string \<Rightarrow> string \<Rightarrow> string \<Rightarrow> ('c, 'm) StackFlow_scheme \<Rightarrow> ('c, 'm) StackFlow_scheme res" where
  "base_pause io wid object data s = send_error_body io no_action wid s"

definition base_taskinfo :: "node_io \<Rightarrow> string \<Rightarrow> string \<Rightarrow> string \<Rightarrow> ('c, 'm) StackFlow_scheme \<Rightarrow> ('c, 'm) StackFlow_scheme res" where
  "base_taskinfo io wid object data s = send_error_body io no_action wid s"

definition base_vtable :: "node_io \<Rightarrow> ('c, 'm) StackFlow_scheme vtable" where
  "base_vtable io = \<lparr>v_setup = base_setup io, v_exit = base_exit io, v_pause = base_pause io, v_taskinfo = base_taskinfo io\<rparr>"

section \<open>Events\<close>

text \<open>The handlers of the RPC actions run in the receiving thread and only queue the message.\<close>

definition node_rpc :: "LOCAL_EVENT \<Rightarrow> pzmq_data \<Rightarrow> ('c, 'm) StackFlow_scheme \<Rightarrow> string res \<times> ('c, 'm) StackFlow_scheme" where
  "node_rpc ev d s = (Inr ''None'', s\<lparr>event_queue := event_queue s @ [(ev, Some d)]\<rparr>)"

definition node_actions :: "(string \<times> LOCAL_EVENT) list" where
  "node_actions = [(''setup'', EVENT_SETUP), (''pause'', EVENT_PAUSE), (''exit'', EVENT_EXIT), (''taskinfo'', EVENT_TASKINFO)]"

text \<open>
  The listeners. All but the first unpack the message, keep its request and reply address, and act
  when the node is ready. \<open>take_request io k\<close> reads the text of the request from parameter \<open>k\<close>, which is 0
  for \<^verbatim>\<open>_pause\<close> and 1 for the others.
\<close>

definition take_request ::
    "node_io \<Rightarrow> int \<Rightarrow> pzmq_data \<Rightarrow> ('c, 'm) StackFlow_scheme \<Rightarrow> ((string \<times> string) \<times> ('c, 'm) StackFlow_scheme) res" where
  "take_request io k d s =
     bind_res (get_param (io_sc io) 0 [] d) (\<lambda>url.
     bind_res (get_param (io_sc io) k [] d) (\<lambda>data.
     bind_res (sample_json_str_get data ''request_id'') (\<lambda>rid.
     Inr ((url, data), s\<lparr>sf_request_id := rid, out_zmq_url := url\<rparr>))))"

definition on_setup ::
    "('c, 'm) StackFlow_scheme vtable \<Rightarrow> node_io \<Rightarrow> pzmq_data \<Rightarrow> ('c, 'm) StackFlow_scheme \<Rightarrow> ('c, 'm) StackFlow_scheme res" where
  "on_setup vt io d s = bind_res (take_request io 1 d s) (\<lambda>((url, data), s1).
     if sf_status s1 \<noteq> 0 then bind_res (raw_setup vt io url data s1) (\<lambda>(_, s2). Inr s2) else Inr s1)"

definition on_exit ::
    "('c, 'm) StackFlow_scheme vtable \<Rightarrow> node_io \<Rightarrow> pzmq_data \<Rightarrow> ('c, 'm) StackFlow_scheme \<Rightarrow> ('c, 'm) StackFlow_scheme res" where
  "on_exit vt io d s = bind_res (take_request io 1 d s) (\<lambda>((url, data), s1).
     if sf_status s1 \<noteq> 0 then bind_res (raw_exit vt io url data s1) (\<lambda>(_, s2). Inr s2) else Inr s1)"

definition on_pause ::
    "('c, 'm) StackFlow_scheme vtable \<Rightarrow> node_io \<Rightarrow> pzmq_data \<Rightarrow> ('c, 'm) StackFlow_scheme \<Rightarrow> ('c, 'm) StackFlow_scheme res" where
  "on_pause vt io d s = bind_res (take_request io 0 d s) (\<lambda>((url, data), s1).
     if sf_status s1 \<noteq> 0 then raw_pause vt io url data s1 else Inr s1)"

definition on_taskinfo ::
    "('c, 'm) StackFlow_scheme vtable \<Rightarrow> node_io \<Rightarrow> pzmq_data \<Rightarrow> ('c, 'm) StackFlow_scheme \<Rightarrow> ('c, 'm) StackFlow_scheme res" where
  "on_taskinfo vt io d s = bind_res (take_request io 1 d s) (\<lambda>((url, data), s1).
     if sf_status s1 \<noteq> 0 then raw_taskinfo vt io url data s1 else Inr s1)"

definition none_event :: "('c, 'm) StackFlow_scheme \<Rightarrow> ('c, 'm) StackFlow_scheme res" where
  "none_event s = Inr s"

definition dispatch_event ::
    "('c, 'm) StackFlow_scheme vtable \<Rightarrow> node_io \<Rightarrow> LOCAL_EVENT \<times> pzmq_data option \<Rightarrow> ('c, 'm) StackFlow_scheme \<Rightarrow> ('c, 'm) StackFlow_scheme res" where
  "dispatch_event vt io e s =
     (case e of
        (EVENT_NONE, _) \<Rightarrow> none_event s
      | (_, None) \<Rightarrow> Inl Null_Deref
      | (EVENT_SETUP, Some d) \<Rightarrow> on_setup vt io d s
      | (EVENT_EXIT, Some d) \<Rightarrow> on_exit vt io d s
      | (EVENT_PAUSE, Some d) \<Rightarrow> on_pause vt io d s
      | (EVENT_TASKINFO, Some d) \<Rightarrow> on_taskinfo vt io d s)"

text \<open>
  The thread: each round processes the events handed over, each with what the outside then answers.
  Nothing in the thread catches an exception.
\<close>

definition thread_result :: "'a res \<Rightarrow> 'a res" where
  "thread_result r = (case r of Inl e \<Rightarrow> Inl (if catchable e then Terminate else e) | Inr x \<Rightarrow> Inr x)"

fun process_events ::
    "(node_io \<Rightarrow> ('c, 'm) StackFlow_scheme vtable) \<Rightarrow> (node_io \<times> LOCAL_EVENT \<times> pzmq_data option) list \<Rightarrow>
     ('c, 'm) StackFlow_scheme \<Rightarrow> ('c, 'm) StackFlow_scheme res" where
  "process_events vt [] s = Inr s"
| "process_events vt ((io, e) # es) s = bind_res (dispatch_event (vt io) io e s) (process_events vt es)"

fun even_loop ::
    "(node_io \<Rightarrow> ('c, 'm) StackFlow_scheme vtable) \<Rightarrow> (node_io \<times> LOCAL_EVENT \<times> pzmq_data option) list list \<Rightarrow>
     ('c, 'm) StackFlow_scheme \<Rightarrow> ('c, 'm) StackFlow_scheme res" where
  "even_loop vt [] s = Inr s"
| "even_loop vt (es # rounds) s =
     (if exit_flage s then Inr s else bind_res (thread_result (process_events vt es s)) (even_loop vt rounds))"

section \<open>Creation and destruction\<close>

definition StackFlow_ctor :: "zenv \<Rightarrow> string \<Rightarrow> 'c StackFlow res" where
  "StackFlow_ctor env nm =
     bind_res (reg_all (register env) node_actions (pzmq_server nm)) (\<lambda>rpc.
     Inr \<lparr>sf_unit_name = nm, sf_request_id = [], out_zmq_url = [], exit_flage = False, sf_status = 1, event_queue = [],
          even_loop_thread = True, rpc_ctx = rpc, llm_task_channel = [], sf_pushed = []\<rparr>)"

text \<open>
  The destructor: a second \<^verbatim>\<open>join\<close> would throw, but before it the loop uses an iterator that
  \<^verbatim>\<open>sys_release_unit\<close> has invalidated. Then the members end, among them the RPC socket.
\<close>

definition StackFlow_dtor :: "node_io \<Rightarrow> ('c, 'm) StackFlow_scheme \<Rightarrow> ('c, 'm) StackFlow_scheme res" where
  "StackFlow_dtor io s =
     (if \<not> even_loop_thread s then Inl Terminate
      else let s1 = s\<lparr>exit_flage := True, event_queue := event_queue s @ [(EVENT_NONE, None)], even_loop_thread := False\<rparr>
           in case llm_task_channel s1 of
                [] \<Rightarrow> bind_res (pzmq_dtor (io_env io) (rpc_ctx s1)) (\<lambda>rpc. Inr (s1\<lparr>rpc_ctx := rpc\<rparr>))
              | (n, _) # _ \<Rightarrow> (case node_release_unit io n [] s1 of
                                 Inl e \<Rightarrow> Inl (if catchable e then Terminate else e)
                               | Inr _ \<Rightarrow> Inl Undefined_Behaviour))"

section \<open>The contract between the base class and a node\<close>

text \<open>The number in the reply to a registration is not the one that stands for no task.\<close>

definition numbers_ok :: "node_io \<Rightarrow> string \<Rightarrow> bool" where
  "numbers_ok io nm \<longleftrightarrow> (\<forall>w. unit_call_cb (io_env io) ''sys'' ''register_unit'' nm (unpack_cb (io_sc io)) ([], [], []) = Inr w \<longrightarrow>
     stoi (fst w) \<noteq> Inr WORK_ID_NONE)"

definition fresh_channel :: "'c llm_channel_obj \<Rightarrow> bool" where
  "fresh_channel ch \<longleftrightarrow> (\<exists>z. slot ch (-1) = Some (z, None)) \<and> usr_ok ch"

text \<open>The key that \<^verbatim>\<open>sys_release_unit(-1, work_id)\<close> erases.\<close>

definition release_key :: "string \<Rightarrow> int res" where
  "release_key wid = (if wid = [] then Inr (-1) else sample_get_work_id_num wid)"

text \<open>
  What the base class relies on: the functions of a node keep its invariant \<open>inv\<close>, where \<^verbatim>\<open>setup\<close> is called
  with a new channel already in the table and the channel of an ended or refused task is removed
  from the table afterwards.
\<close>

locale flow_node =
  fixes vt :: "node_io \<Rightarrow> ('c, 'm) StackFlow_scheme vtable"
    and inv :: "('c, 'm) StackFlow_scheme \<Rightarrow> bool"
  assumes name: "inv s \<Longrightarrow> CHR ''.'' \<notin> set (sf_unit_name s)"
    and ids: "inv s \<Longrightarrow> inv (s\<lparr>sf_request_id := rid, out_zmq_url := u\<rparr>)"
    and queue: "inv s \<Longrightarrow> inv (s\<lparr>event_queue := q\<rparr>)"
    and pushed: "inv s \<Longrightarrow> get_channel n s = Inr ch \<Longrightarrow> set_push_url env u ch = Inr ch' \<Longrightarrow> inv (put_channel n ch' s)"
    and v_setup_inv: "inv s \<Longrightarrow> is_int32 n \<Longrightarrow> n \<noteq> WORK_ID_NONE \<Longrightarrow> fresh_channel ch \<Longrightarrow>
      v_setup (vt io) (sf_unit_name s @ ''.'' @ to_string n) ob d (put_channel n ch s) = Inr (r, s') \<Longrightarrow>
      inv (if r = 0 then s' else s'\<lparr>llm_task_channel := umap_erase n (llm_task_channel s')\<rparr>)"
    and v_exit_inv: "inv s \<Longrightarrow> v_exit (vt io) wid ob d s = Inr (r, s') \<Longrightarrow>
      (if r = 0 then \<forall>n. release_key wid = Inr n \<longrightarrow> inv (s'\<lparr>llm_task_channel := umap_erase n (llm_task_channel s')\<rparr>) else inv s')"
    and v_pause_inv: "inv s \<Longrightarrow> v_pause (vt io) wid ob d s = Inr s' \<Longrightarrow> inv s'"
    and v_taskinfo_inv: "inv s \<Longrightarrow> v_taskinfo (vt io) wid ob d s = Inr s' \<Longrightarrow> inv s'"

lemma stoi_int32: "stoi s = Inr n \<Longrightarrow> is_int32 n"
  by (auto simp: stoi_def Let_def split: prod.splits if_splits)

lemma work_num_of_id:
  assumes "CHR ''.'' \<notin> set nm" and "is_int32 n" and "length nm < 2147483647"
  shows "sample_get_work_id_num (nm @ ''.'' @ to_string n) = Inr n"
  using work_id_num_of [OF assms] by (simp add: sample_get_work_id_def)

lemma register_unit_cases:
  assumes "node_register_unit io nm s = Inr (n, s1)" and "numbers_ok io nm"
  shows "is_int32 n \<and> n \<noteq> WORK_ID_NONE \<and> (\<exists>ch. fresh_channel ch \<and> s1 = put_channel n ch s)"
proof -
  from assms(1) obtain w :: "string \<times> string \<times> string" and ch where
    w: "unit_call_cb (io_env io) ''sys'' ''register_unit'' nm (unpack_cb (io_sc io)) ([], [], []) = Inr w"
      "stoi (fst w) = Inr n" "llm_channel_ctor (io_env io) (fst (snd w)) (snd (snd w)) (sf_unit_name s) = Inr ch"
      "s1 = put_channel n ch s"
    by (auto simp: node_register_unit_def res_simps split: prod.splits)
  from w(3) have "fresh_channel ch" using usr_ok_ctor [OF w(3)] by (auto simp: llm_channel_ctor_def fresh_channel_def slot_def res_simps)
  with w(2,4) stoi_int32 [OF w(2)] assms(2) w(1) show ?thesis by (auto simp: numbers_ok_def)
qed

lemma release_unit_cases:
  assumes "node_release_unit io n wid s = Inr (b, s')"
  shows "\<not> b \<and> (\<exists>k. (if wid = [] then k = n else sample_get_work_id_num wid = Inr k) \<and>
    s' = s\<lparr>llm_task_channel := umap_erase k (llm_task_channel s)\<rparr>)"
  using assms by (auto simp: node_release_unit_def res_simps split: if_splits)

lemma put_channel_put [simp]: "put_channel n ch (put_channel n ch' s) = put_channel n ch s"
  by (simp add: put_channel_def)

lemma put_channel_simps [simp]:
  "sf_unit_name (put_channel n ch s) = sf_unit_name s" "llm_task_channel (put_channel n ch s) = umap_set n ch (llm_task_channel s)"
  by (simp_all add: put_channel_def)

context flow_node
begin

lemma try_push_inv: "inv s \<Longrightarrow> try_push_url io wid url s = Inr s' \<Longrightarrow> inv s'"
  by (auto simp: try_push_url_def res_simps split: sum.splits if_splits intro: pushed)

lemma raw_setup_inv:
  assumes i: "inv s" and ok: "numbers_ok io (sf_unit_name s)" "length (sf_unit_name s) < 2147483647"
    and r: "raw_setup (vt io) io url raw s = Inr (x, s')"
  shows "inv s'"
proof -
  from r obtain n s1 ch ch1 rid ob d y s2 where
    a: "node_register_unit io (sf_unit_name s) s = Inr (n, s1)" "get_channel n s1 = Inr ch" "set_push_url (io_env io) url ch = Inr ch1"
    and v: "v_setup (vt io) (sf_unit_name s1 @ ''.'' @ to_string n) ob d
      (put_channel n (ch1\<lparr>request_id := rid, lc_work_id := sf_unit_name s1 @ ''.'' @ to_string n\<rparr>) s1) = Inr (y, s2)"
    and e: "if y \<noteq> 0 then \<exists>b. node_release_unit io n (sf_unit_name s1 @ ''.'' @ to_string n) s2 = Inr (b, s') else s' = s2"
    by (auto simp: raw_setup_def res_simps Let_def split: if_splits)
  obtain ch0 where c: "is_int32 n" "n \<noteq> WORK_ID_NONE" "fresh_channel ch0" "s1 = put_channel n ch0 s"
    using register_unit_cases [OF a(1) ok(1)] by blast
  have "ch = ch0" using a(2) c(4) by (simp add: get_channel_def)
  with c(3) set_push_url_low [OF a(3)] set_push_url_usr [OF a(3)] have f: "fresh_channel (ch1\<lparr>request_id := rid, lc_work_id := sf_unit_name s @ ''.'' @ to_string n\<rparr>)"
    by (simp add: fresh_channel_def same_low_def slot_def)
  have k: "inv (if y = 0 then s2 else s2\<lparr>llm_task_channel := umap_erase n (llm_task_channel s2)\<rparr>)"
    using v_setup_inv [OF i c(1,2) f, of io ob d y s2] v c(4) by simp
  have num: "sample_get_work_id_num (sf_unit_name s @ ''.'' @ to_string n) = Inr n"
    using name [OF i] c(1) ok(2) by (rule work_num_of_id)
  show ?thesis
  proof (cases "y = 0")
    case False
    with e obtain b where "node_release_unit io n (sf_unit_name s @ ''.'' @ to_string n) s2 = Inr (b, s')" using c(4) by auto
    from release_unit_cases [OF this] num k False show ?thesis by auto
  qed (use e k in simp)
qed

lemma raw_exit_inv:
  assumes i: "inv s" and r: "raw_exit (vt io) io url raw s = Inr (x, s')"
  shows "inv s'"
proof -
  from r obtain wid s1 ob d y s2 where
    t: "try_push_url io wid url s = Inr s1" and v: "v_exit (vt io) wid ob d s1 = Inr (y, s2)"
    and e: "y = 0 \<and> (\<exists>b. node_release_unit io (-1) wid s2 = Inr (b, s')) \<or> y \<noteq> 0 \<and> s' = s2"
    by (auto simp: raw_exit_def res_simps split: if_splits) blast+
  note k = v_exit_inv [OF try_push_inv [OF i t] v]
  show ?thesis
  proof (cases "y = 0")
    case True
    with e obtain b where "node_release_unit io (-1) wid s2 = Inr (b, s')" by auto
    from release_unit_cases [OF this] k True show ?thesis by (auto simp: release_key_def split: if_splits)
  qed (use e k in simp)
qed

lemma raw_pause_inv: "inv s \<Longrightarrow> raw_pause (vt io) io url raw s = Inr s' \<Longrightarrow> inv s'"
  by (auto simp: raw_pause_def res_simps intro: v_pause_inv try_push_inv)

lemma raw_taskinfo_inv: "inv s \<Longrightarrow> raw_taskinfo (vt io) io url raw s = Inr s' \<Longrightarrow> inv s'"
  by (auto simp: raw_taskinfo_def res_simps intro: v_taskinfo_inv try_push_inv)

lemma take_request_inv:
  "inv s \<Longrightarrow> take_request io k d s = Inr (ud, s') \<Longrightarrow> inv s' \<and> sf_unit_name s' = sf_unit_name s"
  by (auto simp: take_request_def res_simps intro: ids)

lemma dispatch_event_inv:
  assumes i: "inv s" and ok: "numbers_ok io (sf_unit_name s)" "length (sf_unit_name s) < 2147483647"
    and r: "dispatch_event (vt io) io e s = Inr s'"
  shows "inv s'"
proof -
  obtain ev d where e: "e = (ev, d)" by (cases e)
  show ?thesis
  proof (cases ev)
    case EVENT_NONE
    with e r i show ?thesis by (simp add: dispatch_event_def none_event_def)
  next
    case EVENT_SETUP
    with e r obtain d1 where "on_setup (vt io) io d1 s = Inr s'" by (cases d) (auto simp: dispatch_event_def)
    with i ok show ?thesis
      by (auto simp: on_setup_def res_simps split: if_splits dest!: take_request_inv [OF i] intro: raw_setup_inv)
  next
    case EVENT_EXIT
    with e r obtain d1 where "on_exit (vt io) io d1 s = Inr s'" by (cases d) (auto simp: dispatch_event_def)
    with i show ?thesis
      by (auto simp: on_exit_def res_simps split: if_splits dest!: take_request_inv [OF i] intro: raw_exit_inv)
  next
    case EVENT_PAUSE
    with e r obtain d1 where "on_pause (vt io) io d1 s = Inr s'" by (cases d) (auto simp: dispatch_event_def)
    with i show ?thesis
      by (auto simp: on_pause_def res_simps split: if_splits dest!: take_request_inv [OF i] intro: raw_pause_inv)
  next
    case EVENT_TASKINFO
    with e r obtain d1 where "on_taskinfo (vt io) io d1 s = Inr s'" by (cases d) (auto simp: dispatch_event_def)
    with i show ?thesis
      by (auto simp: on_taskinfo_def res_simps split: if_splits dest!: take_request_inv [OF i] intro: raw_taskinfo_inv)
  qed
qed

end

section \<open>When the outside works\<close>

lemma socket_total:
  assumes "zmq_up env" and "2 \<le> length url" and "md = ZMQ_PUB \<or> md = ZMQ_SUB \<or> md = ZMQ_PUSH"
  shows "\<exists>s :: 'f pzmq. pzmq_socket env url md = Inr s \<and> mode s = Some md"
proof -
  have up: "\<exists>k. ctx_new env k" "\<exists>k. socket_new env k" using assms(1) by (simp_all add: zmq_up_def)
  obtain j where j: "retry (ctx_new env) 0 = Some j" using retry_obtain [OF up(1)] .
  obtain k where "retry (socket_new env) 0 = Some k" using retry_obtain [OF up(2)] .
  with j assms(2,3) show ?thesis
    by (auto simp: pzmq_socket_def str_at_def creat_def creat_pub_def creat_push_def subscriber_url_def spawn_loop_def Let_def
        zmq_mode_defs pzmq_init_def)
qed

lemma push_dtor: "mode s = Some ZMQ_PUSH \<Longrightarrow> \<exists>s'. pzmq_dtor env s = Inr s'"
  by (simp add: pzmq_dtor_def close_zmq_def Let_def is_bind_def zmq_mode_defs)

text \<open>libzmq works and the unit manager answers.\<close>

definition sys_up :: "zenv \<Rightarrow> bool" where
  "sys_up env \<longleftrightarrow> zmq_up env \<and> file_exists env ''/tmp/rpc.sys'' \<and> connect_ret env ''ipc:///tmp/rpc.sys'' = 0"

lemma sys_call:
  assumes up: "sys_up env" and r: "reply env act data = Some m" and c: "cb \<lparr>msg = m\<rparr> w = (Inr (), w')"
  shows "unit_call_cb env ''sys'' act data cb w = Inr w'"
proof -
  have z: "zmq_up env" "file_exists env (c_str (''/tmp/rpc.'' @ ''sys''))" "connect_ret env (c_str (default_head @ ''sys'')) = 0"
    using up by (simp_all add: sys_up_def default_head_def c_str_def)
  have nm: "''sys'' \<noteq> []" "str_find ''sys'' ''://'' 0 = None" by (simp_all add: str_find_def)
  have c': "cb \<lparr>msg = case_option [] id (reply env act data)\<rparr> w = (Inr (), w')" using r c by simp
  have "call_rpc_action env act data cb w (pzmq_server ''sys'' :: unit pzmq) =
     (Inr 0, w', after_call ''sys'' (connect_calls ''sys'' @ [ZSend act True, ZSend data False, ZRecv, ZClose, ZCtxDestroy]))"
    using call_rpc_action_cases [where 'f = unit, OF z(1) nm, of cb act data w w'] c' z(2,3) by simp
  then show ?thesis
    by (simp add: unit_call_cb_def pzmq_dtor_def after_call_def pzmq_server_def pzmq_init_def)
qed

text \<open>What the node makes of a packed number and two addresses.\<close>

definition unit_reply :: "int \<Rightarrow> string \<Rightarrow> string \<Rightarrow> string" where
  "unit_reply n out inference = set_param (to_string n) (set_param out inference)"

lemma unpack_unit_reply:
  assumes "is_int32 n" and "length out \<le> param0_limit sc" and "length inference \<le> 2147483000"
  shows "unpack_unit sc \<lparr>msg = unit_reply n out inference\<rparr> = Inr (to_string n, out, inference)"
proof -
  have o: "length out \<le> 255" using assms(2) by (simp add: param0_limit_def split: if_splits)
  have l: "length (to_string n) \<le> 11" using assms(1) by (rule length_to_string)
  then have l0: "length (to_string n) \<le> param0_limit sc" by (simp add: param0_limit_def)
  let ?p = "set_param out inference"
  have tot: "length (to_string n) + length ?p < 2147483647" "length out + length inference < 2147483647"
    using o l assms(3) by (simp_all add: length_set_param)
  show ?thesis
    using get_param_packed [OF l0 tot(1), of "[]" "\<lparr>msg = unit_reply n out inference\<rparr>"]
      get_param_packed [OF assms(2) tot(2), of ?p "\<lparr>msg = unit_reply n out inference\<rparr>"]
    by (simp add: unpack_unit_def unit_reply_def)
qed

lemma register_unit_total:
  assumes up: "sys_up (io_env io)" and r: "reply (io_env io) ''register_unit'' nm = Some (unit_reply n out inference)"
    and n: "is_int32 n" and l: "2 \<le> length out" "length out \<le> param0_limit (io_sc io)" "length inference \<le> 2147483000"
    and f: "map_of (llm_task_channel s) n = None"
  shows "\<exists>ch. llm_channel_ctor (io_env io) out inference (sf_unit_name s) = Inr ch \<and>
    node_register_unit io nm s = Inr (n, put_channel n ch s)"
proof -
  have "unpack_cb (io_sc io) \<lparr>msg = unit_reply n out inference\<rparr> ([], [], []) = (Inr (), (to_string n, out, inference))"
    using unpack_unit_reply [OF n l(2,3)] by (simp add: unpack_cb_def)
  then have c: "unit_call_cb (io_env io) ''sys'' ''register_unit'' nm (unpack_cb (io_sc io)) ([], [], []) = Inr (to_string n, out, inference)"
    using sys_call [OF up r, of "unpack_cb (io_sc io)" "([], [], [])" "(to_string n, out, inference)"] by blast
  obtain z :: "unit pzmq" where z: "pzmq_socket (io_env io) out ZMQ_PUB = Inr z"
    using socket_total [of "io_env io" out ZMQ_PUB] up l(1) by (auto simp: sys_up_def)
  then obtain ch :: "'a llm_channel_obj" where "llm_channel_ctor (io_env io) out inference (sf_unit_name s) = Inr ch"
    by (simp add: llm_channel_ctor_def)
  with c n f show ?thesis by (simp add: node_register_unit_def drop_channel_def)
qed

text \<open>The request and the reply address of a well-formed message.\<close>

lemma take_request_packed:
  assumes "length url \<le> param0_limit (io_sc io)" and "length raw < 2147483000"
  shows "\<exists>rid. sample_json_str_get raw ''request_id'' = Inr rid \<and>
    take_request io 1 \<lparr>msg = set_param url raw\<rparr> s = Inr ((url, raw), s\<lparr>sf_request_id := rid, out_zmq_url := url\<rparr>)"
proof -
  have "length url \<le> 255" using assms(1) by (simp add: param0_limit_def split: if_splits)
  then have t: "length url + length raw < 2147483647" using assms(2) by simp
  obtain rid where "sample_json_str_get raw ''request_id'' = Inr rid" using sample_json_str_get_total [of raw "''request_id''"] assms(2) by auto
  with get_param_packed [OF assms(1) t, of "[]" "\<lparr>msg = set_param url raw\<rparr>"] show ?thesis by (simp add: take_request_def)
qed

section \<open>Requests that the base class answers itself\<close>

lemma json_str_get_absent: "quote_c \<notin> set raw \<Longrightarrow> sample_json_str_get raw key = Inr []"
  by (rule sample_json_str_get_absent) (rule str_find_None_char [of quote_c], simp_all add: find_key_def)

text \<open>
  A request to pause ends the node: the base class answers it by an error object where a string is
  expected, and the exception leaves the event thread. It never sees the request itself, as \<^verbatim>\<open>_pause\<close>
  reads the reply address twice. This holds for every node that does not replace the function.
\<close>

theorem pause_request_terminates:
  assumes v: "v_pause (vt io) = base_pause io" and st: "sf_status s \<noteq> 0" "\<not> exit_flage s"
    and u: "length url \<le> param0_limit (io_sc io)" "quote_c \<notin> set url" "length raw < 2147483000"
    and n: "map_of (llm_task_channel s) WORK_ID_NONE = None"
  shows "even_loop vt (((io, EVENT_PAUSE, Some \<lparr>msg = set_param url raw\<rparr>) # es) # rounds) s = Inl Terminate"
proof -
  have "length url \<le> 255" using u(1) by (simp add: param0_limit_def split: if_splits)
  then have "length url + length raw < 2147483647" using u(3) by simp
  from get_param_packed(1) [OF u(1) this, of "[]" "\<lparr>msg = set_param url raw\<rparr>"]
  have t: "take_request io 0 \<lparr>msg = set_param url raw\<rparr> s = Inr ((url, url), s\<lparr>sf_request_id := [], out_zmq_url := url\<rparr>)"
    by (simp add: take_request_def json_str_get_absent [OF u(2)])
  have "sample_get_work_id_num [] = Inr WORK_ID_NONE" by (simp add: sample_get_work_id_num_def str_find_def int_of_pos_def Let_def)
  with n have "try_push_url io [] url (s\<lparr>sf_request_id := [], out_zmq_url := url\<rparr>) = Inr (s\<lparr>sf_request_id := [], out_zmq_url := url\<rparr>)"
    by (simp add: try_push_url_def get_channel_def umap_at_def)
  then have "dispatch_event (vt io) io (EVENT_PAUSE, Some \<lparr>msg = set_param url raw\<rparr>) s = Inl not_a_string"
    using t st(1) v
    by (simp add: dispatch_event_def on_pause_def raw_pause_def json_str_get_absent [OF u(2)] base_pause_def send_error_body_def
        no_action_def error_body_def json_as_string_def)
  with st(2) show ?thesis by (simp add: thread_result_def)
qed

section \<open>Accepting requests\<close>

text \<open>The events that a list of requests puts into the queue, and the reply to each.\<close>

fun queued :: "(string \<times> string) list \<Rightarrow> (LOCAL_EVENT \<times> pzmq_data option) list" where
  "queued [] = []"
| "queued ((a, d) # rs) = (case map_of node_actions a of None \<Rightarrow> queued rs | Some ev \<Rightarrow> (ev, Some \<lparr>msg = d\<rparr>) # queued rs)"

definition rpc_ready :: "LOCAL_EVENT pzmq \<Rightarrow> bool" where
  "rpc_ready srv \<longleftrightarrow> handler srv = map_of node_actions \<and>
     (\<forall>a. map_of (zmq_fun srv) a = Some List_Action \<longleftrightarrow> a = ''list_action'')"

lemma node_register_head:
  assumes "zmq_up env"
  shows "\<exists>s :: 'f pzmq. register env a f (pzmq_server nm) = Inr s \<and>
    zmq_fun s = umap_set a (Action f) [(''list_action'', List_Action)] \<and> mode s = Some ZMQ_RPC_FUN \<and> \<not> flage s"
proof -
  let ?s = "(pzmq_server nm :: 'f pzmq)\<lparr>mode := Some ZMQ_RPC_FUN, zmq_fun := [(''list_action'', List_Action)]\<rparr>"
  let ?url = "rpc_url_head (pzmq_server nm :: 'f pzmq) @ rpc_server (pzmq_server nm :: 'f pzmq)"
  have e: "zmq_fun (pzmq_server nm :: 'f pzmq) = []" "\<not> zmq_thread (pzmq_server nm :: 'f pzmq)"
    by (simp_all add: pzmq_server_def pzmq_init_def)
  have "creat env ?url ?s = Inr (bind_ret env (c_str ?url),
    ?s\<lparr>zmq_url := ?url, zmq_socket := True, flage := False, zmq_thread := True,
      zmq_log := zmq_log ?s @ [ZSocket 4, ZBind (c_str ?url), ZSpawn]\<rparr>)"
    using assms e by (intro creat_rep_server) (simp_all add: zmq_up_def)
  then show ?thesis by (simp add: register_def register_rpc_action_def Let_def e)
qed

lemma register_more:
  "map_of (zmq_fun s) a = None \<Longrightarrow> zmq_fun s \<noteq> [] \<Longrightarrow>
   register env a f s = Inr (s\<lparr>zmq_fun := zmq_fun s @ [(a, Action f)]\<rparr>)"
  by (simp add: register_def register_rpc_action_def Let_def umap_set_fresh)

lemma StackFlow_ctor_total:
  assumes "zmq_up env"
  shows "\<exists>s :: 'c StackFlow. StackFlow_ctor env nm = Inr s \<and> sf_unit_name s = nm \<and> sf_status s = 1 \<and> \<not> exit_flage s \<and>
    even_loop_thread s \<and> event_queue s = [] \<and> llm_task_channel s = [] \<and> rpc_ready (rpc_ctx s) \<and>
    mode (rpc_ctx s) = Some ZMQ_RPC_FUN \<and> \<not> flage (rpc_ctx s)"
proof -
  obtain s :: "LOCAL_EVENT pzmq" where s: "register env ''setup'' EVENT_SETUP (pzmq_server nm) = Inr s"
    "zmq_fun s = [(''list_action'', List_Action), (''setup'', Action EVENT_SETUP)]" "mode s = Some ZMQ_RPC_FUN" "\<not> flage s"
    using node_register_head [OF assms, of "''setup''" EVENT_SETUP nm] by auto
  let ?f = "zmq_fun s @ [(''pause'', Action EVENT_PAUSE), (''exit'', Action EVENT_EXIT), (''taskinfo'', Action EVENT_TASKINFO)]"
  have "reg_all (register env) node_actions (pzmq_server nm) = Inr (s\<lparr>zmq_fun := ?f\<rparr>)"
    using s(1,2) by (simp add: node_actions_def register_more)
  moreover have "rpc_ready (s\<lparr>zmq_fun := ?f\<rparr>)"
    by (auto simp: rpc_ready_def s(2) handler_def fun_eq_iff node_actions_def)
  ultimately show ?thesis using s(3,4) by (simp add: StackFlow_ctor_def)
qed

lemma node_dispatch:
  assumes "rpc_ready srv"
  shows "rpc_dispatch node_rpc srv a d s =
    (case map_of node_actions a of
       Some ev \<Rightarrow> (Inr ''None'', s\<lparr>event_queue := event_queue s @ [(ev, Some d)]\<rparr>)
     | None \<Rightarrow> (if a = ''list_action'' then rpc_list_action srv else Inr ''NotAction'', s))"
proof (cases "map_of node_actions a")
  case (Some ev)
  with assms have "handler srv a = Some ev" by (simp add: rpc_ready_def)
  with Some show ?thesis by (simp add: rpc_dispatch_found node_rpc_def)
next
  case None
  show ?thesis
  proof (cases "a = ''list_action''")
    case True
    with assms have l: "map_of (zmq_fun srv) a = Some List_Action" by (simp add: rpc_ready_def)
    then obtain r where "rpc_list_action srv = Inr r" using rpc_list_action_serving by blast
    with None True l show ?thesis by (simp add: rpc_dispatch_def umap_at_def)
  next
    case False
    with assms None have "handler srv a = None" "map_of (zmq_fun srv) a \<noteq> Some List_Action" by (simp_all add: rpc_ready_def)
    then have "map_of (zmq_fun srv) a = None" by (auto simp: handler_def split: option.splits action.splits)
    with None False show ?thesis by (simp add: rpc_dispatch_missing)
  qed
qed

lemma node_serves:
  assumes "rpc_ready srv"
  shows "\<exists>lst. rpc_list_action srv = Inr lst \<and> serve node_rpc srv rs s =
    (Inr (map (\<lambda>(a, _). if map_of node_actions a \<noteq> None then ''None'' else if a = ''list_action'' then lst else ''NotAction'') rs),
     s\<lparr>event_queue := event_queue s @ queued rs\<rparr>)"
proof -
  have "map_of (zmq_fun srv) ''list_action'' = Some List_Action" using assms by (simp add: rpc_ready_def)
  then obtain lst where l: "rpc_list_action srv = Inr lst" using rpc_list_action_serving by blast
  have "serve node_rpc srv rs s =
    (Inr (map (\<lambda>(a, _). if map_of node_actions a \<noteq> None then ''None'' else if a = ''list_action'' then lst else ''NotAction'') rs),
     s\<lparr>event_queue := event_queue s @ queued rs\<rparr>)"
    by (induction rs arbitrary: s) (auto simp: node_dispatch [OF assms] l split: option.splits)
  with l show ?thesis by blast
qed

text \<open>
  C15. A node takes every request at once and loses none: after construction, whatever requests arrive
  on its RPC socket, each is answered, the four actions of a node by \<^verbatim>\<open>None\<close>, unknown ones by \<^verbatim>\<open>NotAction\<close>,
  and the queue then holds exactly the messages of the node's actions, once each, in the order of
  arrival; nothing else of the node changes in the receiving thread.
\<close>

theorem node_accepts_requests:
  assumes "zmq_up env"
  shows "\<exists>s :: 'c StackFlow. StackFlow_ctor env nm = Inr s \<and> sf_status s = 1 \<and>
    (\<forall>zs. (\<forall>z \<in> set zs. recv_ret z > 0) \<longrightarrow>
      (\<exists>lst. zmq_event_loop node_rpc raw_call zs s (rpc_ctx s) =
        (Inr (), s\<lparr>event_queue := queued (map request_of zs)\<rparr>,
         zcalls (concat (map (\<lambda>z. [ZRecv, ZRecv, ZSend (if map_of node_actions (part1 z) \<noteq> None then ''None''
           else if part1 z = ''list_action'' then lst else ''NotAction'') False]) zs)) (rpc_ctx s))))"
proof -
  obtain s :: "'c StackFlow" where s: "StackFlow_ctor env nm = Inr s" "sf_status s = 1" "event_queue s = []" "rpc_ready (rpc_ctx s)"
    "mode (rpc_ctx s) = Some ZMQ_RPC_FUN" "\<not> flage (rpc_ctx s)"
    using StackFlow_ctor_total [OF assms] by blast
  have "\<exists>lst. zmq_event_loop node_rpc raw_call zs s (rpc_ctx s) =
        (Inr (), s\<lparr>event_queue := queued (map request_of zs)\<rparr>,
         zcalls (concat (map (\<lambda>z. [ZRecv, ZRecv, ZSend (if map_of node_actions (part1 z) \<noteq> None then ''None''
           else if part1 z = ''list_action'' then lst else ''NotAction'') False]) zs)) (rpc_ctx s))"
    if "\<forall>z \<in> set zs. recv_ret z > 0" for zs
  proof -
    obtain lst where v: "serve node_rpc (rpc_ctx s) (map request_of zs) s =
      (Inr (map (\<lambda>(a, _). if map_of node_actions a \<noteq> None then ''None'' else if a = ''list_action'' then lst else ''NotAction'') (map request_of zs)),
       s\<lparr>event_queue := event_queue s @ queued (map request_of zs)\<rparr>)"
      using node_serves [OF s(4)] by blast
    show ?thesis
      using zmq_event_loop_serves [OF s(5,6) that v, of raw_call] s(3)
      by (intro exI [of _ lst]) (simp add: comp_def request_of_def)
  qed
  with s(1,2) show ?thesis by blast
qed

theorem node_accepts_requests_witness:
  "\<exists>s :: unit StackFlow. StackFlow_ctor demo_env ''llm'' = Inr s \<and>
     (\<exists>srv. zmq_event_loop node_rpc (\<lambda>d w. (Inr (), w)) [demo_request ''setup'', demo_request ''ping'', demo_request ''exit''] s (rpc_ctx s) =
       (Inr (), s\<lparr>event_queue := [(EVENT_SETUP, Some \<lparr>msg = ''x''\<rparr>), (EVENT_EXIT, Some \<lparr>msg = ''x''\<rparr>)]\<rparr>, srv))"
proof -
  have "zmq_up demo_env" by (auto simp: demo_env_def zmq_up_def)
  from node_accepts_requests [OF this, of "''llm''" "\<lambda>d w. (Inr (), w)"] obtain s :: "unit StackFlow" where
    s: "StackFlow_ctor demo_env ''llm'' = Inr s" and
    l: "\<forall>zs. (\<forall>z \<in> set zs. recv_ret z > 0) \<longrightarrow> (\<exists>srv. zmq_event_loop node_rpc (\<lambda>d w. (Inr (), w)) zs s (rpc_ctx s) =
      (Inr (), s\<lparr>event_queue := queued (map request_of zs)\<rparr>, srv))" by blast
  let ?zs = "[demo_request ''setup'', demo_request ''ping'', demo_request ''exit'']"
  have "\<forall>z \<in> set ?zs. recv_ret z > 0" by (simp add: demo_request_def)
  moreover have "queued (map request_of ?zs) = [(EVENT_SETUP, Some \<lparr>msg = ''x''\<rparr>), (EVENT_EXIT, Some \<lparr>msg = ''x''\<rparr>)]"
    by (simp add: demo_request_def request_of_def node_actions_def)
  ultimately show ?thesis using l s by metis
qed

definition demo_io :: node_io where
  "demo_io = \<lparr>io_env = demo_env, io_sc = True, io_now = 0\<rparr>"

theorem pause_request_terminates_witness:
  "\<exists>s :: unit StackFlow. StackFlow_ctor demo_env ''llm'' = Inr s \<and>
     even_loop base_vtable [[(demo_io, EVENT_PAUSE, Some \<lparr>msg = set_param ''ipc:///tmp/llm/9.sock'' ''{}''\<rparr>)]] s = Inl Terminate"
proof -
  have "zmq_up demo_env" by (auto simp: demo_env_def zmq_up_def)
  from StackFlow_ctor_total [OF this, of "''llm''"] obtain s :: "unit StackFlow" where
    s: "StackFlow_ctor demo_env ''llm'' = Inr s" "sf_status s = 1" "\<not> exit_flage s" "llm_task_channel s = []" by blast
  from pause_request_terminates [of base_vtable demo_io s "''ipc:///tmp/llm/9.sock''" "''{}''" "[]" "[]"] s show ?thesis
    by (simp add: base_vtable_def demo_io_def param0_limit_def)
qed

end
