(* ===== verification/LlmNode.thy ===== *)
theory LlmNode
  imports StackFlow JsonParse
begin

text \<open>
  The language-model node (\<^verbatim>\<open>node/test/src/main.cpp\<close>): its tasks, and the functions it overrides of the base
  class. A task object is known by its address, so that the weak pointers bound into callbacks can
  be followed: a callback is the address of the task and the number under which its channel is
  kept. The two \<^verbatim>\<open>static\<close> variables of the member functions are fields of the node.
\<close>

section \<open>Tasks\<close>

type_synonym task_ref = "nat \<times> int"

record llm_task =
  t_addr :: nat
  t_model :: string
  response_format :: string
  t_inputs :: "string list"
  out_callback :: "task_ref option"
  t_enoutput :: "bool option"
  t_enstream :: "bool option"

definition llm_task_ctor :: "nat \<Rightarrow> llm_task" where
  "llm_task_ctor a = \<lparr>t_addr = a, t_model = [], response_format = [], t_inputs = [], out_callback = None,
     t_enoutput = None, t_enstream = None\<rparr>"

definition task_set_output :: "task_ref \<Rightarrow> llm_task \<Rightarrow> llm_task" where
  "task_set_output cb t = t\<lparr>out_callback := Some cb\<rparr>"

text \<open>The loop over an array of inputs: whether it threw, and the task then.\<close>

fun push_inputs :: "json list \<Rightarrow> llm_task \<Rightarrow> bool \<times> llm_task" where
  "push_inputs [] t = (False, t)"
| "push_inputs (v # vs) t =
     (case json_as_string v of Inl _ \<Rightarrow> (True, t) | Inr x \<Rightarrow> push_inputs vs (t\<lparr>t_inputs := t_inputs t @ [x]\<rparr>))"

definition parse_input :: "json \<Rightarrow> llm_task \<Rightarrow> bool \<times> llm_task" where
  "parse_input config_body t =
     (if json_contains ''input'' config_body
      then (case json_index ''input'' config_body of
              Inl _ \<Rightarrow> (True, t)
            | Inr (JStr x) \<Rightarrow> (False, t\<lparr>t_inputs := t_inputs t @ [x]\<rparr>)
            | Inr (JArr vs) \<Rightarrow> push_inputs vs t
            | Inr _ \<Rightarrow> (False, t))
      else (False, t))"

text \<open>\<^verbatim>\<open>parse_config\<close> gives true on failure, with the members assigned so far.\<close>

definition parse_config :: "json \<Rightarrow> llm_task \<Rightarrow> bool \<times> llm_task" where
  "parse_config config_body t =
     (case bind_res (json_at ''model'' config_body) json_as_string of
        Inl _ \<Rightarrow> (True, t)
      | Inr md \<Rightarrow>
        (let t1 = t\<lparr>t_model := md\<rparr> in
         case bind_res (json_at ''response_format'' config_body) json_as_string of
           Inl _ \<Rightarrow> (True, t1)
         | Inr rf \<Rightarrow>
           (let t2 = t1\<lparr>response_format := rf\<rparr> in
            case bind_res (json_at ''enoutput'' config_body) json_as_bool of
              Inl _ \<Rightarrow> (True, t2)
            | Inr b \<Rightarrow>
              (case parse_input config_body (t2\<lparr>t_enoutput := Some b\<rparr>) of
                 (True, t3) \<Rightarrow> (True, t3)
               | (False, t3) \<Rightarrow> (False, t3\<lparr>t_enstream := Some (str_find (response_format t3) ''stream'' 0 \<noteq> None)\<rparr>)))))"

definition load_model :: "json \<Rightarrow> llm_task \<Rightarrow> int \<times> llm_task" where
  "load_model config_body t = (case parse_config config_body t of (True, t1) \<Rightarrow> (-1, t1) | (False, t1) \<Rightarrow> (0, t1))"

section \<open>The node\<close>

record llm_llm = "task_ref StackFlow" +
  task_count :: int
  llm_tasks :: "(int, llm_task) umap"
  next_task :: nat
  stream_index :: int
  stream_buff :: "(int, string) umap"

definition llm_llm_ctor :: "zenv \<Rightarrow> llm_llm res" where
  "llm_llm_ctor env =
     bind_res (StackFlow_ctor env ''llm'') (\<lambda>base :: task_ref StackFlow.
     Inr (StackFlow.StackFlow.extend base \<lparr>task_count = 3, llm_tasks = [], next_task = 0, stream_index = 0, stream_buff = []\<rparr>))"

text \<open>\<^verbatim>\<open>lock()\<close> of the two weak pointers of a callback.\<close>

definition lock_ref :: "task_ref \<Rightarrow> llm_llm \<Rightarrow> (llm_task \<times> task_ref llm_channel_obj) option" where
  "lock_ref r s =
     (case (map_of (llm_tasks s) (snd r), map_of (llm_task_channel s) (snd r)) of
        (Some t, Some ch) \<Rightarrow> if t_addr t = fst r then Some (t, ch) else None
      | _ \<Rightarrow> None)"

text \<open>The sending of a result on the channel of a task.\<close>

definition task_reply :: "node_io \<Rightarrow> int \<Rightarrow> llm_task \<Rightarrow> json \<Rightarrow> task_ref llm_channel_obj \<Rightarrow> llm_llm \<Rightarrow> llm_llm res" where
  "task_reply io n t data ch s =
     bind_res (lc_send (io_now io) (response_format t) data [] [] ch) (\<lambda>(_, ch1). Inr (put_channel n ch1 s))"

text \<open>\<^verbatim>\<open>count++\<close> is undefined at the largest \<^verbatim>\<open>int\<close>.\<close>

definition task_output :: "node_io \<Rightarrow> task_ref \<Rightarrow> string \<Rightarrow> bool \<Rightarrow> llm_llm \<Rightarrow> llm_llm res" where
  "task_output io r data finish s =
     (case lock_ref r s of
        None \<Rightarrow> Inr s
      | Some (t, ch) \<Rightarrow>
          bind_res (lc_flag (enstream ch)) (\<lambda>b.
          if b
          then if stream_index s = 2147483647 then Inl Undefined_Behaviour
               else task_reply io (snd r) t
                      (JObj [(''index'', JNum (stream_index s)), (''delta'', JStr (if finish then [] else data)), (''finish'', JBool finish)])
                      ch (s\<lparr>stream_index := (if finish then 0 else stream_index s + 1)\<rparr>)
          else if finish then task_reply io (snd r) t (JStr data) ch s
          else Inr s))"

definition inference :: "node_io \<Rightarrow> string \<Rightarrow> llm_task \<Rightarrow> llm_llm \<Rightarrow> llm_llm res" where
  "inference io m t s =
     (case out_callback t of
        None \<Rightarrow> Inr s
      | Some cb \<Rightarrow>
          bind_res (task_output io cb m False s) (\<lambda>s1.
          bind_res (task_output io cb ''hello'' False s1) (\<lambda>s2.
          task_output io cb [] True s2)))"

text \<open>Called by the subscription of a task's channel, in the thread of that socket.\<close>

definition task_user_data :: "node_io \<Rightarrow> task_ref \<Rightarrow> string \<Rightarrow> string \<Rightarrow> llm_llm \<Rightarrow> llm_llm res" where
  "task_user_data io r object data s =
     (case lock_ref r s of
        None \<Rightarrow> send_error_body io (error_body (-11) ''Model run failed.'') (sf_unit_name s) s
      | Some (t, _) \<Rightarrow>
          if data = [] \<or> data = ''None''
          then send_error_body io (error_body (-24) ''The inference data is empty.'') (sf_unit_name s) s
          else if str_find object ''stream'' 0 \<noteq> None
          then (case decode_stream data [] (stream_buff s) of
                  (Inl e, _, buff) \<Rightarrow>
                    if catchable e
                    then send_error_body io (error_body (-25) ''Stream data index error.'') (sf_unit_name s) (s\<lparr>stream_buff := []\<rparr>)
                    else Inl e
                | (Inr True, _, buff) \<Rightarrow> Inr (s\<lparr>stream_buff := buff\<rparr>)
                | (Inr False, tmp_msg, buff) \<Rightarrow> inference io tmp_msg t (s\<lparr>stream_buff := buff\<rparr>))
          else inference io data t s)"

text \<open>The functions that the node overrides.\<close>

definition llm_setup :: "node_io \<Rightarrow> string \<Rightarrow> string \<Rightarrow> string \<Rightarrow> llm_llm \<Rightarrow> (int \<times> llm_llm) res" where
  "llm_setup io wid object data s =
     (if sz_sub (length (llm_task_channel s)) 1 = size_of_int (task_count s)
      then bind_res (send_error_body io (error_body (-21) ''task full'') (sf_unit_name s) s) (\<lambda>s1. Inr (-1, s1))
      else
        bind_res (sample_get_work_id_num wid) (\<lambda>n.
        bind_res (get_channel_id wid s) (\<lambda>ch.
        let t = llm_task_ctor (next_task s); s0 = s\<lparr>next_task := next_task s + 1\<rparr> in
        case json_parse data of
          Inl e \<Rightarrow>
            if catchable e
            then bind_res (send_error_body io (error_body (-2) ''json format error.'') (sf_unit_name s0) s0) (\<lambda>s1. Inr (-2, s1))
            else Inl e
        | Inr config_body \<Rightarrow>
            (case load_model config_body t of
               (ret, t1) \<Rightarrow>
                 if ret = 0
                 then bind_res (lc_flag (t_enstream t1)) (\<lambda>b.
                      bind_res (subscriber_work_id (io_env io) [] (t_addr t1, n) (lc_set_stream b (lc_set_output True ch))) (\<lambda>(_, ch1).
                      bind_res (node_send io ''None'' (JStr ''None'') [] wid []
                                  (put_channel n ch1 (s0\<lparr>llm_tasks := umap_set n (task_set_output (t_addr t1, n) t1) (llm_tasks s0)\<rparr>))) (\<lambda>s1.
                      Inr (0, s1))))
                 else bind_res (send_error_body io (error_body (-5) ''Model loading failed.'') (sf_unit_name s0) s0) (\<lambda>s1. Inr (-1, s1))))))"

definition llm_taskinfo :: "node_io \<Rightarrow> string \<Rightarrow> string \<Rightarrow> string \<Rightarrow> llm_llm \<Rightarrow> llm_llm res" where
  "llm_taskinfo io wid object data s =
     bind_res (sample_get_work_id_num wid) (\<lambda>n.
     if n = WORK_ID_NONE
     then node_send io ''llm.tasklist'' (JArr (map (\<lambda>(_, ch). JStr (lc_work_id ch)) (llm_task_channel s))) [] wid [] s
     else case map_of (llm_tasks s) n of
            None \<Rightarrow> send_error_body io (error_body (-6) ''Unit Does Not Exist'') wid s
          | Some t \<Rightarrow>
              bind_res (lc_flag (t_enoutput t)) (\<lambda>b.
              node_send io ''llm.taskinfo''
                (JObj [(''model'', JStr (t_model t)), (''response_format'', JStr (response_format t)), (''enoutput'', JBool b),
                       (''inputs'', JArr (map JStr (t_inputs t)))]) [] wid [] s))"

definition llm_exit :: "node_io \<Rightarrow> string \<Rightarrow> string \<Rightarrow> string \<Rightarrow> llm_llm \<Rightarrow> (int \<times> llm_llm) res" where
  "llm_exit io wid object data s =
     bind_res (sample_get_work_id_num wid) (\<lambda>n.
     if map_of (llm_tasks s) n = None
     then bind_res (send_error_body io (error_body (-6) ''Unit Does Not Exist'') wid s) (\<lambda>s1. Inr (-1, s1))
     else
       bind_res (get_channel n s) (\<lambda>ch.
       bind_res (stop_subscriber (io_env io) [] ch) (\<lambda>ch1.
       bind_res (node_send io ''None'' (JStr ''None'') [] wid []
                   (put_channel n ch1 (s\<lparr>llm_tasks := umap_erase n (llm_tasks s)\<rparr>))) (\<lambda>s1.
       Inr (0, s1)))))"

definition llm_vtable :: "node_io \<Rightarrow> llm_llm vtable" where
  "llm_vtable io = \<lparr>v_setup = llm_setup io, v_exit = llm_exit io, v_pause = base_pause io, v_taskinfo = llm_taskinfo io\<rparr>"

text \<open>The destructor: the loop over the tasks, then that of the base class.\<close>

fun stop_tasks :: "node_io \<Rightarrow> (int, llm_task) umap \<Rightarrow> llm_llm \<Rightarrow> llm_llm res" where
  "stop_tasks io [] s = Inr s"
| "stop_tasks io ((n, t) # ts) s =
     bind_res (get_channel n s) (\<lambda>ch.
     bind_res (stop_subscriber (io_env io) [] ch) (\<lambda>ch1.
     stop_tasks io ts (put_channel n ch1 (s\<lparr>llm_tasks := umap_erase n (llm_tasks s)\<rparr>))))"

definition llm_llm_dtor :: "node_io \<Rightarrow> llm_llm \<Rightarrow> llm_llm res" where
  "llm_llm_dtor io s = bind_res (thread_result (stop_tasks io (llm_tasks s) s)) (StackFlow_dtor io)"

text \<open>A message on the subscription of the channel with number \<open>n\<close>, as the thread of its socket handles it.\<close>

definition channel_message :: "node_io \<Rightarrow> int \<Rightarrow> int \<Rightarrow> pzmq_data \<Rightarrow> llm_llm \<Rightarrow> llm_llm res" where
  "channel_message io n k d s =
     bind_res (get_channel n s) (\<lambda>ch.
     case slot ch k of
       Some (_, Some r) \<Rightarrow>
         thread_result (bind_res (subscriber_event_call (io_env io) d ch) (\<lambda>((object, data), ch1).
           task_user_data io r object data (put_channel n ch1 s)))
     | _ \<Rightarrow> Inr s)"

section \<open>Error replies\<close>

lemma error_reply_throws [simp]: "send_error_body io (error_body c m) wid s = Inl not_a_string"
  by (simp add: send_error_body_def error_body_def json_as_string_def)

section \<open>The invariant of the node\<close>

text \<open>
  The channel of a running task: it passes results on, its publisher is open, and messages on its
  inference address reach the task.
\<close>

definition chan_ready :: "task_ref llm_channel_obj \<Rightarrow> llm_task \<Rightarrow> int \<Rightarrow> bool" where
  "chan_ready ch t n \<longleftrightarrow> enoutput ch = Some True \<and> enstream ch = t_enstream t \<and> t_enstream t \<noteq> None \<and> usr_ok ch \<and>
     (\<exists>z. slot ch (-1) = Some (z, None)) \<and> (\<exists>z. slot ch 0 = Some (z, Some (t_addr t, n)))"

definition task_ok :: "llm_llm \<Rightarrow> int \<Rightarrow> llm_task \<Rightarrow> bool" where
  "task_ok s n t \<longleftrightarrow> n \<noteq> WORK_ID_NONE \<and> out_callback t = Some (t_addr t, n) \<and> t_enoutput t \<noteq> None \<and> utf8 (response_format t) \<and>
     (\<exists>ch. map_of (llm_task_channel s) n = Some ch \<and> chan_ready ch t n)"

definition node_core :: "llm_llm \<Rightarrow> bool" where
  "node_core s \<longleftrightarrow> sf_unit_name s = ''llm'' \<and> sf_status s = 1 \<and> task_count s = 3 \<and> umap_wf (llm_task_channel s) \<and> umap_wf (llm_tasks s) \<and>
     fst ` set (llm_task_channel s) = fst ` set (llm_tasks s) \<and> length (llm_tasks s) \<le> 3 \<and>
     (\<forall>n t. map_of (llm_tasks s) n = Some t \<longrightarrow> task_ok s n t)"

definition node_ok :: "llm_llm \<Rightarrow> bool" where
  "node_ok s \<longleftrightarrow> node_core s \<and> stream_index s = 0"

lemma node_core_cong:
  "sf_unit_name s' = sf_unit_name s \<Longrightarrow> sf_status s' = sf_status s \<Longrightarrow> task_count s' = task_count s \<Longrightarrow> llm_task_channel s' = llm_task_channel s \<Longrightarrow>
   llm_tasks s' = llm_tasks s \<Longrightarrow> node_core s' = node_core s"
  by (simp add: node_core_def task_ok_def)

lemma node_core_simps [simp]:
  "node_core (s\<lparr>sf_pushed := x\<rparr>) = node_core s" "node_core (s\<lparr>event_queue := q\<rparr>) = node_core s"
  "node_core (s\<lparr>sf_request_id := a, out_zmq_url := b\<rparr>) = node_core s" "node_core (s\<lparr>stream_index := i\<rparr>) = node_core s"
  "node_core (s\<lparr>stream_buff := f\<rparr>) = node_core s" "node_core (s\<lparr>next_task := k\<rparr>) = node_core s"
  by (rule node_core_cong, simp_all)+

lemma put_channel_fields [simp]:
  "llm_tasks (put_channel n ch s) = llm_tasks s" "task_count (put_channel n ch s) = task_count s"
  "stream_index (put_channel n ch s) = stream_index s" "next_task (put_channel n ch s) = next_task s"
  "stream_buff (put_channel n ch s) = stream_buff s" "sf_status (put_channel n ch s) = sf_status s"
  by (simp_all add: put_channel_def)

lemma keys_update: "fst ` set (umap_set k v m) = insert k (fst ` set m)"
  by (simp add: dom_map_of_conv_image_fst [symmetric])

lemma length_umap: "umap_wf m \<Longrightarrow> length m = card (fst ` set m)"
  by (metis distinct_card length_map set_map)

lemma node_core_ok: "node_core s \<Longrightarrow> map_of (llm_tasks s) n = Some t \<Longrightarrow> task_ok s n t"
  unfolding node_core_def by blast

lemma node_core_put:
  assumes "node_core s" and "map_of (llm_tasks s) n = Some t" and "chan_ready ch t n"
  shows "node_core (put_channel n ch s)"
proof -
  have "n \<in> fst ` set (llm_tasks s)" using assms(2) by (metis map_of_SomeD fst_conv imageI)
  moreover have "task_ok (put_channel n ch s) n' t'" if t': "map_of (llm_tasks s) n' = Some t'" for n' t'
    using node_core_ok [OF assms(1) t'] assms(2,3) t' by (cases "n' = n") (simp_all add: task_ok_def)
  ultimately show ?thesis using assms(1) unfolding node_core_def put_channel_fields put_channel_simps keys_update
    by (simp add: insert_absorb)
qed

lemma node_core_task:
  assumes "node_core s" and "map_of (llm_tasks s) n = Some t"
  obtains ch where "map_of (llm_task_channel s) n = Some ch" "chan_ready ch t n" "out_callback t = Some (t_addr t, n)"
  using node_core_ok [OF assms] by (auto simp: task_ok_def)

lemma node_core_channel:
  assumes "node_core s" and "map_of (llm_task_channel s) n = Some ch"
  obtains t where "map_of (llm_tasks s) n = Some t" "chan_ready ch t n"
proof -
  have "n \<in> fst ` set (llm_tasks s)" using assms by (metis node_core_def map_of_SomeD fst_conv imageI)
  then obtain t where t: "map_of (llm_tasks s) n = Some t" by (metis map_of_eq_None_iff not_None_eq)
  from node_core_task [OF assms(1) t] assms(2) t that show ?thesis by auto
qed

section \<open>Channels in use\<close>

definition same_task_slots :: "task_ref llm_channel_obj \<Rightarrow> task_ref llm_channel_obj \<Rightarrow> bool" where
  "same_task_slots ch ch' \<longleftrightarrow> enoutput ch' = enoutput ch \<and> enstream ch' = enstream ch \<and> (\<forall>k. k \<noteq> -2 \<longrightarrow> slot ch' k = slot ch k) \<and>
     (usr_ok ch \<longrightarrow> usr_ok ch')"

lemma same_task_slots_ready: "same_task_slots ch ch' \<Longrightarrow> chan_ready ch t n \<Longrightarrow> chan_ready ch' t n"
  by (simp add: same_task_slots_def chan_ready_def)

lemma put_flags: "lc_put env k e ch = Inr ch' \<Longrightarrow> enoutput ch' = enoutput ch \<and> enstream ch' = enstream ch \<and>
    request_id ch' = request_id ch \<and> lc_work_id ch' = lc_work_id ch"
  by (auto simp: lc_put_def lc_drop_def res_simps split: option.splits)

lemma set_push_url_same: "set_push_url env u ch = Inr ch' \<Longrightarrow> same_task_slots ch ch'"
  using slot_put(1) [of env "-2" _ "ch\<lparr>lc_output_url := u\<rparr>" ch'] put_flags [of env "-2" _ "ch\<lparr>lc_output_url := u\<rparr>" ch']
    set_push_url_usr [of env u ch ch']
  by (auto simp: set_push_url_def res_simps same_task_slots_def split: if_splits)

lemma event_call_same: "subscriber_event_call env d ch = Inr (a, ch') \<Longrightarrow> same_task_slots ch ch'"
  by (auto simp: subscriber_event_call_def Let_def res_simps same_task_slots_def split: if_splits dest!: set_push_url_same)

lemma lc_send_ready:
  assumes "enoutput ch = Some True" and "slot ch (-1) = Some (z, None)" and "json_dump (lc_body now ob d e w ch) = Inr tx"
  shows "\<exists>r ch'. lc_send now ob d e w ch = Inr (r, ch') \<and> slot ch' (-1) = Some (send_data (tx @ [CHR 0x0A]) z, None) \<and>
    slot ch' (-2) = map_option (apfst (send_data (tx @ [CHR 0x0A]))) (slot ch (-2)) \<and> lc_output_url ch' = lc_output_url ch \<and>
    (\<forall>k. k \<noteq> -1 \<and> k \<noteq> -2 \<longrightarrow> slot ch' k = slot ch k) \<and> enoutput ch' = enoutput ch \<and> enstream ch' = enstream ch \<and>
    request_id ch' = request_id ch \<and> lc_work_id ch' = lc_work_id ch"
  using assms by (auto simp: lc_send_def Let_def send_raw_to_pub_def lc_flag_def send_raw_to_usr_def slot_def split: option.splits)

section \<open>Inference\<close>

text \<open>A task with a ready channel, its publisher and its socket to the user, which make the same calls.\<close>

type_synonym outputs = "unit pzmq \<times> (unit pzmq \<times> task_ref option) option"

definition out_calls :: "zcall list \<Rightarrow> outputs \<Rightarrow> outputs" where
  "out_calls cs z = (zcalls cs (fst z), map_option (apfst (zcalls cs)) (snd z))"

lemma send_data_calls: "send_data raw = zcalls [ZSend raw False]"
  by (rule ext) (simp add: send_data_def)

lemma out_calls_app: "out_calls cs (out_calls ds z) = out_calls (ds @ cs) z"
  by (cases "snd z") (auto simp: out_calls_def zcalls_def)

definition task_at :: "llm_llm \<Rightarrow> int \<Rightarrow> llm_task \<Rightarrow> task_ref llm_channel_obj \<Rightarrow> outputs \<Rightarrow> bool" where
  "task_at s n t ch z \<longleftrightarrow> node_core s \<and> map_of (llm_tasks s) n = Some t \<and> map_of (llm_task_channel s) n = Some ch \<and>
     chan_ready ch t n \<and> slot ch (-1) = Some (fst z, None) \<and> slot ch (-2) = snd z"

definition task_body :: "node_io \<Rightarrow> llm_task \<Rightarrow> task_ref llm_channel_obj \<Rightarrow> json \<Rightarrow> json" where
  "task_body io t ch data = lc_body (io_now io) (response_format t) data [] [] ch"

definition stream_body :: "int \<Rightarrow> string \<Rightarrow> bool \<Rightarrow> json" where
  "stream_body i delta fin = JObj [(''index'', JNum i), (''delta'', JStr delta), (''finish'', JBool fin)]"

text \<open>The texts that go into every message of a task are well-formed.\<close>

definition task_texts :: "llm_task \<Rightarrow> task_ref llm_channel_obj \<Rightarrow> bool" where
  "task_texts t ch \<longleftrightarrow> utf8 (request_id ch) \<and> utf8 (lc_work_id ch) \<and> utf8 (response_format t)"

lemma utf8_Nil [simp]: "utf8 []"
  by (simp add: utf8_ascii)

lemma json_ok_task_body: "task_texts t ch \<Longrightarrow> json_ok (task_body io t ch data) = json_ok data"
  by (auto simp: task_body_def lc_body_def task_texts_def)

lemma json_ok_stream_body: "-(2 ^ 31) \<le> i \<Longrightarrow> i < 2 ^ 31 \<Longrightarrow> json_ok (stream_body i delta fin) = utf8 delta"
proof -
  assume "-(2 ^ 31) \<le> i" "i < 2 ^ 31"
  moreover have "utf8 ''index''" "utf8 ''delta''" "utf8 ''finish''" by (simp_all add: utf8_ascii)
  ultimately show ?thesis by (simp add: stream_body_def)
qed

text \<open>A reply that is sent leaves the task in place; it is sent when it can be printed.\<close>

lemma task_reply_at:
  assumes "task_at s n t ch z" and "json_dump (task_body io t ch data) = Inr tx"
  shows "\<exists>s' ch'. task_reply io n t data ch s = Inr s' \<and> stream_index s' = stream_index s \<and> task_at s' n t ch' (out_calls [ZSend (tx @ [CHR 0x0A]) False] z) \<and>
    (\<forall>d. task_body io t ch' d = task_body io t ch d) \<and> task_texts t ch' = task_texts t ch"
proof -
  have r: "chan_ready ch t n" "slot ch (-1) = Some (fst z, None)" "node_core s" "map_of (llm_tasks s) n = Some t" "slot ch (-2) = snd z"
    using assms by (simp_all add: task_at_def)
  have eo: "enoutput ch = Some True" using r(1) by (simp add: chan_ready_def)
  obtain x ch' where c: "lc_send (io_now io) (response_format t) data [] [] ch = Inr (x, ch')"
    "slot ch' (-1) = Some (send_data (tx @ [CHR 0x0A]) (fst z), None)" "\<forall>k. k \<noteq> -1 \<and> k \<noteq> -2 \<longrightarrow> slot ch' k = slot ch k"
    "enoutput ch' = enoutput ch" "enstream ch' = enstream ch" "request_id ch' = request_id ch" "lc_work_id ch' = lc_work_id ch"
    "slot ch' (-2) = map_option (apfst (send_data (tx @ [CHR 0x0A]))) (slot ch (-2))" "lc_output_url ch' = lc_output_url ch"
    using lc_send_ready [OF eo r(2) assms(2) [unfolded task_body_def]] by auto
  have "usr_ok ch'" using r(1) c(8,9) by (auto simp: chan_ready_def usr_ok_def send_data_def zcalls_def split: option.splits)
  then have "chan_ready ch' t n" using r(1) c(2,3,4,5) by (simp add: chan_ready_def)
  with node_core_put [OF r(3,4)] r(4,5) c(2,8) have "task_at (put_channel n ch' s) n t ch' (out_calls [ZSend (tx @ [CHR 0x0A]) False] z)"
    by (simp add: task_at_def out_calls_def send_data_calls)
  moreover have "\<forall>d. task_body io t ch' d = task_body io t ch d" "task_texts t ch' = task_texts t ch"
    using c(6,7) by (simp_all add: task_body_def lc_body_def task_texts_def)
  moreover have "task_reply io n t data ch s = Inr (put_channel n ch' s)" using c(1) by (simp add: task_reply_def)
  ultimately show ?thesis by (intro exI [of _ "put_channel n ch' s"] exI [of _ ch']) simp
qed

lemma task_reply_dumped: "task_reply io n t data ch s = Inr s' \<Longrightarrow> \<exists>tx. json_dump (task_body io t ch data) = Inr tx"
  by (auto simp: task_reply_def lc_send_def task_body_def res_simps)

lemma task_reply_invalid:
  assumes "json_dump (task_body io t ch data) = Inl e"
  shows "task_reply io n t data ch s = Inl e"
  using assms by (simp add: task_reply_def lc_send_def task_body_def)

lemma lock_ref_at: "task_at s n t ch z \<Longrightarrow> lock_ref (t_addr t, n) s = Some (t, ch)"
  by (simp add: task_at_def lock_ref_def)

lemma task_at_index [simp]: "task_at (s\<lparr>stream_index := i\<rparr>) = task_at s"
  by (simp add: task_at_def fun_eq_iff)

lemma task_output_stream:
  assumes a: "task_at s n t ch z" and b: "t_enstream t = Some True" and i: "stream_index s \<noteq> 2147483647"
  shows "task_output io (t_addr t, n) data fin s =
    task_reply io n t (stream_body (stream_index s) (if fin then [] else data) fin) ch (s\<lparr>stream_index := (if fin then 0 else stream_index s + 1)\<rparr>)"
proof -
  have "enstream ch = Some True" using a b by (simp add: task_at_def chan_ready_def)
  then show ?thesis using a i by (simp add: task_output_def lock_ref_at lc_flag_def stream_body_def)
qed

lemma task_output_plain:
  assumes a: "task_at s n t ch z" and b: "t_enstream t = Some False"
  shows "task_output io (t_addr t, n) data fin s = (if fin then task_reply io n t (JStr data) ch s else Inr s)"
proof -
  have "enstream ch = Some False" using a b by (simp add: task_at_def chan_ready_def)
  then show ?thesis using a by (simp add: task_output_def lock_ref_at lc_flag_def)
qed

text \<open>One line of a stream, when its texts are well-formed.\<close>

lemma task_output_line:
  assumes a: "task_at s n t ch z" and b: "t_enstream t = Some True" and i: "0 \<le> stream_index s" "stream_index s < 2147483647"
    and u: "task_texts t ch" "utf8 (if fin then [] else data)"
  shows "\<exists>s' ch'. task_output io (t_addr t, n) data fin s = Inr s' \<and> stream_index s' = (if fin then 0 else stream_index s + 1) \<and>
    task_at s' n t ch' (out_calls [ZSend (line (task_body io t ch (stream_body (stream_index s) (if fin then [] else data) fin))) False] z) \<and>
    (\<forall>d. task_body io t ch' d = task_body io t ch d) \<and> task_texts t ch'"
proof -
  let ?v = "stream_body (stream_index s) (if fin then [] else data) fin"
  let ?s = "s\<lparr>stream_index := (if fin then 0 else stream_index s + 1)\<rparr>"
  have "json_ok ?v" using u(2) i by (simp add: json_ok_stream_body)
  then have j: "json_dump (task_body io t ch ?v) = Inr (json_text (task_body io t ch ?v))"
    using json_ok_task_body [OF u(1)] json_dump_ok by blast
  have at: "task_at ?s n t ch z" using a by simp
  from task_reply_at [OF at j] u(1) task_output_stream [OF a b, of io data fin] i(2) show ?thesis by (auto simp: line_def)
qed

definition inference_bodies :: "llm_task \<Rightarrow> string \<Rightarrow> json list" where
  "inference_bodies t m =
     (if t_enstream t = Some True then [stream_body 0 m False, stream_body 1 ''hello'' False, stream_body 2 [] True] else [JStr []])"

lemma inference_at:
  assumes a: "task_at s n t ch z" and i: "stream_index s = 0" and u: "task_texts t ch" "t_enstream t = Some True \<Longrightarrow> utf8 m"
  shows "\<exists>s' ch'. inference io m t s = Inr s' \<and> stream_index s' = 0 \<and>
    task_at s' n t ch' (out_calls (map (\<lambda>d. ZSend (line (task_body io t ch d)) False) (inference_bodies t m)) z)"
proof -
  have cb: "out_callback t = Some (t_addr t, n)" using a node_core_ok [of s n t] by (simp add: task_at_def task_ok_def)
  obtain b where b: "t_enstream t = Some b" using a by (auto simp: task_at_def chan_ready_def)
  show ?thesis
  proof (cases b)
    case True
    with b have b: "t_enstream t = Some True" by simp
    have h: "utf8 ''hello''" by (simp add: utf8_ascii)
    obtain s1 ch1 where 1: "task_output io (t_addr t, n) m False s = Inr s1" "stream_index s1 = 1"
      "task_at s1 n t ch1 (out_calls [ZSend (line (task_body io t ch (stream_body 0 m False))) False] z)" "\<forall>d. task_body io t ch1 d = task_body io t ch d" "task_texts t ch1"
      using task_output_line [OF a b, of False m io] u b i by auto
    obtain s2 ch2 where 2: "task_output io (t_addr t, n) ''hello'' False s1 = Inr s2" "stream_index s2 = 2"
      "task_at s2 n t ch2 (out_calls (map (\<lambda>d. ZSend (line (task_body io t ch d)) False) [stream_body 0 m False, stream_body 1 ''hello'' False]) z)"
      "\<forall>d. task_body io t ch2 d = task_body io t ch d" "task_texts t ch2"
      using task_output_line [OF 1(3) b, of False "''hello''" io] 1(2,4,5) h by (auto simp: out_calls_app)
    obtain s3 ch3 where 3: "task_output io (t_addr t, n) [] True s2 = Inr s3" "stream_index s3 = 0"
      "task_at s3 n t ch3 (out_calls (map (\<lambda>d. ZSend (line (task_body io t ch d)) False) [stream_body 0 m False, stream_body 1 ''hello'' False, stream_body 2 [] True]) z)"
      using task_output_line [OF 2(3) b, of True "[]" io] 2(2,4,5) by (auto simp: out_calls_app)
    have "inference io m t s = Inr s3" using 1(1) 2(1) 3(1) cb by (simp add: inference_def)
    moreover have "task_at s3 n t ch3 (out_calls (map (\<lambda>d. ZSend (line (task_body io t ch d)) False) (inference_bodies t m)) z)"
      using 3(3) b by (simp add: inference_bodies_def)
    ultimately show ?thesis using 3(2) by blast
  next
    case False
    with b have b: "t_enstream t = Some False" by simp
    have "json_ok (task_body io t ch (JStr []))" using json_ok_task_body [OF u(1)] by simp
    from task_reply_at [OF a json_dump_ok [OF this]] cb b i show ?thesis
      by (auto simp: inference_def inference_bodies_def task_output_plain [OF a b] line_def)
  qed
qed

text \<open>Whatever the texts, an inference that succeeds leaves the task in place.\<close>

lemma task_output_kept:
  assumes a: "task_at s n t ch z" and i: "stream_index s \<noteq> 2147483647" and r: "task_output io (t_addr t, n) data fin s = Inr s'"
  shows "(\<exists>ch' z'. task_at s' n t ch' z') \<and> stream_index s' = (if t_enstream t = Some False then stream_index s else if fin then 0 else stream_index s + 1)"
proof -
  obtain b where b: "t_enstream t = Some b" using a by (auto simp: task_at_def chan_ready_def)
  have rep: "(\<exists>ch' z'. task_at s' n t ch' z') \<and> stream_index s' = stream_index s1"
    if "task_at s1 n t ch z" "task_reply io n t d ch s1 = Inr s'" for s1 d
    using task_reply_dumped [OF that(2)] task_reply_at [OF that(1), of io d] that(2) by fastforce
  show ?thesis
  proof (cases b)
    case True
    let ?s = "s\<lparr>stream_index := (if fin then 0 else stream_index s + 1)\<rparr>"
    have "task_at ?s n t ch z" using a by simp
    from rep [OF this] task_output_stream [OF a _ i] r b True show ?thesis by auto
  next
    case False
    with rep [OF a] task_output_plain [OF a] r b a show ?thesis by (cases z) (auto split: if_splits)
  qed
qed

lemma inference_kept:
  assumes a: "task_at s n t ch z" and i: "stream_index s = 0" and r: "inference io m t s = Inr s'"
  shows "node_ok s'"
proof -
  have cb: "out_callback t = Some (t_addr t, n)" using a node_core_ok [of s n t] by (simp add: task_at_def task_ok_def)
  from r cb obtain s1 s2 where o: "task_output io (t_addr t, n) m False s = Inr s1" "task_output io (t_addr t, n) ''hello'' False s1 = Inr s2"
    "task_output io (t_addr t, n) [] True s2 = Inr s'"
    by (auto simp: inference_def res_simps)
  from task_output_kept [OF a _ o(1)] i obtain ch1 z1 where 1: "task_at s1 n t ch1 z1" "stream_index s1 = (if t_enstream t = Some False then 0 else 1)" by auto
  from task_output_kept [OF 1(1) _ o(2)] 1(2) obtain ch2 z2 where 2: "task_at s2 n t ch2 z2" "stream_index s2 = (if t_enstream t = Some False then 0 else 2)"
    by (auto split: if_splits)
  from task_output_kept [OF 2(1) _ o(3)] 2(2) show ?thesis by (auto simp: node_ok_def task_at_def split: if_splits)
qed

section \<open>The node fulfils the contract of the base class\<close>

lemma node_send_state: "node_send io ob d e w u s = Inr s' \<Longrightarrow> \<exists>z. s' = s\<lparr>sf_pushed := sf_pushed s @ [z]\<rparr>"
  by (cases "json_dump (out_body (sf_request_id s) w (io_now io) ob d e)") (auto simp: node_send_def res_simps)

lemma node_ok_pushed [simp]: "node_ok (s\<lparr>sf_pushed := x\<rparr>) = node_ok s"
  by (simp add: node_ok_def)

lemma node_ok_set_push_url:
  assumes "node_ok s" and "get_channel n s = Inr ch" and "set_push_url env u ch = Inr ch'"
  shows "node_ok (put_channel n ch' s)"
proof -
  have c: "node_core s" "map_of (llm_task_channel s) n = Some ch"
    using assms(1,2) by (simp_all add: node_ok_def get_channel_def umap_at_iff)
  obtain t where t: "map_of (llm_tasks s) n = Some t" "chan_ready ch t n" using node_core_channel [OF c] .
  show ?thesis
    using node_core_put [OF c(1) t(1)] same_task_slots_ready [OF set_push_url_same [OF assms(3)] t(2)] assms(1)
    by (simp add: node_ok_def)
qed

lemma load_model_ready:
  assumes "load_model body t = (0, t')"
  shows "t_addr t' = t_addr t \<and> t_enoutput t' \<noteq> None \<and> t_enstream t' \<noteq> None"
proof -
  have push: "push_inputs vs u = (False, u') \<Longrightarrow> t_addr u' = t_addr u \<and> t_enoutput u' = t_enoutput u" for vs u u'
    by (induction vs arbitrary: u) (auto split: if_splits sum.splits)
  then have inp: "parse_input body u = (False, u') \<Longrightarrow> t_addr u' = t_addr u \<and> t_enoutput u' = t_enoutput u" for u u'
    by (auto simp: parse_input_def split: if_splits sum.splits json.splits)
  from assms have "parse_config body t = (False, t')" by (simp add: load_model_def split: if_splits prod.splits bool.splits)
  then show ?thesis by (auto simp: parse_config_def Let_def split: if_splits sum.splits prod.splits bool.splits dest!: inp)
qed

lemma subscribe_default:
  assumes "subscriber_work_id env [] c ch = Inr (r, ch')"
  shows "(\<exists>z. slot ch' 0 = Some (z, Some c)) \<and> slot ch' (-1) = slot ch (-1) \<and> enoutput ch' = enoutput ch \<and> enstream ch' = enstream ch \<and>
    request_id ch' = request_id ch \<and> lc_work_id ch' = lc_work_id ch \<and> usr_ok ch' = usr_ok ch"
proof -
  from assms obtain z where p: "lc_put env 0 (Some (z, Some c)) ch = Inr ch'"
    by (auto simp: subscriber_work_id_def Let_def res_simps)
  show ?thesis using slot_put(1) [OF p] put_flags [OF p] usr_ok_put [OF p] by simp
qed

lemma wid_llm: "is_int32 n \<Longrightarrow> sample_get_work_id_num (''llm'' @ ''.'' @ to_string n) = Inr n"
  using work_num_of_id [of "''llm''" n] by simp

text \<open>The strings of a parsed configuration are well-formed UTF-8, so the replies of a task can be printed.\<close>

lemma json_at_good: "json_good j \<Longrightarrow> json_at key j = Inr v \<Longrightarrow> json_good v"
  by (auto simp: json_at_def list_all_iff split: json.splits option.splits dest!: map_of_SomeD)

lemma load_model_utf8:
  assumes "load_model body t = (0, t')" and "json_good body"
  shows "utf8 (response_format t')"
proof -
  have push: "push_inputs vs u = (False, u') \<Longrightarrow> response_format u' = response_format u" for vs u u'
    by (induction vs arbitrary: u) (auto split: sum.splits)
  then have inp: "parse_input body u = (False, u') \<Longrightarrow> response_format u' = response_format u" for u u'
    by (auto simp: parse_input_def split: if_splits sum.splits json.splits)
  from assms(1) have "parse_config body t = (False, t')" by (simp add: load_model_def split: prod.splits bool.splits)
  then obtain v where v: "json_at ''response_format'' body = Inr v" "json_as_string v = Inr (response_format t')"
    by (auto simp: parse_config_def Let_def res_simps split: sum.splits prod.splits bool.splits dest!: inp)
  from json_at_good [OF assms(2) v(1)] v(2) show ?thesis by (cases v) (auto simp: json_as_string_def)
qed

text \<open>A successful \<^verbatim>\<open>setup\<close> leaves the channel ready and the task in the table; every other path throws.\<close>

lemma llm_setup_cases:
  assumes n: "is_int32 n" and f: "fresh_channel ch"
    and r: "llm_setup io (''llm'' @ ''.'' @ to_string n) ob d (put_channel n ch s) = Inr (ret, s')"
  shows "ret = 0 \<and> sz_sub (length (umap_set n ch (llm_task_channel s))) 1 \<noteq> size_of_int (task_count s) \<and>
    (\<exists>ch1 t z body t1. chan_ready ch1 t n \<and> out_callback t = Some (t_addr t, n) \<and> t_enoutput t \<noteq> None \<and> utf8 (response_format t) \<and>
      request_id ch1 = request_id ch \<and> lc_work_id ch1 = lc_work_id ch \<and>
      json_parse d = Inr body \<and> load_model body (llm_task_ctor (next_task s)) = (0, t1) \<and> t = task_set_output (t_addr t1, n) t1 \<and>
      s' = put_channel n ch1 (s\<lparr>next_task := next_task s + 1, llm_tasks := umap_set n t (llm_tasks s),
             sf_pushed := sf_pushed s @ [z]\<rparr>))"
proof -
  let ?wid = "''llm'' @ ''.'' @ to_string n"
  let ?s0 = "put_channel n ch s\<lparr>next_task := next_task s + 1\<rparr>"
  have full: "sz_sub (length (umap_set n ch (llm_task_channel s))) 1 \<noteq> size_of_int (task_count s)"
    using r by (auto simp: llm_setup_def)
  have g: "get_channel_id ?wid (put_channel n ch s) = Inr ch" using wid_llm [OF n] by (simp add: get_channel_id_def get_channel_def)
  from r full wid_llm [OF n] g obtain body where b: "json_parse d = Inr body"
    by (cases "json_parse d") (auto simp: llm_setup_def Let_def split: if_splits)
  obtain ret1 t1 where l: "load_model body (llm_task_ctor (next_task s)) = (ret1, t1)" by (cases "load_model body (llm_task_ctor (next_task s))")
  with r full wid_llm [OF n] g b have z: "ret1 = 0" by (auto simp: llm_setup_def Let_def split: if_splits)
  note lm = load_model_ready [OF l [unfolded z]] load_model_utf8 [OF l [unfolded z] json_parse_value_good [OF b]]
  from r full wid_llm [OF n] g b l z obtain bb x ch1 s1 where
    bb: "lc_flag (t_enstream t1) = Inr bb" and
    sub: "subscriber_work_id (io_env io) [] (t_addr t1, n) (lc_set_stream bb (lc_set_output True ch)) = Inr (x, ch1)" and
    snd: "node_send io ''None'' (JStr ''None'') [] ?wid []
      (put_channel n ch1 (?s0\<lparr>llm_tasks := umap_set n (task_set_output (t_addr t1, n) t1) (llm_tasks s)\<rparr>)) = Inr s1" and
    e: "ret = 0" "s' = s1"
    by (auto simp: llm_setup_def Let_def res_simps)
  have st: "t_enstream t1 = Some bb" using bb by (auto simp: lc_flag_def split: option.splits)
  have "chan_ready ch1 (task_set_output (t_addr t1, n) t1) n"
    using subscribe_default [OF sub] f st
    by (auto simp: chan_ready_def fresh_channel_def task_set_output_def) (simp_all add: lc_set_stream_def lc_set_output_def slot_def)
  moreover have "request_id ch1 = request_id ch" "lc_work_id ch1 = lc_work_id ch"
    using subscribe_default [OF sub] by (simp_all add: lc_set_stream_def lc_set_output_def)
  moreover obtain z where "s1 = (put_channel n ch1 (?s0\<lparr>llm_tasks := umap_set n (task_set_output (t_addr t1, n) t1) (llm_tasks s)\<rparr>))
      \<lparr>sf_pushed := sf_pushed s @ [z]\<rparr>"
    using node_send_state [OF snd] by (auto simp: put_channel_def)
  then have "s1 = put_channel n ch1 (s\<lparr>next_task := next_task s + 1,
      llm_tasks := umap_set n (task_set_output (t_addr t1, n) t1) (llm_tasks s), sf_pushed := sf_pushed s @ [z]\<rparr>)"
    by (simp add: put_channel_def)
  ultimately show ?thesis using full e lm b l z
    by (intro conjI exI [of _ ch1] exI [of _ "task_set_output (t_addr t1, n) t1"] exI [of _ z] exI [of _ body] exI [of _ t1])
      (simp_all add: task_set_output_def)
qed

lemma node_ok_setup:
  assumes ok: "node_ok s" and n: "is_int32 n" "n \<noteq> WORK_ID_NONE" and f: "fresh_channel ch"
    and r: "llm_setup io (sf_unit_name s @ ''.'' @ to_string n) ob d (put_channel n ch s) = Inr (ret, s')"
  shows "ret = 0 \<and> node_ok s'"
proof -
  have c: "node_core s" "sf_unit_name s = ''llm''" "task_count s = 3" "sf_status s = 1" using ok by (simp_all add: node_ok_def node_core_def)
  obtain ch1 t z where ret: "ret = 0" and full: "sz_sub (length (umap_set n ch (llm_task_channel s))) 1 \<noteq> size_of_int 3"
    and t: "chan_ready ch1 t n" "out_callback t = Some (t_addr t, n)" "t_enoutput t \<noteq> None" "utf8 (response_format t)"
    and s': "s' = put_channel n ch1 (s\<lparr>next_task := next_task s + 1, llm_tasks := umap_set n t (llm_tasks s), sf_pushed := sf_pushed s @ [z]\<rparr>)"
    using llm_setup_cases [OF n(1) f, of io ob d s ret s'] r c(2,3) by auto
  have wf: "umap_wf (llm_task_channel s)" "umap_wf (llm_tasks s)" "fst ` set (llm_task_channel s) = fst ` set (llm_tasks s)" "length (llm_tasks s) \<le> 3"
    using c(1) by (simp_all add: node_core_def)
  have "length (llm_task_channel s) = length (llm_tasks s)" using length_umap wf(1,2,3) by metis
  moreover have "map_of (llm_task_channel s) n = None \<longleftrightarrow> map_of (llm_tasks s) n = None" using wf(3) by (simp add: map_of_eq_None_iff)
  ultimately have "length (umap_set n t (llm_tasks s)) = length (umap_set n ch (llm_task_channel s))" by (simp add: length_umap_set)
  moreover have "length (umap_set n ch (llm_task_channel s)) \<noteq> 4" using full by (auto simp: sz_sub_def size_of_int_def)
  ultimately have len: "length (umap_set n t (llm_tasks s)) \<le> 3" using wf(4) by (auto simp: length_umap_set split: if_splits)
  have "task_ok s' k u" if "map_of (llm_tasks s') k = Some u" for k u
  proof (cases "k = n")
    case True
    with that s' t n(2) show ?thesis by (simp add: task_ok_def)
  next
    case False
    with that s' node_core_ok [OF c(1), of k u] show ?thesis by (simp add: task_ok_def)
  qed
  with wf len c(2,3,4) have "node_core s'" unfolding node_core_def by (simp add: s' keys_update)
  with ret ok s' show ?thesis by (simp add: node_ok_def)
qed

lemma keys_erase: "fst ` set (umap_erase k m) = fst ` set m - {k}"
proof -
  have "dom (map_of (umap_erase k m)) = dom (map_of m) - {k}" by auto
  then show ?thesis unfolding dom_map_of_conv_image_fst .
qed

lemma node_ok_exit:
  assumes ok: "node_ok s" and r: "llm_exit io wid ob d s = Inr (ret, s')"
  shows "ret = 0 \<and> (\<forall>n. release_key wid = Inr n \<longrightarrow> node_ok (s'\<lparr>llm_task_channel := umap_erase n (llm_task_channel s')\<rparr>))"
proof -
  from r obtain n ch ch1 t where n: "sample_get_work_id_num wid = Inr n" "map_of (llm_tasks s) n = Some t" "ret = 0"
    and snd: "node_send io ''None'' (JStr ''None'') [] wid [] (put_channel n ch1 (s\<lparr>llm_tasks := umap_erase n (llm_tasks s)\<rparr>)) = Inr s'"
    by (auto simp: llm_exit_def res_simps split: if_splits)
  from node_send_state [OF snd] obtain z where
    s': "s' = (put_channel n ch1 (s\<lparr>llm_tasks := umap_erase n (llm_tasks s)\<rparr>))\<lparr>sf_pushed := z\<rparr>" by auto
  have c: "node_core s" using ok by (simp add: node_ok_def)
  have ne: "wid \<noteq> []"
  proof
    assume "wid = []"
    then have "n = WORK_ID_NONE" using n(1) by (simp add: sample_get_work_id_num_def Let_def str_find_def int_of_pos_def)
    with node_core_ok [OF c n(2)] show False by (simp add: task_ok_def)
  qed
  let ?s = "s'\<lparr>llm_task_channel := umap_erase n (llm_task_channel s')\<rparr>"
  have tasks: "llm_tasks ?s = umap_erase n (llm_tasks s)" and chans: "llm_task_channel ?s = umap_erase n (umap_set n ch1 (llm_task_channel s))"
    using s' by (simp_all add: put_channel_def)
  have "task_ok ?s k u" if "map_of (llm_tasks ?s) k = Some u" for k u
    using that node_core_ok [OF c, of k u] unfolding task_ok_def tasks chans by (auto split: if_splits)
  moreover have "length (umap_erase n (llm_tasks s)) \<le> 3"
    using c length_umap_erase_le [of n "llm_tasks s"] unfolding node_core_def by linarith
  moreover have "umap_wf (llm_task_channel ?s)" "umap_wf (llm_tasks ?s)" using c unfolding tasks chans node_core_def by simp_all
  moreover have "fst ` set (llm_task_channel ?s) = fst ` set (llm_tasks ?s)"
    using c unfolding tasks chans node_core_def by (simp add: keys_erase keys_update)
  moreover have "sf_unit_name ?s = ''llm''" "sf_status ?s = 1" "task_count ?s = 3" "stream_index ?s = 0"
    using ok s' by (simp_all add: node_ok_def node_core_def put_channel_def)
  ultimately have "node_ok ?s" unfolding node_ok_def node_core_def tasks by simp
  with n(1,3) ne show ?thesis by (simp add: release_key_def)
qed

lemma node_ok_taskinfo:
  assumes "node_ok s" and "llm_taskinfo io wid ob d s = Inr s'"
  shows "node_ok s'"
proof -
  from assms(2) obtain a b where "node_send io a b [] wid [] s = Inr s'"
    by (auto simp: llm_taskinfo_def res_simps split: if_splits option.splits)
  from node_send_state [OF this] assms(1) show ?thesis by auto
qed

interpretation ln: flow_node llm_vtable node_ok
proof
  fix s :: llm_llm and rid u q n ch env ch' io ob d ret s' wid
  show "node_ok s \<Longrightarrow> CHR ''.'' \<notin> set (sf_unit_name s)" by (simp add: node_ok_def node_core_def)
  show "node_ok s \<Longrightarrow> node_ok (s\<lparr>sf_request_id := rid, out_zmq_url := u\<rparr>)" by (simp add: node_ok_def)
  show "node_ok s \<Longrightarrow> node_ok (s\<lparr>event_queue := q\<rparr>)" by (simp add: node_ok_def)
  show "node_ok s \<Longrightarrow> get_channel n s = Inr ch \<Longrightarrow> set_push_url env u ch = Inr ch' \<Longrightarrow> node_ok (put_channel n ch' s)"
    by (rule node_ok_set_push_url)
  show "node_ok s \<Longrightarrow> is_int32 n \<Longrightarrow> n \<noteq> WORK_ID_NONE \<Longrightarrow> fresh_channel ch \<Longrightarrow>
      v_setup (llm_vtable io) (sf_unit_name s @ ''.'' @ to_string n) ob d (put_channel n ch s) = Inr (ret, s') \<Longrightarrow>
      node_ok (if ret = 0 then s' else s'\<lparr>llm_task_channel := umap_erase n (llm_task_channel s')\<rparr>)"
    using node_ok_setup [of s n ch io ob d ret s'] by (simp add: llm_vtable_def)
  show "node_ok s \<Longrightarrow> v_exit (llm_vtable io) wid ob d s = Inr (ret, s') \<Longrightarrow>
      (if ret = 0 then \<forall>n. release_key wid = Inr n \<longrightarrow> node_ok (s'\<lparr>llm_task_channel := umap_erase n (llm_task_channel s')\<rparr>) else node_ok s')"
    using node_ok_exit [of s io wid ob d ret s'] by (simp add: llm_vtable_def)
  show "node_ok s \<Longrightarrow> v_pause (llm_vtable io) wid ob d s = Inr s' \<Longrightarrow> node_ok s'"
    by (simp add: llm_vtable_def base_pause_def no_action_def)
  show "node_ok s \<Longrightarrow> v_taskinfo (llm_vtable io) wid ob d s = Inr s' \<Longrightarrow> node_ok s'"
    using node_ok_taskinfo [of s io wid ob d s'] by (simp add: llm_vtable_def)
qed

section \<open>Messages to tasks\<close>

lemma user_data_ok:
  assumes ok: "node_ok s" and r: "task_user_data io r ob d s = Inr s'"
  shows "node_ok s'"
proof -
  have c: "node_core s" "stream_index s = 0" using ok by (simp_all add: node_ok_def)
  have inf: "node_ok s1" if i: "inference io m t s0 = Inr s1" "node_core s0" "stream_index s0 = 0" "map_of (llm_tasks s0) k = Some t" for m t s0 s1 k
  proof -
    obtain ch where ch: "map_of (llm_task_channel s0) k = Some ch" "chan_ready ch t k" using node_core_task [OF i(2,4)] by metis
    then obtain z where "task_at s0 k t ch (z, slot ch (-2))" using i(2,4) by (auto simp: task_at_def chan_ready_def)
    from inference_kept [OF this i(3,1)] show ?thesis .
  qed
  from r obtain t ch where l: "lock_ref r s = Some (t, ch)"
    by (cases "lock_ref r s") (auto simp: task_user_data_def)
  then have t: "map_of (llm_tasks s) (snd r) = Some t" by (auto simp: lock_ref_def split: option.splits if_splits)
  have t': "map_of (llm_tasks (s\<lparr>stream_buff := b\<rparr>)) (snd r) = Some t" "node_core (s\<lparr>stream_buff := b\<rparr>)" "stream_index (s\<lparr>stream_buff := b\<rparr>) = 0" for b
    using t c by simp_all
  from r l consider (plain) "inference io d t s = Inr s'"
    | (piece) b where "s' = s\<lparr>stream_buff := b\<rparr>" | (whole) m b where "inference io m t (s\<lparr>stream_buff := b\<rparr>) = Inr s'"
    by (auto simp: task_user_data_def split: if_splits prod.splits sum.splits bool.splits)
  then show ?thesis
  proof cases
    case plain
    then show ?thesis using inf [OF _ c t] by blast
  next
    case piece
    then show ?thesis using c by (simp add: node_ok_def)
  next
    case whole
    then show ?thesis using inf [OF _ t'(2,3,1)] by blast
  qed
qed

lemma channel_message_ok:
  assumes ok: "node_ok s" and r: "channel_message io n k d s = Inr s'"
  shows "node_ok s'"
proof -
  from r obtain ch where ch: "get_channel n s = Inr ch" by (auto simp: channel_message_def)
  then have m: "map_of (llm_task_channel s) n = Some ch" by (simp add: get_channel_def umap_at_iff)
  have c: "node_core s" using ok by (simp add: node_ok_def)
  obtain t where t: "map_of (llm_tasks s) n = Some t" "chan_ready ch t n" using node_core_channel [OF c m] .
  from r ch consider "s' = s" | rf ob da ch1 where "subscriber_event_call (io_env io) d ch = Inr ((ob, da), ch1)"
      "task_user_data io rf ob da (put_channel n ch1 s) = Inr s'"
    by (auto simp: channel_message_def thread_result_def res_simps split: option.splits sum.splits)
  then show ?thesis
  proof cases
    case 2
    have "node_ok (put_channel n ch1 s)"
      using node_core_put [OF c t(1) same_task_slots_ready [OF event_call_same [OF 2(1)] t(2)]] ok by (simp add: node_ok_def)
    from user_data_ok [OF this 2(2)] show ?thesis .
  qed (use ok in simp)
qed

section \<open>Reachable nodes\<close>

text \<open>
  The states of a living node, with the number of events handled: requests are queued in the
  receiving thread, the event thread handles the queue from its front (eventpp hands events over in the
  order of \<^verbatim>\<open>enqueue\<close>), and messages arrive on the sockets of channels. Every step has its own
  outside world.
\<close>

inductive node_reach :: "llm_llm \<Rightarrow> nat \<Rightarrow> bool" where
  init: "llm_llm_ctor env = Inr s \<Longrightarrow> node_reach s 0"
| request: "node_reach s k \<Longrightarrow> rpc_dispatch node_rpc (rpc_ctx s) a d s = (Inr v, s') \<Longrightarrow> node_reach s' k"
| event: "node_reach s k \<Longrightarrow> k < length (event_queue s) \<Longrightarrow> numbers_ok io (sf_unit_name s) \<Longrightarrow>
    thread_result (dispatch_event (llm_vtable io) io (event_queue s ! k) s) = Inr s' \<Longrightarrow> node_reach s' (Suc k)"
| message: "node_reach s k \<Longrightarrow> channel_message io n key d s = Inr s' \<Longrightarrow> node_reach s' k"

lemma ctor_ok: "llm_llm_ctor env = Inr s \<Longrightarrow> node_ok s"
  by (auto simp: llm_llm_ctor_def StackFlow_ctor_def StackFlow.StackFlow.extend_def res_simps node_ok_def node_core_def)

lemma node_rpc_ok: "node_ok s \<Longrightarrow> node_rpc f d s = (v, s') \<Longrightarrow> node_ok s'"
  by (auto simp: node_rpc_def node_ok_def)

lemma rpc_dispatch_ok: "node_ok s \<Longrightarrow> rpc_dispatch node_rpc srv a d s = (v, s') \<Longrightarrow> node_ok s'"
  by (auto simp: rpc_dispatch_def Let_def split: sum.splits action.splits if_splits prod.splits dest: node_rpc_ok)

lemma node_reach_ok: "node_reach s k \<Longrightarrow> node_ok s"
proof (induction rule: node_reach.induct)
  case (event s k io s')
  then have "length (sf_unit_name s) < 2147483647" by (simp add: node_ok_def node_core_def)
  moreover have "dispatch_event (llm_vtable io) io (event_queue s ! k) s = Inr s'"
    using event(4) by (auto simp: thread_result_def split: sum.splits)
  ultimately show ?case using ln.dispatch_event_inv event by blast
qed (blast intro: ctor_ok rpc_dispatch_ok channel_message_ok)+

section \<open>Properties\<close>

text \<open>
  C4. A living node stays consistent: whatever requests, events and messages it has seen, it runs at
  most three tasks, the tables of tasks and of channels have the same numbers, and the channel of
  every task has its publisher open, passes results on to the user and delivers messages on its
  inference address to that task. The replies of the unit manager are only assumed not to use the
  number that stands for no task.
\<close>

theorem node_tasks_consistent:
  assumes "node_reach s k"
  shows "length (llm_tasks s) \<le> 3 \<and> (\<forall>n. map_of (llm_task_channel s) n = None \<longleftrightarrow> map_of (llm_tasks s) n = None) \<and>
    (\<forall>n t. map_of (llm_tasks s) n = Some t \<longrightarrow> (\<exists>ch z z'. map_of (llm_task_channel s) n = Some ch \<and> enoutput ch = Some True \<and>
      enstream ch = t_enstream t \<and> slot ch (-1) = Some (z, None) \<and> slot ch 0 = Some (z', Some (t_addr t, n))))"
proof -
  have c: "node_core s" using node_reach_ok [OF assms] by (simp add: node_ok_def)
  then have "length (llm_tasks s) \<le> 3" "fst ` set (llm_task_channel s) = fst ` set (llm_tasks s)" by (simp_all add: node_core_def)
  moreover have "\<exists>ch z z'. map_of (llm_task_channel s) n = Some ch \<and> enoutput ch = Some True \<and>
      enstream ch = t_enstream t \<and> slot ch (-1) = Some (z, None) \<and> slot ch 0 = Some (z', Some (t_addr t, n))"
    if "map_of (llm_tasks s) n = Some t" for n t
    using node_core_ok [OF c that] by (auto simp: task_ok_def chan_ready_def)
  ultimately show ?thesis by (simp add: map_of_eq_None_iff)
qed

lemma message_answered:
  assumes r: "node_reach s k" and t: "map_of (llm_tasks s) n = Some t" and ch: "map_of (llm_task_channel s) n = Some ch"
    and z: "slot ch (-1) = Some (z, None)"
    and e: "subscriber_event_call (io_env io) d ch = Inr ((object, data), ch1)"
    and d: "data \<noteq> []" "data \<noteq> ''None''" "str_find object ''stream'' 0 = None"
    and u: "utf8 (request_id ch1)" "utf8 (lc_work_id ch1)" "utf8 data"
  shows "\<exists>s' ch'. channel_message io n 0 d s = Inr s' \<and> map_of (llm_task_channel s') n = Some ch' \<and>
    (let sent = zcalls (map (\<lambda>d. ZSend (json_text (task_body io t ch1 d) @ [CHR 0x0A]) False)
       (if t_enstream t = Some True
        then [stream_body 0 data False, stream_body 1 ''hello'' False, stream_body 2 [] True] else [JStr []]))
     in slot ch' (-1) = Some (sent z, None) \<and> slot ch' (-2) = map_option (apfst sent) (slot ch1 (-2)))"
proof -
  have ok: "node_core s" "stream_index s = 0" using node_reach_ok [OF r] by (simp_all add: node_ok_def)
  have rd: "chan_ready ch t n" and rf: "utf8 (response_format t)" using node_core_ok [OF ok(1) t] ch by (simp_all add: task_ok_def)
  from rd obtain z' where sl: "slot ch 0 = Some (z', Some (t_addr t, n))" by (auto simp: chan_ready_def)
  have sm: "same_task_slots ch ch1" using event_call_same [OF e] .
  have rd1: "chan_ready ch1 t n" "slot ch1 (-1) = Some (z, None)" using same_task_slots_ready [OF sm rd] sm z by (simp_all add: same_task_slots_def)
  have at: "task_at (put_channel n ch1 s) n t ch1 (z, slot ch1 (-2))"
    using node_core_put [OF ok(1) t rd1(1)] t rd1 by (simp add: task_at_def)
  obtain s' ch' where i: "inference io data t (put_channel n ch1 s) = Inr s'"
    "task_at s' n t ch' (out_calls (map (\<lambda>d. ZSend (line (task_body io t ch1 d)) False) (inference_bodies t data)) (z, slot ch1 (-2)))"
    using inference_at [OF at, of data io] ok(2) u rf by (auto simp: task_texts_def)
  have "channel_message io n 0 d s = Inr s'"
    using ch sl e d i(1) lock_ref_at [OF at]
    by (simp add: channel_message_def get_channel_def umap_at_def thread_result_def task_user_data_def)
  with i(2) show ?thesis unfolding task_at_def inference_bodies_def line_def out_calls_def Let_def by (metis fst_conv snd_conv)
qed


section \<open>Setting up a task\<close>

lemma put_total: "slot ch k = None \<Longrightarrow> \<exists>ch'. lc_put env k e ch = Inr ch'"
  by (simp add: lc_put_def lc_drop_def)

lemma ctor_channel:
  "llm_channel_ctor env out infer nm = Inr ch \<Longrightarrow>
   fresh_channel ch \<and> slot ch (-2) = None \<and> slot ch 0 = None \<and> lc_output_url ch = [] \<and> lc_inference_url ch = infer"
  using usr_ok_ctor [of env out infer nm ch] by (auto simp: llm_channel_ctor_def fresh_channel_def slot_def res_simps)

lemma set_push_url_total:
  assumes "zmq_up env" and "2 \<le> length url" and "usr_ok ch"
  shows "\<exists>ch'. set_push_url env url ch = Inr ch'"
proof -
  obtain z :: "unit pzmq" where z: "pzmq_socket env url ZMQ_PUSH = Inr z" using socket_total [OF assms(1,2)] by blast
  show ?thesis
  proof (cases "slot ch (-2)")
    case None
    with z put_total [of "ch\<lparr>lc_output_url := url\<rparr>" "-2" env "Some (z, None)"] show ?thesis by (simp add: set_push_url_def slot_def)
  next
    case (Some e)
    obtain o1 c where e: "e = (o1, c)" by (cases e)
    with Some assms(3) have "mode o1 = Some ZMQ_PUSH" by (simp add: usr_ok_def)
    from push_dtor [OF this, of env] obtain o' where "pzmq_dtor env o1 = Inr o'" ..
    with Some e z show ?thesis by (simp add: set_push_url_def lc_put_def lc_drop_def slot_def)
  qed
qed

lemma set_push_url_inference: "set_push_url env u ch = Inr ch' \<Longrightarrow> lc_inference_url ch' = lc_inference_url ch"
  by (auto simp: set_push_url_def lc_put_def lc_drop_def res_simps split: if_splits option.splits)

lemma subscribe_total:
  assumes "zmq_up env" and "2 \<le> length (lc_inference_url ch)" and "slot ch 0 = None"
  shows "\<exists>ch'. subscriber_work_id env [] c ch = Inr (0, ch')"
proof -
  obtain z :: "unit pzmq" where "pzmq_socket env (lc_inference_url ch) ZMQ_SUB = Inr z" using socket_total [OF assms(1,2)] by blast
  with put_total [OF assms(3), of env "Some (z, Some c)"] show ?thesis by (auto simp: subscriber_work_id_def Let_def)
qed

lemma node_send_total:
  assumes "zmq_up (io_env io)" and "2 \<le> length (out_zmq_url s)" and "utf8 (sf_request_id s)" "utf8 w" "utf8 ob" "json_ok d" "utf8 e"
  shows "\<exists>s'. node_send io ob d e w [] s = Inr s'"
proof -
  let ?v = "out_body (sf_request_id s) w (io_now io) ob d e"
  have j: "json_dump ?v = Inr (json_text ?v)" using assms(3-7) by (intro json_dump_ok) simp
  obtain z :: "unit pzmq" where z: "pzmq_socket (io_env io) (out_zmq_url s) ZMQ_PUSH = Inr z" "mode z = Some ZMQ_PUSH"
    using socket_total [OF assms(1,2)] by blast
  obtain z' where "pzmq_dtor (io_env io) (send_data (json_text ?v @ [CHR 0x0A]) z) = Inr z'"
    using push_dtor [of "send_data (json_text ?v @ [CHR 0x0A]) z" "io_env io"] z(2) by (auto simp: send_data_def)
  with z(1) j show ?thesis by (simp add: node_send_def)
qed

lemma utf8_wid: "utf8 (''llm'' @ ''.'' @ to_string n)"
proof -
  have "utf8 ''llm.''" by (simp add: utf8_ascii)
  from utf8_append [OF this utf8_to_string [of n]] show ?thesis by simp
qed

lemma llm_setup_total:
  assumes n: "is_int32 n" and up: "zmq_up (io_env io)" and u: "2 \<le> length (out_zmq_url s)"
    and ch: "2 \<le> length (lc_inference_url ch)" "slot ch 0 = None"
    and free: "length (umap_set n ch (llm_task_channel s)) \<le> 3" "task_count s = 3" and rid: "utf8 (sf_request_id s)"
    and cfg: "json_parse d = Inr body" "load_model body (llm_task_ctor (next_task s)) = (0, t1)"
  shows "\<exists>s'. llm_setup io (''llm'' @ ''.'' @ to_string n) ob d (put_channel n ch s) = Inr (0, s')"
proof -
  let ?wid = "''llm'' @ ''.'' @ to_string n"
  have nn: "umap_set n ch (llm_task_channel s) \<noteq> []" by (cases "llm_task_channel s") auto
  then have "1 \<le> length (umap_set n ch (llm_task_channel s))" by (cases "umap_set n ch (llm_task_channel s)") auto
  then have full: "sz_sub (length (umap_set n ch (llm_task_channel s))) 1 \<noteq> size_of_int (task_count s)"
    using free by (simp add: sz_sub_eq)
  have g: "get_channel_id ?wid (put_channel n ch s) = Inr ch" using wid_llm [OF n] by (simp add: get_channel_id_def get_channel_def)
  obtain b where b: "t_enstream t1 = Some b" using load_model_ready [OF cfg(2)] by auto
  obtain ch1 where c1: "subscriber_work_id (io_env io) [] (t_addr t1, n) (lc_set_stream b (lc_set_output True ch)) = Inr (0, ch1)"
    using subscribe_total [OF up, of "lc_set_stream b (lc_set_output True ch)" "(t_addr t1, n)"] ch
    by (auto simp: lc_set_stream_def lc_set_output_def slot_def)
  let ?s = "put_channel n ch1 (put_channel n ch s\<lparr>next_task := next_task s + 1,
     llm_tasks := umap_set n (task_set_output (t_addr t1, n) t1) (llm_tasks s)\<rparr>)"
  have "2 \<le> length (out_zmq_url ?s)" using u by (simp add: put_channel_def)
  moreover have "utf8 (sf_request_id ?s)" using rid by (simp add: put_channel_def)
  moreover have "utf8 ''None''" by (simp add: utf8_ascii)
  ultimately obtain s1 where s1: "node_send io ''None'' (JStr ''None'') [] ?wid [] ?s = Inr s1"
    using node_send_total [OF up, of ?s ?wid "''None''" "JStr ''None''" "[]"] utf8_wid by auto
  show ?thesis using full g wid_llm [OF n] cfg b c1 s1 by (simp add: llm_setup_def Let_def lc_flag_def)
qed

lemma on_setup_total:
  assumes ok: "node_ok s" and up: "sys_up (io_env io)"
    and rep: "reply (io_env io) ''register_unit'' ''llm'' = Some (unit_reply n out infer)"
    and n: "is_int32 n" "n \<noteq> WORK_ID_NONE" "map_of (llm_tasks s) n = None" and free: "length (llm_tasks s) < 3"
    and l: "2 \<le> length out" "length out \<le> param0_limit (io_sc io)" "2 \<le> length infer" "length infer \<le> 2147483000"
      "2 \<le> length url" "length url \<le> param0_limit (io_sc io)" "length raw < 2147483000"
    and rid: "sample_json_str_get raw ''request_id'' = Inr rid" "utf8 rid"
    and cfg: "sample_json_str_get raw ''data'' = Inr d" "json_parse d = Inr body" "load_model body (llm_task_ctor (next_task s)) = (0, t1)"
  shows "\<exists>s' t. dispatch_event (llm_vtable io) io (EVENT_SETUP, Some \<lparr>msg = set_param url raw\<rparr>) s = Inr s' \<and>
    llm_tasks s' = umap_set n t (llm_tasks s) \<and> event_queue s' = event_queue s \<and>
    (\<exists>ch. map_of (llm_task_channel s') n = Some ch \<and> request_id ch = rid \<and> lc_work_id ch = ''llm'' @ ''.'' @ to_string n) \<and>
    response_format t = response_format t1"
proof -
  have c: "node_core s" "sf_unit_name s = ''llm''" "sf_status s = 1" "task_count s = 3"
    "fst ` set (llm_task_channel s) = fst ` set (llm_tasks s)" "umap_wf (llm_task_channel s)" "umap_wf (llm_tasks s)"
    using ok by (simp_all add: node_ok_def node_core_def)
  have zup: "zmq_up (io_env io)" using up by (simp add: sys_up_def)
  have tr: "take_request io 1 \<lparr>msg = set_param url raw\<rparr> s = Inr ((url, raw), s\<lparr>sf_request_id := rid, out_zmq_url := url\<rparr>)"
    using take_request_packed [OF l(6,7)] rid(1) by fastforce
  obtain ob where ob: "sample_json_str_get raw ''object'' = Inr ob" using sample_json_str_get_total [of raw "''object''"] l(7) by auto
  let ?s = "s\<lparr>sf_request_id := rid, out_zmq_url := url\<rparr>"
  let ?wid = "''llm'' @ ''.'' @ to_string n"
  have fr: "map_of (llm_task_channel ?s) n = None" using n(3) c(5) by (simp add: map_of_eq_None_iff)
  obtain ch where ch: "llm_channel_ctor (io_env io) out infer ''llm'' = Inr ch" "node_register_unit io ''llm'' ?s = Inr (n, put_channel n ch ?s)"
    using register_unit_total [OF up rep n(1) l(1,2,4), of ?s] fr c(2) by auto
  note cc = ctor_channel [OF ch(1)]
  obtain ch1 where ch1: "set_push_url (io_env io) url ch = Inr ch1" using set_push_url_total [OF zup l(5)] cc by (auto simp: fresh_channel_def)
  let ?ch = "ch1\<lparr>request_id := rid, lc_work_id := ?wid\<rparr>"
  have r1: "2 \<le> length (lc_inference_url ?ch)" "slot ?ch 0 = None" "fresh_channel ?ch"
    using set_push_url_inference [OF ch1] set_push_url_same [OF ch1] cc l(3) by (simp_all add: same_task_slots_def fresh_channel_def)
  have "length (llm_task_channel s) = length (llm_tasks s)" using length_umap c(5,6,7) by metis
  then have r2: "length (umap_set n ?ch (llm_task_channel ?s)) \<le> 3" using free by (simp add: length_umap_set)
  obtain s' where s': "llm_setup io ?wid ob d (put_channel n ?ch ?s) = Inr (0, s')"
    using llm_setup_total [OF n(1) zup _ r1(1,2) r2, of d body t1 ob] c(4) cfg(2,3) l(5) rid(2) by auto
  from llm_setup_cases [OF n(1) r1(3) s'] cfg obtain t ch2 where t: "llm_tasks s' = umap_set n t (llm_tasks s)" "event_queue s' = event_queue s"
    "map_of (llm_task_channel s') n = Some ch2" "request_id ch2 = rid" "lc_work_id ch2 = ?wid" "t = task_set_output (t_addr t1, n) t1"
    by (auto simp: put_channel_def)
  have rf: "response_format t = response_format t1" using t(6) by (simp add: task_set_output_def)
  have "raw_setup (llm_vtable io) io url raw ?s = Inr (0, s')"
    using ch(2) ch1 rid(1) ob cfg(1) s' c(2) by (simp add: raw_setup_def Let_def get_channel_def llm_vtable_def)
  with tr c(3) have "dispatch_event (llm_vtable io) io (EVENT_SETUP, Some \<lparr>msg = set_param url raw\<rparr>) s = Inr s'"
    by (simp add: dispatch_event_def on_setup_def)
  with t rf show ?thesis by blast
qed

lemma setup_reaches:
  assumes r: "node_reach s k" and q: "k < length (event_queue s)" "event_queue s ! k = (EVENT_SETUP, Some \<lparr>msg = set_param url raw\<rparr>)"
    and up: "sys_up (io_env io)" and rep: "reply (io_env io) ''register_unit'' ''llm'' = Some (unit_reply n out infer)"
    and n: "is_int32 n" "n \<noteq> WORK_ID_NONE" "map_of (llm_tasks s) n = None" and free: "length (llm_tasks s) < 3"
    and l: "2 \<le> length out" "length out \<le> param0_limit (io_sc io)" "2 \<le> length infer" "length infer \<le> 2147483000"
      "2 \<le> length url" "length url \<le> param0_limit (io_sc io)" "length raw < 2147483000"
    and rid: "sample_json_str_get raw ''request_id'' = Inr rid" "utf8 rid"
    and cfg: "sample_json_str_get raw ''data'' = Inr d" "json_parse d = Inr body" "load_model body (llm_task_ctor (next_task s)) = (0, t1)"
  shows "\<exists>s' t. thread_result (dispatch_event (llm_vtable io) io (event_queue s ! k) s) = Inr s' \<and>
    llm_tasks s' = umap_set n t (llm_tasks s) \<and> node_reach s' (Suc k) \<and>
    (\<exists>ch. map_of (llm_task_channel s') n = Some ch \<and> request_id ch = rid \<and> lc_work_id ch = ''llm'' @ ''.'' @ to_string n) \<and>
    response_format t = response_format t1"
proof -
  have ok: "node_ok s" using node_reach_ok [OF r] .
  have nm: "sf_unit_name s = ''llm''" using ok by (simp add: node_ok_def node_core_def)
  obtain s' t where s': "dispatch_event (llm_vtable io) io (event_queue s ! k) s = Inr s'" "llm_tasks s' = umap_set n t (llm_tasks s)"
      "\<exists>ch. map_of (llm_task_channel s') n = Some ch \<and> request_id ch = rid \<and> lc_work_id ch = ''llm'' @ ''.'' @ to_string n"
      "response_format t = response_format t1"
    using on_setup_total [of s io n out infer url raw rid d body t1] ok up rep n free l rid cfg q(2) by auto
  have "unpack_cb (io_sc io) \<lparr>msg = unit_reply n out infer\<rparr> ([], [], []) = (Inr (), (to_string n, out, infer))"
    using unpack_unit_reply [OF n(1) l(2,4)] by (simp add: unpack_cb_def)
  with sys_call [OF up rep, of "unpack_cb (io_sc io)" "([], [], [])" "(to_string n, out, infer)"] n(1,2) nm
  have "numbers_ok io (sf_unit_name s)" by (auto simp: numbers_ok_def)
  moreover have d: "thread_result (dispatch_event (llm_vtable io) io (event_queue s ! k) s) = Inr s'"
    using s'(1) by (simp add: thread_result_def)
  ultimately have "node_reach s' (Suc k)" using r q(1) by (intro node_reach.event)
  with d s'(2-4) show ?thesis by blast
qed

text \<open>
  C11. A request to set up a task succeeds when it should: in a node with fewer than three tasks, when
  libzmq works, the unit manager answers with a new number and two addresses, and the configuration
  in the request is complete, handling the request starts exactly one task, under that number, with the
  response format of the configuration and a channel that answers under the request's identifier, and the
  node is consistent afterwards. The identifier has to be well-formed UTF-8, or the reply cannot be printed.
\<close>

theorem setup_starts_task:
  assumes r: "node_reach s k" and q: "k < length (event_queue s)" "event_queue s ! k = (EVENT_SETUP, Some \<lparr>msg = set_param url raw\<rparr>)"
    and up: "sys_up (io_env io)" and rep: "reply (io_env io) ''register_unit'' ''llm'' = Some (unit_reply n out infer)"
    and n: "is_int32 n" "n \<noteq> WORK_ID_NONE" "map_of (llm_tasks s) n = None" and free: "length (llm_tasks s) < 3"
    and l: "2 \<le> length out" "length out \<le> param0_limit (io_sc io)" "2 \<le> length infer" "length infer \<le> 2147483000"
      "2 \<le> length url" "length url \<le> param0_limit (io_sc io)" "length raw < 2147483000"
    and rid: "sample_json_str_get raw ''request_id'' = Inr rid" "utf8 rid"
    and cfg: "sample_json_str_get raw ''data'' = Inr d" "json_parse d = Inr body" "load_model body (llm_task_ctor (next_task s)) = (0, t1)"
  shows "\<exists>s' t. thread_result (dispatch_event (llm_vtable io) io (event_queue s ! k) s) = Inr s' \<and>
    llm_tasks s' = umap_set n t (llm_tasks s) \<and> node_reach s' (Suc k) \<and>
    (\<exists>ch. map_of (llm_task_channel s') n = Some ch \<and> request_id ch = rid \<and> lc_work_id ch = ''llm'' @ ''.'' @ to_string n) \<and>
    response_format t = response_format t1"
  by (rule setup_reaches) (fact assms)+

text \<open>A node in a world where every call succeeds, before and after its first task.\<close>

definition up_io :: node_io where
  "up_io = \<lparr>io_env = \<lparr>ctx_new = (\<lambda>_. True), socket_new = (\<lambda>_. True), bind_ret = (\<lambda>_. 0), connect_ret = (\<lambda>_. 0), file_exists = (\<lambda>_. True),
       reply = (\<lambda>a _. if a = ''register_unit'' then Some (unit_reply 5 ''ipc:///tmp/llm/1.sock'' ''ipc:///tmp/llm/2.sock'') else Some ''Success'')\<rparr>,
     io_sc = True, io_now = 0\<rparr>"

definition demo_config :: json where
  "demo_config = JObj [(''enoutput'', JBool True), (''model'', JStr ''m''), (''response_format'', JStr ''utf-8'')]"

definition demo_setup_text :: string where
  "demo_setup_text = ''{'' @ find_key ''data'' @ [] @ '':'' @ [] @ field_text (FObj (tl (json_text demo_config))) @ ''}''"

definition demo_setup :: pzmq_data where
  "demo_setup = \<lparr>msg = set_param ''ipc:///tmp/llm/9.sock'' demo_setup_text\<rparr>"

lemma up_io_sys: "sys_up (io_env up_io)"
  by (simp add: sys_up_def zmq_up_def up_io_def)

lemma demo_asked:
  "\<exists>s. node_reach s 0 \<and> event_queue s = [(EVENT_SETUP, Some demo_setup)] \<and> llm_tasks s = []"
proof -
  from StackFlow_ctor_total [of "io_env up_io" "''llm''"] up_io_sys obtain b :: "task_ref StackFlow" where
    b: "StackFlow_ctor (io_env up_io) ''llm'' = Inr b" "event_queue b = []" "rpc_ready (rpc_ctx b)" by (auto simp: sys_up_def)
  let ?s = "StackFlow.StackFlow.extend b \<lparr>task_count = 3, llm_tasks = [], next_task = 0, stream_index = 0, stream_buff = []\<rparr>"
  have c: "llm_llm_ctor (io_env up_io) = Inr ?s" using b(1) by (simp add: llm_llm_ctor_def)
  have e: "event_queue ?s = []" "rpc_ready (rpc_ctx ?s)" "llm_tasks ?s = []" using b(2,3) by (simp_all add: StackFlow.StackFlow.extend_def)
  have "rpc_dispatch node_rpc (rpc_ctx ?s) ''setup'' demo_setup ?s = (Inr ''None'', ?s\<lparr>event_queue := [(EVENT_SETUP, Some demo_setup)]\<rparr>)"
    unfolding node_dispatch [OF e(2)] e(1) by (simp add: node_actions_def)
  from node_reach.request [OF node_reach.init [OF c] this] e(3) show ?thesis
    by (intro exI [of _ "?s\<lparr>event_queue := [(EVENT_SETUP, Some demo_setup)]\<rparr>"]) simp
qed

lemma demo_config_text:
  "json_text demo_config = ''{'' @ quoted ''enoutput'' @ '':true,'' @ quoted ''model'' @ '':'' @ quoted ''m'' @ '','' @ quoted ''response_format'' @ '':'' @ quoted ''utf-8'' @ ''}''"
  by (simp add: demo_config_def std_map_def)

lemma demo_data: "sample_json_str_get demo_setup_text ''data'' = Inr (json_text demo_config)" "sample_json_str_get demo_setup_text ''request_id'' = Inr []"
  and demo_length: "length demo_setup_text < 2147483000"
proof -
  show "sample_json_str_get demo_setup_text ''data'' = Inr (json_text demo_config)"
    using json_get_field [of "''{''" "''data''" "[]" "[]" "FObj (tl (json_text demo_config))" "''}''"]
    by (simp add: demo_setup_text_def demo_config_text quoted_def escape_cp_def find_key_def str_find_def Let_def)
  show "sample_json_str_get demo_setup_text ''request_id'' = Inr []"
    by (rule sample_json_str_get_absent) (simp add: demo_setup_text_def demo_config_text quoted_def escape_cp_def find_key_def str_find_def)
  show "length demo_setup_text < 2147483000" by (simp add: demo_setup_text_def demo_config_text quoted_def escape_cp_def find_key_def)
qed

lemma demo_args:
  "sys_up (io_env up_io)" "reply (io_env up_io) ''register_unit'' ''llm'' = Some (unit_reply 5 ''ipc:///tmp/llm/1.sock'' ''ipc:///tmp/llm/2.sock'')"
  "is_int32 5" "5 \<noteq> WORK_ID_NONE" "length ''ipc:///tmp/llm/1.sock'' \<le> param0_limit (io_sc up_io)" "length ''ipc:///tmp/llm/9.sock'' \<le> param0_limit (io_sc up_io)"
  by (simp_all add: up_io_sys) (simp_all add: up_io_def is_int32_def WORK_ID_NONE_def param0_limit_def)

lemma demo_config_parsed: "json_parse (json_text demo_config) = Inr demo_config"
proof -
  have "json_ok demo_config" "canon demo_config = demo_config" by (simp_all add: demo_config_def std_map_def utf8_ascii)
  with json_parse_text [of demo_config] show ?thesis by simp
qed

lemma demo_load: "\<exists>t. load_model demo_config t0 = (0, t) \<and> t_enstream t = Some False \<and> response_format t = ''utf-8''"
  by (simp add: demo_config_def load_model_def parse_config_def json_at_def json_as_string_def json_as_bool_def parse_input_def json_contains_def Let_def str_find_def)

theorem setup_starts_task_witness:
  "\<exists>s s'. node_reach s 0 \<and> thread_result (dispatch_event (llm_vtable up_io) up_io (event_queue s ! 0) s) = Inr s' \<and>
     node_reach s' 1 \<and> map fst (llm_tasks s') = [5]"
proof -
  obtain s where s: "node_reach s 0" "event_queue s = [(EVENT_SETUP, Some demo_setup)]" "llm_tasks s = []"
    using demo_asked by blast
  obtain t1 where t1: "load_model demo_config (llm_task_ctor (next_task s)) = (0, t1)" using demo_load by blast
  have "\<exists>s' t. thread_result (dispatch_event (llm_vtable up_io) up_io (event_queue s ! 0) s) = Inr s' \<and>
    llm_tasks s' = umap_set 5 t (llm_tasks s) \<and> node_reach s' (Suc 0) \<and>
    (\<exists>ch. map_of (llm_task_channel s') 5 = Some ch \<and> request_id ch = [] \<and> lc_work_id ch = ''llm'' @ ''.'' @ to_string 5) \<and>
    response_format t = response_format t1"
    by (rule setup_starts_task [of s 0 "''ipc:///tmp/llm/9.sock''" demo_setup_text up_io 5 "''ipc:///tmp/llm/1.sock''" "''ipc:///tmp/llm/2.sock''" "[]" "json_text demo_config" demo_config t1])
      (use s t1 demo_args demo_data demo_length demo_config_parsed in \<open>simp_all add: demo_setup_def\<close>)
  with s show ?thesis by auto
qed

lemma demo_running:
  "\<exists>s t ch. node_reach s 1 \<and> map_of (llm_tasks s) 5 = Some t \<and> map_of (llm_task_channel s) 5 = Some ch \<and> task_texts t ch"
proof -
  obtain s where s: "node_reach s 0" "event_queue s = [(EVENT_SETUP, Some demo_setup)]" "llm_tasks s = []"
    using demo_asked by blast
  obtain t1 where t1: "load_model demo_config (llm_task_ctor (next_task s)) = (0, t1)" "response_format t1 = ''utf-8''" using demo_load by blast
  have "\<exists>s' t. thread_result (dispatch_event (llm_vtable up_io) up_io (event_queue s ! 0) s) = Inr s' \<and>
    llm_tasks s' = umap_set 5 t (llm_tasks s) \<and> node_reach s' (Suc 0) \<and>
    (\<exists>ch. map_of (llm_task_channel s') 5 = Some ch \<and> request_id ch = [] \<and> lc_work_id ch = ''llm'' @ ''.'' @ to_string 5) \<and>
    response_format t = response_format t1"
    by (rule setup_reaches [of s 0 "''ipc:///tmp/llm/9.sock''" demo_setup_text up_io 5 "''ipc:///tmp/llm/1.sock''" "''ipc:///tmp/llm/2.sock''" "[]" "json_text demo_config" demo_config t1])
      (use s t1 demo_args demo_data demo_length demo_config_parsed in \<open>simp_all add: demo_setup_def\<close>)
  moreover have "utf8 ''utf-8''" by (simp add: utf8_ascii)
  moreover note t1(2) utf8_wid [of 5]
  ultimately show ?thesis by (fastforce simp: task_texts_def)
qed

theorem node_tasks_consistent_witness:
  "\<exists>s t ch z. node_reach s 1 \<and> map_of (llm_tasks s) 5 = Some t \<and> map_of (llm_task_channel s) 5 = Some ch \<and>
     slot ch 0 = Some (z, Some (t_addr t, 5))"
proof -
  obtain s t where s: "node_reach s 1" "map_of (llm_tasks s) 5 = Some t" using demo_running by blast
  with node_tasks_consistent [OF s(1)] show ?thesis by blast
qed

definition demo_text :: string where
  "demo_text = ''{'' @ find_key ''data'' @ [] @ '':'' @ [] @ field_text (FStr ''hi'') @ ''}''"

lemma demo_text_fields: "sample_json_str_get demo_text ''data'' = Inr ''hi''" "sample_json_str_get demo_text ''object'' = Inr []"
  and demo_text_plain: "action_scan demo_text 0 = False"
proof -
  show "sample_json_str_get demo_text ''data'' = Inr ''hi''"
    using json_get_field [of "''{''" "''data''" "[]" "[]" "FStr ''hi''" "''}''"]
    by (simp add: demo_text_def find_key_def str_find_def)
  show "sample_json_str_get demo_text ''object'' = Inr []"
    by (simp add: sample_json_str_get_def demo_text_def find_key_def str_find_def int_of_pos_def Let_def)
  show "action_scan demo_text 0 = False"
    by (simp add: action_scan.simps action_key_def demo_text_def find_key_def str_find_def)
qed


section \<open>Errors\<close>

text \<open>
  C38. A request about a task that does not run ends the node: the reply to \<^verbatim>\<open>exit\<close> or \<^verbatim>\<open>taskinfo\<close> with the
  number of no task is an error object where a string is expected, and the exception leaves the event
  thread.
\<close>

theorem unknown_task_terminates:
  assumes r: "node_reach s k" and ev: "ev = EVENT_EXIT \<or> ev = EVENT_TASKINFO"
    and l: "length url \<le> param0_limit (io_sc io)" "length raw < 2147483000"
    and w: "sample_json_str_get raw ''work_id'' = Inr wid" "sample_get_work_id_num wid = Inr n" "n \<noteq> WORK_ID_NONE"
      "map_of (llm_tasks s) n = None"
  shows "thread_result (dispatch_event (llm_vtable io) io (ev, Some \<lparr>msg = set_param url raw\<rparr>) s) = Inl Terminate"
proof -
  have c: "sf_status s = 1" "fst ` set (llm_task_channel s) = fst ` set (llm_tasks s)"
    using node_reach_ok [OF r] by (simp_all add: node_ok_def node_core_def)
  have nc: "map_of (llm_task_channel s) n = None" using w(4) c(2) by (simp add: map_of_eq_None_iff)
  obtain rid where rid: "take_request io 1 \<lparr>msg = set_param url raw\<rparr> s = Inr ((url, raw), s\<lparr>sf_request_id := rid, out_zmq_url := url\<rparr>)"
    using take_request_packed [OF l] by blast
  obtain ob d where od: "sample_json_str_get raw ''object'' = Inr ob" "sample_json_str_get raw ''data'' = Inr d"
    using sample_json_str_get_total [of raw "''object''"] sample_json_str_get_total [of raw "''data''"] l(2) by auto
  let ?s = "s\<lparr>sf_request_id := rid, out_zmq_url := url\<rparr>"
  have t: "try_push_url io wid url ?s = Inr ?s" using w(2) nc by (simp add: try_push_url_def get_channel_def umap_at_def)
  have "raw_exit (llm_vtable io) io url raw ?s = Inl not_a_string"
    "raw_taskinfo (llm_vtable io) io url raw ?s = Inl not_a_string"
    using w t od by (simp_all add: raw_exit_def raw_taskinfo_def llm_vtable_def llm_exit_def llm_taskinfo_def)
  with ev rid c(1) have "dispatch_event (llm_vtable io) io (ev, Some \<lparr>msg = set_param url raw\<rparr>) s = Inl not_a_string"
    by (auto simp: dispatch_event_def on_exit_def on_taskinfo_def)
  then show ?thesis by (simp add: thread_result_def)
qed

definition demo_exit :: string where
  "demo_exit = ''{'' @ find_key ''work_id'' @ [] @ '':'' @ [] @ field_text (FStr ''llm.7'') @ ''}''"

theorem unknown_task_terminates_witness:
  "\<exists>s. node_reach s 0 \<and>
     thread_result (dispatch_event (llm_vtable up_io) up_io (EVENT_EXIT, Some \<lparr>msg = set_param ''ipc:///tmp/llm/9.sock'' demo_exit\<rparr>) s) = Inl Terminate"
proof -
  obtain s where s: "node_reach s 0" "llm_tasks s = []" using demo_asked by blast
  have w: "sample_json_str_get demo_exit ''work_id'' = Inr ''llm.7''"
    using json_get_field [of "''{''" "''work_id''" "[]" "[]" "FStr ''llm.7''" "''}''"]
    by (simp add: demo_exit_def find_key_def str_find_def)
  have "to_string 7 = ''7''" by code_simp
  then have n: "sample_get_work_id_num ''llm.7'' = Inr 7" using wid_llm [of 7] by (simp add: is_int32_def)
  have "length demo_exit < 2147483000" by (simp add: demo_exit_def find_key_def)
  with unknown_task_terminates [OF s(1), of EVENT_EXIT "''ipc:///tmp/llm/9.sock''" up_io demo_exit "''llm.7''" 7] s w n demo_args(6)
  show ?thesis by (auto simp: WORK_ID_NONE_def)
qed

text \<open>A node cannot be shut down in a defined way while a task runs.\<close>

lemma stop_tasks_channels: "stop_tasks io ts s = Inr s' \<Longrightarrow> llm_task_channel s \<noteq> [] \<Longrightarrow> llm_task_channel s' \<noteq> []"
proof (induction io ts s rule: stop_tasks.induct)
  case (2 io n t ts s)
  then obtain ch ch1 where "stop_tasks io ts (put_channel n ch1 (s\<lparr>llm_tasks := umap_erase n (llm_tasks s)\<rparr>)) = Inr s'"
    "get_channel n s = Inr ch" "stop_subscriber (io_env io) [] ch = Inr ch1"
    by (auto simp: res_simps)
  moreover have "umap_set n ch1 m \<noteq> []" for m by (cases m) auto
  ultimately show ?case using 2(1) by (auto simp: put_channel_def)
qed simp

lemma shutdown_with_tasks_fails:
  assumes "llm_task_channel s \<noteq> []"
  shows "\<exists>e. llm_llm_dtor io s = Inl e"
proof (cases "stop_tasks io (llm_tasks s) s")
  case (Inr s1)
  with stop_tasks_channels [OF Inr assms] show ?thesis
    by (cases "llm_task_channel s1") (auto simp: llm_llm_dtor_def thread_result_def StackFlow_dtor_def Let_def split: sum.splits)
qed (simp add: llm_llm_dtor_def thread_result_def)

end
