(* ===== verification/Spec2Isabelle.thy ===== *)
theory Spec2Isabelle
  imports NetEventLoop NetClient ManagerTcp LlmNode
begin

text \<open>
  \<^bold>\<open>The program.\<close> A unit manager (\<^verbatim>\<open>unit-manager\<close>) accepts TCP clients that send JSON lines, and routes them to
  nodes; a node (\<^verbatim>\<open>node\<close>, on the base class of \<^verbatim>\<open>infra-controller\<close>) runs tasks and sends results back. Manager
  and nodes talk over zmq sockets through the wrapper of \<^verbatim>\<open>hybrid-comm\<close>; the TCP side rests on an event-loop
  library (\<^verbatim>\<open>network\<close>). A user's \<^verbatim>\<open>setup\<close> request goes from the TCP connection to the manager's message bus,
  by RPC to the node, which registers a unit with the manager, creates the channel of the task and
  answers on the reply address of the request. An \<^verbatim>\<open>inference\<close> message is published by the manager on
  the inference address of the unit, to which the channel of the task subscribes.

  \<^bold>\<open>Theories.\<close>
  \<^item> \<^theory_text>\<open>Dt_Prelude\<close>: failures of C++ code as values (\<open>cxx_error\<close>, \<open>res\<close>, \<open>bind_res\<close>), \<^verbatim>\<open>size_t\<close> and \<^verbatim>\<open>int\<close> with their
    wrap-around, \<^verbatim>\<open>std::string\<close> searches, \<^verbatim>\<open>stoi\<close>/\<^verbatim>\<open>to_string\<close>, \<^verbatim>\<open>unordered_map\<close> as \<open>umap\<close>, and the shared lemmas.
    \<^theory_text>\<open>CFormat\<close>: the conversions of \<^verbatim>\<open>sprintf\<close>/\<^verbatim>\<open>sscanf\<close> that the sources use.
  \<^item> \<^theory_text>\<open>NetEndian\<close>, \<^theory_text>\<open>NetBuffer\<close> (\<^verbatim>\<open>network/Endian.h\<close>, \<^verbatim>\<open>Buffer\<close>): byte order and the byte buffer with its indices;
    the buffer refines a queue of bytes, integers round-trip, growth is exact.
  \<^item> \<^theory_text>\<open>NetPoller\<close> (\<^verbatim>\<open>Channel\<close>, \<^verbatim>\<open>Poller\<close>): channels and the epoll interest list, kept in step. \<^theory_text>\<open>NetEventLoop\<close>
    (\<^verbatim>\<open>EventLoop\<close>): the loop, its queue and wake-up descriptor as a step system with other threads; no
    wake-up is lost and functors run once, in order.
  \<^item> \<^theory_text>\<open>NetConnection\<close> (\<^verbatim>\<open>TcpConnection\<close>): a connection with buffers, channel and callbacks; the bytes written
    are exactly the bytes sent, and the life cycle is respected. \<^theory_text>\<open>NetInet\<close> (\<^verbatim>\<open>InetAddress\<close>, \<^verbatim>\<open>SocketsOps\<close>, \<^verbatim>\<open>Socket\<close>):
    addresses as bytes in memory, well-typed however they are made, and their text form.
    \<^theory_text>\<open>NetThreads\<close> (\<^verbatim>\<open>EventLoopThread\<close>, \<^verbatim>\<open>EventLoopThreadPool\<close>): the start handshake and the choice of loops.
    \<^theory_text>\<open>NetServer\<close> (\<^verbatim>\<open>Acceptor\<close>, \<^verbatim>\<open>TcpServer\<close>) and \<^theory_text>\<open>NetClient\<close> (\<^verbatim>\<open>Connector\<close>, \<^verbatim>\<open>TcpClient\<close>).
  \<^item> \<^theory_text>\<open>PzmqData\<close>, \<^theory_text>\<open>Pzmq\<close> (\<^verbatim>\<open>pzmq_data\<close>, \<^verbatim>\<open>pzmq.hpp\<close>): RPC messages and the socket wrapper with server, client and
    receiving thread.
  \<^item> \<^theory_text>\<open>JsonDump\<close>, \<^theory_text>\<open>JsonLexer\<close>, \<^theory_text>\<open>JsonParse\<close>, \<^theory_text>\<open>JsonValue\<close> (\<^verbatim>\<open>utils/json.hpp\<close>): what the program uses of the JSON library. Printing
    on one line with the table-driven check of UTF-8, the scanner with its error messages, the parser that
    builds a value, member access, assignment and conversions. Printing accepts exactly well-formed UTF-8 and never
    writes outside its buffer, parsing ends on every text, and parsing gives back what was printed.
  \<^item> \<^theory_text>\<open>FlowUtil\<close> (\<^verbatim>\<open>StackFlowUtil.cpp\<close>): the field scanner, work identifiers, UTF-8, streams of chunks.
  \<^item> \<^theory_text>\<open>RemoteServer\<close>, \<^theory_text>\<open>UnitBus\<close> (\<^verbatim>\<open>unit-manager\<close>): the table, units and ports, the RPC actions, and the message bus
    with its sessions; no two units ever hold the same port. \<^theory_text>\<open>ManagerTcp\<close> (\<^verbatim>\<open>tcp_comm.cpp\<close>, \<^verbatim>\<open>main.cpp\<close>): the TCP server of the
    manager, from its start on the configured port to its stop in any state of its connections.
  \<^item> \<^theory_text>\<open>LlmChannel\<close> (\<^verbatim>\<open>channel.cpp\<close>, \<^verbatim>\<open>channel.h\<close>, \<^verbatim>\<open>unit_call\<close>): the channel of a task. \<^theory_text>\<open>StackFlow\<close> (\<^verbatim>\<open>StackFlow.cpp\<close>, \<^verbatim>\<open>StackFlow.h\<close>):
    the base class of nodes as an extensible record, its virtual functions as a record of functions.
    \<^theory_text>\<open>LlmNode\<close> (\<^verbatim>\<open>node/test/src/main.cpp\<close>): the language-model node, which extends that record.
  \<^item> this theory: the manager and a node together: a new unit is known to both under the same identifier and
    addresses, and an inference message that reaches the manager is answered on the user's socket.

  \<^bold>\<open>Interfaces.\<close> The locales state what one part relies on in another, and are interpreted on the model:
  the table of RPC actions (\<open>action_table\<close>, by \<open>register\<close>/\<open>handler\<close>), the byte queue of the buffer and the other
  locales of the network library (interest list, source of loops), and the contract between the base
  class and a node (\<open>flow_node\<close>, by the language-model node).

  \<^bold>\<open>Correspondence.\<close> Classes are records, enumerations datatypes; a method is one definition with the same
  name (with a prefix where HOL or another class uses the name) that returns the new object, or an
  error for each exception, failed assertion, undefined behaviour or non-returning call. Calls to
  libzmq and to eventpp are kept in order in a field of the object. Step relations (\<open>sys_step\<close>,
  \<open>loop_step\<close>, \<open>conn_step\<close>, \<open>net_step\<close>, \<open>cn_step\<close>, \<open>lt_step\<close>, \<open>lc_reach\<close>, \<open>node_reach\<close>) interleave the threads: in the event loop at the
  level of its critical sections, elsewhere between whole handlers.

  \<^bold>\<open>Parameters.\<close> Code outside the sources is an argument: \<open>zenv\<close> (what libzmq, the file system and RPC peers
  answer), the results of system calls, \<^verbatim>\<open>inet_ntop\<close>/\<^verbatim>\<open>inet_pton\<close>, the simdjson reader and the
  reader of the configuration file, the clock, the signedness of \<^verbatim>\<open>char\<close>. Hypotheses on them are the documented behaviour and are
  stated where they are used (\<open>zmq_up\<close>, \<open>sys_up\<close>, \<open>kernel_ok\<close>, \<open>ntop_ok\<close>, \<open>numbers_ok\<close>).

  \<^bold>\<open>Bounds and fuel.\<close> No definition uses fuel: loops over what a socket or queue delivers recurse on the list of
  deliveries, the scan for an action and the loops of the JSON scanner and parser have termination proofs, and the loops that wait for libzmq are
  partial functions whose result is proved to exist when a try succeeds. Texts are bounded by \<open>2 ^ 31\<close>
  where the sources keep positions in \<^verbatim>\<open>int\<close>.

  \<^bold>\<open>Not modelled.\<close> The samples, container and build files and the Python scripts have no logic of their own; of
  the vendored \<^verbatim>\<open>json.hpp\<close> the parts that the program does not call are left out (printing of floating-point numbers,
  indentation, comments, parser callbacks, binary formats, pointers and patches), and of \<^verbatim>\<open>zmq.h\<close> all but
  the constants in use; log output, process and thread
  identifiers, time stamps, \<^verbatim>\<open>main\<close> of the node (signals and sleeping) and thin wrappers of system
  calls are left out. Data races on unlocked shared variables (the statics of the node, the flags
  of a channel) are outside the interleavings and reported as findings.
\<close>

section \<open>The unit manager and a node\<close>

lemma allocate_url_length:
  assumes "allocate_url unit suffix st = Inr (url, st')"
  shows "length url < length (zmq_s_format st) + length unit + length suffix + 12"
proof -
  from assms obtain i ports where r: "sprintf_i (length (unit_url_format (zmq_s_format st) unit suffix) + length (to_string (to_int32 (port_list_start st + int i))))
      (unit_url_format (zmq_s_format st) unit suffix) (to_int32 (port_list_start st + int i)) = Inr url"
    by (auto simp: allocate_url_def Let_def res_simps split: option.splits prod.splits)
  have "length url < length (unit_url_format (zmq_s_format st) unit suffix) + length (to_string (to_int32 (port_list_start st + int i)))"
    using r by (auto simp: sprintf_i_def res_simps split: if_splits)
  moreover have "length (to_string (to_int32 (port_list_start st + int i))) \<le> 11" by (intro length_to_string) simp
  ultimately show ?thesis by (auto simp: unit_url_format_def split: if_splits)
qed

text \<open>The addresses of a new unit, and the publisher of the manager on the second one.\<close>

lemma allocated_addresses:
  assumes cfg: "config_ok st" and a: "sys_allocate_unit env unit st = Inr (p, st')"
  shows "\<exists>u pub. map_of (unit_heap st') p = Some u \<and> map_of (key_sql st') (work_id u) = Some (AUnit p) \<and>
    unit_port u = work_id_number_counter st \<and> work_id u = unit @ ''.'' @ to_string (work_id_number_counter st) \<and>
    6 \<le> length (output_url u) \<and> length (output_url u) < length (zmq_s_format st) + length unit + 26 \<and>
    length (inference_url u) < length (zmq_s_format st) + length unit + 26 \<and>
    user_inference_chennal u = Some pub \<and> zmq_url pub = inference_url u"
proof -
  let ?n = "work_id_number_counter st"
  let ?st1 = "st\<lparr>next_addr := next_addr st + 1, work_id_number_counter := to_int32 (?n + 1)\<rparr>"
  let ?wid = "unit @ ''.'' @ to_string ?n"
  from a obtain out st2 inf st3 u where
    o: "allocate_url unit ''.output_url'' ?st1 = Inr (out, st2)" and f: "allocate_url unit ''.inference_url'' st2 = Inr (inf, st3)" and
    z: "init_zmq env inf \<lparr>user_inference_chennal = None, work_id = ?wid, output_url = out, inference_url = [], unit_port = ?n\<rparr> = Inr u" and
    r: "p = next_addr st" "st' = safe_setting (?wid @ ''.out_port'') (AString out)
          (safe_setting ?wid (AUnit p) (st3\<lparr>unit_heap := umap_set p u (unit_heap st3)\<rparr>))"
    by (auto simp: sys_allocate_unit_def Let_def res_simps)
  have c1: "fmt_ok (zmq_s_format ?st1)" "0 \<le> port_list_start ?st1" "port_list_start ?st1 + int (length (port_list ?st1)) \<le> 2147483647"
    using cfg by (simp_all add: config_ok_def)
  have "6 \<le> length out" "zmq_s_format st2 = zmq_s_format st" using allocate_url_Inr [OF c1 o] by auto
  moreover from z obtain pub where "pzmq_socket env inf ZMQ_PUB = Inr pub"
    "u = \<lparr>user_inference_chennal = Some pub, work_id = ?wid, output_url = out, inference_url = inf, unit_port = ?n\<rparr>"
    by (auto simp: init_zmq_def res_simps)
  ultimately show ?thesis
    using allocate_url_length [OF o] allocate_url_length [OF f] r pzmq_socket_pub_url [of env inf pub]
    by (simp add: safe_setting_def)
qed

lemma allocated_reply:
  assumes "sys_allocate_unit env (pzmq_data_string raw) st = Inr (p, st')" and "map_of (unit_heap st') p = Some u"
  shows "rpc_allocate_unit env raw st = (Inr (unit_reply (unit_port u) (output_url u) (inference_url u)), st')"
  using assms by (simp add: rpc_allocate_unit_def unit_reply_def)

text \<open>
  C7. Manager and node agree on a new task: when the manager has answered a registration and the
  node handles that answer, the node keeps a channel under the manager's number, bound to the output
  address the manager recorded; the identifier that the node will give back is the one under which
  the manager files the unit; and a subscription of the channel connects to the very address on
  which the manager publishes the user's messages for that unit.
\<close>

theorem node_meets_its_unit:
  assumes inv: "sys_inv st" and a: "rpc_allocate_unit env \<lparr>msg = ''llm''\<rparr> st = (Inr rep, st')" and len: "length (zmq_s_format st) \<le> 80"
    and up: "sys_up (io_env io)" "reply (io_env io) ''register_unit'' ''llm'' = Some rep"
    and f: "map_of (llm_task_channel s) (work_id_number_counter st) = None"
  shows "\<exists>p u pub ch z. map_of (key_sql st') (sample_get_work_id (work_id_number_counter st) ''llm'') = Some (AUnit p) \<and>
    map_of (unit_heap st') p = Some u \<and> user_inference_chennal u = Some pub \<and>
    node_register_unit io ''llm'' s = Inr (work_id_number_counter st, put_channel (work_id_number_counter st) ch s) \<and>
    slot ch (-1) = Some (z, None) \<and> zmq_url z = output_url u \<and>
    (\<forall>c r ch'. subscriber_work_id (io_env io) [] c ch = Inr (r, ch') \<longrightarrow> (\<exists>z'. slot ch' 0 = Some (z', Some c) \<and> zmq_url z' = zmq_url pub))"
proof -
  have cfg: "config_ok st" using inv by (simp add: sys_inv_def)
  from a obtain p where p: "sys_allocate_unit env (pzmq_data_string \<lparr>msg = ''llm''\<rparr>) st = Inr (p, st')"
    by (auto simp: rpc_allocate_unit_def split: sum.splits prod.splits option.splits)
  have nm: "pzmq_data_string \<lparr>msg = ''llm''\<rparr> = ''llm''" by (simp add: pzmq_data_string_def)
  obtain u pub where u: "map_of (unit_heap st') p = Some u" "map_of (key_sql st') (work_id u) = Some (AUnit p)"
    "unit_port u = work_id_number_counter st" "work_id u = ''llm'' @ ''.'' @ to_string (work_id_number_counter st)"
    "6 \<le> length (output_url u)" "length (output_url u) < length (zmq_s_format st) + length ''llm'' + 26"
    "length (inference_url u) < length (zmq_s_format st) + length ''llm'' + 26"
    "user_inference_chennal u = Some pub" "zmq_url pub = inference_url u"
    using allocated_addresses [OF cfg p [unfolded nm]] by blast
  have rep: "reply (io_env io) ''register_unit'' ''llm'' = Some (unit_reply (work_id_number_counter st) (output_url u) (inference_url u))"
    using allocated_reply [OF p u(1)] a up(2) u(3) by simp
  have n: "is_int32 (work_id_number_counter st)" using cfg by (simp add: config_ok_def)
  have l: "2 \<le> length (output_url u)" "length (output_url u) \<le> param0_limit (io_sc io)" "length (inference_url u) \<le> 2147483000"
    using u(5,6,7) len by (simp_all add: param0_limit_def)
  obtain ch where ch: "llm_channel_ctor (io_env io) (output_url u) (inference_url u) (sf_unit_name s) = Inr ch"
    "node_register_unit io ''llm'' s = Inr (work_id_number_counter st, put_channel (work_id_number_counter st) ch s)"
    using register_unit_total [OF up(1) rep n l f] by blast
  from ch(1) obtain z where z: "pzmq_socket (io_env io) (output_url u) ZMQ_PUB = Inr z" "slot ch (-1) = Some (z, None)" "lc_inference_url ch = inference_url u"
    by (auto simp: llm_channel_ctor_def slot_def res_simps)
  have "\<exists>z'. slot ch' 0 = Some (z', Some c) \<and> zmq_url z' = zmq_url pub" if "subscriber_work_id (io_env io) [] c ch = Inr (r, ch')" for c r ch'
  proof -
    from that z(3) obtain z' where z': "pzmq_socket (io_env io) (inference_url u) ZMQ_SUB = Inr z'" "lc_put (io_env io) 0 (Some (z', Some c)) ch = Inr ch'"
      by (auto simp: subscriber_work_id_def Let_def res_simps)
    with slot_put(1) [OF z'(2), of 0] pzmq_socket_url [OF z'(1)] u(9) show ?thesis by (simp add: ZMQ_SUB_def)
  qed
  with u ch(2) z(1,2) pzmq_socket_url [OF z(1)] show ?thesis
    unfolding sample_get_work_id_def by (auto simp: ZMQ_PUB_def)
qed

theorem node_meets_its_unit_witness:
  "\<exists>rep st' io (s :: unit StackFlow) s'. rpc_allocate_unit demo_env \<lparr>msg = ''llm''\<rparr> demo_sys = (Inr rep, st') \<and>
     StackFlow_ctor demo_env ''llm'' = Inr s \<and> node_register_unit io ''llm'' s = Inr (0, s') \<and> map fst (llm_task_channel s') = [0]"
proof -
  obtain p st1 where al: "sys_allocate_unit demo_env ''llm'' demo_sys = Inr (p, st1)" using demo_allocates by blast
  have cfg: "config_ok demo_sys" using demo_sys_inv by (simp add: sys_inv_def)
  obtain u where "map_of (unit_heap st1) p = Some u" using allocated_addresses [OF cfg al] by blast
  then obtain rep where r: "rpc_allocate_unit demo_env \<lparr>msg = ''llm''\<rparr> demo_sys = (Inr rep, st1)"
    using al by (simp add: rpc_allocate_unit_def pzmq_data_string_def)
  obtain s :: "unit StackFlow" where s: "StackFlow_ctor demo_env ''llm'' = Inr s" "llm_task_channel s = []"
    using StackFlow_ctor_total [OF demo_env_up] by blast
  let ?io = "demo_io\<lparr>io_env := demo_env\<lparr>reply := (\<lambda>_ _. Some rep)\<rparr>\<rparr>"
  have up: "sys_up (io_env ?io)" by (auto simp: sys_up_def zmq_up_def demo_env_def)
  have n: "work_id_number_counter demo_sys = 0" "length (zmq_s_format demo_sys) \<le> 80" by (simp_all add: demo_sys_def sys_init_def)
  from node_meets_its_unit [OF demo_sys_inv r n(2) up, of s] s(2) n(1) obtain ch where
    "node_register_unit ?io ''llm'' s = Inr (0, put_channel 0 ch s)" by auto
  with r s show ?thesis by fastforce
qed

section \<open>A message from the user and its answer\<close>

text \<open>The channel after a message that names an action: its socket to the user is connected to the address in the message.\<close>

lemma event_call_user:
  assumes up: "zmq_up env" and ok: "usr_ok ch" and a: "action_scan raw 0"
    and f: "sample_json_str_get raw ''zmq_com'' = Inr url" "sample_json_str_get raw ''request_id'' = Inr rid" "sample_json_str_get raw ''work_id'' = Inr wid"
      "sample_json_str_get raw ''object'' = Inr object" "sample_json_str_get raw ''data'' = Inr data" and u: "2 \<le> length url"
  shows "\<exists>ch1 z c. subscriber_event_call env \<lparr>msg = raw\<rparr> ch = Inr ((object, data), ch1) \<and> request_id ch1 = rid \<and> lc_work_id ch1 = wid \<and>
    slot ch1 (-2) = Some (z, c) \<and> zmq_url z = url"
proof -
  obtain ch0 where s: "set_push_url env url ch = Inr ch0" using set_push_url_total [OF up u ok] ..
  let ?ch = "ch0\<lparr>request_id := rid, lc_work_id := wid\<rparr>"
  have "usr_ok ?ch" "lc_output_url ?ch = url" using set_push_url_usr [OF s ok] by simp_all
  with u obtain z c where "slot ?ch (-2) = Some (z, c)" "zmq_url z = url" by (auto simp: usr_ok_def split: option.splits)
  moreover have "subscriber_event_call env \<lparr>msg = raw\<rparr> ch = Inr ((object, data), ?ch)"
    using a f s u by (auto simp: subscriber_event_call_def pzmq_data_string_def)
  ultimately show ?thesis by (intro exI [of _ ?ch] exI [of _ z] exI [of _ c]) simp
qed


definition demo_inference :: string where
  "demo_inference = ''{'' @ find_key ''action'' @ '':'' @ find_key ''inference'' @ '','' @ find_key ''data'' @ '':'' @ find_key ''hi'' @ ''}''"

lemma demo_inference_scan:
  assumes "raw = inference_prefix ''ipc:///tmp/llm/8000.sock'' @ tl demo_inference"
  shows "action_scan raw 0" "sample_json_str_get raw ''request_id'' = Inr []" "sample_json_str_get raw ''work_id'' = Inr []"
    "sample_json_str_get raw ''object'' = Inr []" "sample_json_str_get raw ''data'' = Inr ''hi''"
proof -
  let ?pre = "inference_prefix ''ipc:///tmp/llm/8000.sock'' @ find_key ''action'' @ '':'' @ find_key ''inference'' @ '',''"
  have raw: "raw = ?pre @ find_key ''data'' @ [] @ '':'' @ [] @ field_text (FStr ''hi'') @ ''}''"
    unfolding assms by (simp add: demo_inference_def find_key_def)
  note d = raw [unfolded inference_prefix_def find_key_def]
  let ?url = "inference_prefix ''ipc:///tmp/llm/8000.sock''"
  have "raw = ?url @ find_key ''action'' @ tl (drop 8 demo_inference)" unfolding assms by (simp add: demo_inference_def find_key_def)
  moreover have "str_find (?url @ butlast (find_key ''action'')) (find_key ''action'') 0 = None"
    by (simp add: inference_prefix_def find_key_def str_find_def)
  ultimately have "str_find raw action_key 0 = Some (length ?url)"
    using str_find_first [of "find_key ''action''" ?url] by (simp add: action_key_def find_key_def)
  moreover have "0 < length ?url" "?url \<noteq> []" "last ?url = CHR '',''" by (simp_all add: inference_prefix_def)
  moreover have "raw ! (length ?url - 1) = last ?url" using calculation(2,3) unfolding assms by (simp add: nth_append last_conv_nth)
  ultimately show "action_scan raw 0" by (subst action_scan.simps) simp
  show "sample_json_str_get raw ''request_id'' = Inr []" "sample_json_str_get raw ''work_id'' = Inr []" "sample_json_str_get raw ''object'' = Inr []"
    unfolding d by (rule sample_json_str_get_absent, simp add: str_find_def find_key_def)+
  show "sample_json_str_get raw ''data'' = Inr ''hi''"
    using json_get_field [of ?pre "''data''" "[]" "[]" "FStr ''hi''" "''}''"] unfolding raw
    by (simp add: inference_prefix_def find_key_def str_find_def)
qed


end
